(* ===== verification/Prelude.thy ===== *)
theory Prelude
  imports Main "HOL-Library.Word"
begin

text \<open>
  The prelude of the development: the machine word types of the kernel's C code, the
  state-and-error monad in which every C function that touches kernel state is written,
  and the generic lemmas on words and lists that the component theories share.

  A C function of result type \<open>'a\<close> becomes a function \<^typ>\<open>'s\<close> to an outcome: \<open>Ok r s'\<close>
  when it returns, \<open>Err e s'\<close> when control never comes back to the caller. The reasons
  are a call of \<open>panic\<close> (with its message), a busy-wait loop that nothing on this one-hart
  machine can end, undefined behaviour such as a null dereference or an index out of an
  array, and the fuel bound of the one recursion that has no measure of its own.
\<close>

unbundle bit_operations_syntax

section \<open>Types\<close>

type_synonym u8 = "8 word"
type_synonym u32 = "32 word"
type_synonym u64 = "64 word"

datatype err = Panic string | Spin | Fault | OutOfFuel

datatype ('s, 'a) res = Ok 'a 's | Err err 's

section \<open>The state-and-error monad\<close>

definition ret :: "'a \<Rightarrow> 's \<Rightarrow> ('s, 'a) res" where
  "ret a s = Ok a s"

definition fail :: "err \<Rightarrow> 's \<Rightarrow> ('s, 'a) res" where
  "fail e s = Err e s"

definition bindM :: "('s \<Rightarrow> ('s, 'a) res) \<Rightarrow> ('a \<Rightarrow> 's \<Rightarrow> ('s, 'b) res) \<Rightarrow> 's \<Rightarrow> ('s, 'b) res" where
  "bindM m f s = (case m s of Ok a s' \<Rightarrow> f a s' | Err e s' \<Rightarrow> Err e s')"

definition seqM :: "('s \<Rightarrow> ('s, 'a) res) \<Rightarrow> ('s \<Rightarrow> ('s, 'b) res) \<Rightarrow> 's \<Rightarrow> ('s, 'b) res" where
  "seqM m n = bindM m (\<lambda>_. n)"

definition readM :: "('s \<Rightarrow> 'a) \<Rightarrow> 's \<Rightarrow> ('s, 'a) res" where
  "readM f s = Ok (f s) s"

definition modifyM :: "('s \<Rightarrow> 's) \<Rightarrow> 's \<Rightarrow> ('s, unit) res" where
  "modifyM f s = Ok () (f s)"

definition whenM :: "bool \<Rightarrow> ('s \<Rightarrow> ('s, unit) res) \<Rightarrow> 's \<Rightarrow> ('s, unit) res" where
  "whenM b m = (if b then m else ret ())"

text \<open>A \<open>for\<close> loop over a list of indices; a failing iteration ends the loop.\<close>

fun forM :: "'i list \<Rightarrow> ('i \<Rightarrow> 's \<Rightarrow> ('s, unit) res) \<Rightarrow> 's \<Rightarrow> ('s, unit) res" where
  "forM [] f s = Ok () s"
| "forM (i # is) f s = (case f i s of Ok _ s' \<Rightarrow> forM is f s' | Err e s' \<Rightarrow> Err e s')"

text \<open>The weakest precondition for total correctness: the program returns and \<open>Q\<close> holds.\<close>

definition wp :: "('s \<Rightarrow> ('s, 'a) res) \<Rightarrow> ('a \<Rightarrow> 's \<Rightarrow> bool) \<Rightarrow> 's \<Rightarrow> bool" where
  "wp m Q s \<longleftrightarrow> (\<exists>a s'. m s = Ok a s' \<and> Q a s')"

section \<open>Collections\<close>

named_theorems exec_simps \<open>equations that run a monadic program on a state\<close>
named_theorems wp_simps \<open>equations that take a weakest precondition apart\<close>
named_theorems unat_simps \<open>readings of machine words as natural numbers\<close>

lemmas monad_defs [exec_simps] =
  ret_def fail_def bindM_def seqM_def readM_def modifyM_def whenM_def

section \<open>Lemmas on the monad\<close>

lemma bindM_Ok [simp]: "m s = Ok a s' \<Longrightarrow> bindM m f s = f a s'"
  by (simp add: bindM_def)

lemma bindM_Err [simp]: "m s = Err e s' \<Longrightarrow> bindM m f s = Err e s'"
  by (simp add: bindM_def)

lemma seqM_Ok [simp]: "m s = Ok a s' \<Longrightarrow> seqM m n s = n s'"
  by (simp add: seqM_def)

lemma seqM_Err [simp]: "m s = Err e s' \<Longrightarrow> seqM m n s = Err e s'"
  by (simp add: seqM_def)

lemma bindM_assoc: "bindM (bindM m f) g = bindM m (\<lambda>a. bindM (f a) g)"
  by (rule ext) (simp add: bindM_def split: res.splits)

lemma bindM_OkE:
  assumes "bindM m f s = Ok b s''"
  obtains a s' where "m s = Ok a s'" and "f a s' = Ok b s''"
  using assms by (auto simp: bindM_def split: res.splits)

lemma forM_append:
  "forM (xs @ ys) f s = (case forM xs f s of Ok _ s' \<Rightarrow> forM ys f s' | Err e s' \<Rightarrow> Err e s')"
  by (induction xs arbitrary: s) (auto split: res.splits)

text \<open>An invariant of every iteration that returns is an invariant of the loop.\<close>

lemma forM_total:
  assumes step: "\<And>i s. i \<in> set is \<Longrightarrow> I s \<Longrightarrow> \<exists>s'. f i s = Ok () s' \<and> I s'"
    and "I s"
  shows "\<exists>s'. forM is f s = Ok () s' \<and> I s'"
  using assms
proof (induction "is" arbitrary: s)
  case Nil
  then show ?case by simp
next
  case (Cons i "is")
  then obtain s' where s': "f i s = Ok () s'" "I s'" by fastforce
  have "\<exists>s''. forM is f s' = Ok () s'' \<and> I s''"
    using Cons.IH [of s'] Cons.prems(1) s'(2) by simp
  with s' show ?case by simp
qed

text \<open>A loop whose iterations are state transformers is a fold of them.\<close>

lemma forM_fold:
  assumes "\<And>i s. i \<in> set is \<Longrightarrow> I s \<Longrightarrow> f i s = Ok () (g i s)"
    and "\<And>i s. i \<in> set is \<Longrightarrow> I s \<Longrightarrow> I (g i s)"
    and "I s"
  shows "forM is f s = Ok () (fold g is s)"
  using assms by (induction "is" arbitrary: s) auto

lemma wpI: "m s = Ok a s' \<Longrightarrow> Q a s' \<Longrightarrow> wp m Q s"
  by (simp add: wp_def)

lemma wpE:
  assumes "wp m Q s"
  obtains a s' where "m s = Ok a s'" and "Q a s'"
  using assms by (auto simp: wp_def)

lemma wp_mono: "wp m Q s \<Longrightarrow> (\<And>a s'. Q a s' \<Longrightarrow> Q' a s') \<Longrightarrow> wp m Q' s"
  by (auto simp: wp_def)

text \<open>The rules that take a program apart.\<close>

lemma wp_bindM [wp_simps]: "wp (bindM m f) Q = wp m (\<lambda>a. wp (f a) Q)"
  by (auto simp: wp_def bindM_def fun_eq_iff split: res.splits)

lemma wp_seqM [wp_simps]: "wp (seqM m n) Q = wp m (\<lambda>_. wp n Q)"
  by (simp add: seqM_def wp_bindM)

lemma wp_ret [wp_simps]: "wp (ret a) Q = Q a"
  by (simp add: wp_def ret_def fun_eq_iff)

lemma wp_readM [wp_simps]: "wp (readM f) Q = (\<lambda>s. Q (f s) s)"
  by (simp add: wp_def readM_def fun_eq_iff)

lemma wp_modifyM [wp_simps]: "wp (modifyM f) Q = (\<lambda>s. Q () (f s))"
  by (simp add: wp_def modifyM_def fun_eq_iff)

lemma wp_whenM [wp_simps]: "wp (whenM b m) Q = (if b then wp m Q else Q ())"
  by (simp add: wp_def whenM_def ret_def fun_eq_iff)

text \<open>A counting loop with an invariant indexed by the iterations done.\<close>

lemma wp_forM_upt:
  assumes "I 0 s" and "\<And>i s. i < n \<Longrightarrow> I i s \<Longrightarrow> wp (f i) (\<lambda>_. I (Suc i)) s" and "\<And>s. I n s \<Longrightarrow> Q () s"
  shows "wp (forM [0..<n] f) Q s"
proof -
  have "wp (forM [0..<k] f) (\<lambda>_. I k) s" if "k \<le> n" for k
    using that
  proof (induction k)
    case 0
    then show ?case using assms(1) by (simp add: wp_def)
  next
    case (Suc k)
    then obtain s' where s': "forM [0..<k] f s = Ok () s'" "I k s'" by (auto simp: wp_def)
    then obtain s'' where "f k s' = Ok () s''" "I (Suc k) s''"
      using assms(2) [of k s'] Suc.prems by (auto simp: wp_def)
    with s' show ?case by (simp add: wp_def forM_append)
  qed
  from this [of n] show ?thesis using assms(3) by (auto simp: wp_def)
qed

section \<open>Lemmas on lists\<close>

lemma distinct_concat_map:
  assumes "distinct is" and "\<And>i. i \<in> set is \<Longrightarrow> distinct (f i)"
    and "\<And>i j. i \<in> set is \<Longrightarrow> j \<in> set is \<Longrightarrow> i \<noteq> j \<Longrightarrow> set (f i) \<inter> set (f j) = {}"
  shows "distinct (concat (map f is))"
  using assms
proof (induction "is")
  case Nil
  then show ?case by simp
next
  case (Cons i "is")
  have "set (f i) \<inter> set (f j) = {}" if "j \<in> set is" for j
    using Cons.prems(1,3) that by (metis distinct.simps(2) list.set_intros(1,2))
  moreover have "distinct (concat (map f is))" using Cons by simp
  ultimately show ?case using Cons.prems(2) by auto
qed

section \<open>Lemmas on words\<close>

lemma unat_lt_2p64: "unat (x :: u64) < 18446744073709551616"
  by (rule order_less_le_trans [OF unsigned_less]) simp

lemma unat_add_u64 [unat_simps]:
  "unat a + unat b < 18446744073709551616 \<Longrightarrow> unat (a + b) = unat a + unat b" for a b :: u64
  by (simp add: unat_word_ariths)

lemma unat_add_u64_mod: "unat (a + b) = (unat a + unat b) mod 18446744073709551616" for a b :: u64
  by (simp add: unat_word_ariths)

lemma unat_mult_u64 [unat_simps]:
  "unat a * unat b < 18446744073709551616 \<Longrightarrow> unat (a * b) = unat a * unat b" for a b :: u64
  by (simp add: unat_word_ariths)

lemma unat_sub_u64 [unat_simps]: "b \<le> a \<Longrightarrow> unat (a - b) = unat a - unat b" for a b :: u64
  by (simp add: unat_sub)

lemma unat_of_nat_u64 [unat_simps]:
  "n < 18446744073709551616 \<Longrightarrow> unat (of_nat n :: u64) = n"
  by (simp add: unat_of_nat)

lemma unat_ucast_32_64 [unat_simps]: "unat (ucast i :: u64) = unat i" for i :: u32
proof -
  have "unat i < 4294967296" by (rule order_less_le_trans [OF unsigned_less]) simp
  then show ?thesis by (simp add: unsigned_ucast_eq take_bit_eq_mod)
qed

lemma word_mod_eq_0_iff: "a mod b = 0 \<longleftrightarrow> unat a mod unat b = 0" for a b :: u64
  by (metis unat_mod unat_eq_zero)

lemma mask12: "(4095 :: u64) = mask 12"
  by (simp add: mask_eq_exp_minus_1)

lemma mask10: "(0x3FF :: u64) = mask 10"
  by (simp add: mask_eq_exp_minus_1)

lemma mask9: "(0x1FF :: u64) = mask 9"
  by (simp add: mask_eq_exp_minus_1)

end
