(* ===== verification/Riscv.thy ===== *)
theory Riscv
  imports Prelude
begin

text \<open>
  \<open>include/riscv.h\<close>, \<open>include/types.h\<close>, \<open>include/param.h\<close> and \<open>include/memlayout.h\<close>:
  the control and status registers with their accessors, and the bit-level macros for
  pages, page-table entries and virtual page numbers.

  One record holds the registers of the hart. Following the privileged architecture,
  \<open>sstatus\<close> is a view of \<open>mstatus\<close> through a fixed mask and \<open>sie\<close>, \<open>sip\<close> are views of
  \<open>mie\<close>, \<open>mip\<close> through \<open>mideleg\<close>: a write through a view changes only the viewed bits.
  The lemmas state what the interrupt-enable operations do to \<open>sstatus.SIE\<close>, and the
  round trips and bounds of the page-table macros.
\<close>

section \<open>Control and status registers\<close>

record csrs =
  c_mhartid :: u64
  c_mstatus :: u64
  c_mepc :: u64
  c_mip :: u64
  c_mie :: u64
  c_medeleg :: u64
  c_mideleg :: u64
  c_menvcfg :: u64
  c_mcounteren :: u64
  c_pmpcfg0 :: u64
  c_pmpaddr0 :: u64
  c_sepc :: u64
  c_stvec :: u64
  c_scause :: u64
  c_stval :: u64
  c_stimecmp :: u64
  c_satp :: u64
  c_time :: u64
  c_tp :: u64

text \<open>The bits of \<open>mstatus\<close> that \<open>sstatus\<close> shows: SD, UXL, MXR, SUM, XS, FS, VS, SPP, UBE,
  SPIE and SIE.\<close>

definition SSTATUS_VIEW :: u64 where
  "SSTATUS_VIEW = 0x80000003000DE762"

definition MSTATUS_MPP_MASK :: u64 where "MSTATUS_MPP_MASK = push_bit 11 3"
definition MSTATUS_MPP_S :: u64 where "MSTATUS_MPP_S = push_bit 11 1"
definition SSTATUS_SPP :: u64 where "SSTATUS_SPP = push_bit 8 1"
definition SSTATUS_SIE :: u64 where "SSTATUS_SIE = push_bit 1 1"
definition SIE_STIE :: u64 where "SIE_STIE = push_bit 5 1"

definition r_mhartid :: "csrs \<Rightarrow> u64" where "r_mhartid c = c_mhartid c"
definition r_mstatus :: "csrs \<Rightarrow> u64" where "r_mstatus c = c_mstatus c"
definition w_mstatus :: "u64 \<Rightarrow> csrs \<Rightarrow> csrs" where "w_mstatus x c = c\<lparr>c_mstatus := x\<rparr>"
definition w_mepc :: "u64 \<Rightarrow> csrs \<Rightarrow> csrs" where "w_mepc x c = c\<lparr>c_mepc := x\<rparr>"

definition r_sstatus :: "csrs \<Rightarrow> u64" where
  "r_sstatus c = c_mstatus c AND SSTATUS_VIEW"

definition w_sstatus :: "u64 \<Rightarrow> csrs \<Rightarrow> csrs" where
  "w_sstatus x c =
     c\<lparr>c_mstatus := (c_mstatus c AND NOT SSTATUS_VIEW) OR (x AND SSTATUS_VIEW)\<rparr>"

definition r_sip :: "csrs \<Rightarrow> u64" where
  "r_sip c = c_mip c AND c_mideleg c"

definition w_sip :: "u64 \<Rightarrow> csrs \<Rightarrow> csrs" where
  "w_sip x c = c\<lparr>c_mip := (c_mip c AND NOT (c_mideleg c)) OR (x AND c_mideleg c)\<rparr>"

definition r_sie :: "csrs \<Rightarrow> u64" where
  "r_sie c = c_mie c AND c_mideleg c"

definition w_sie :: "u64 \<Rightarrow> csrs \<Rightarrow> csrs" where
  "w_sie x c = c\<lparr>c_mie := (c_mie c AND NOT (c_mideleg c)) OR (x AND c_mideleg c)\<rparr>"

definition r_mie :: "csrs \<Rightarrow> u64" where "r_mie c = c_mie c"
definition w_mie :: "u64 \<Rightarrow> csrs \<Rightarrow> csrs" where "w_mie x c = c\<lparr>c_mie := x\<rparr>"
definition w_sepc :: "u64 \<Rightarrow> csrs \<Rightarrow> csrs" where "w_sepc x c = c\<lparr>c_sepc := x\<rparr>"
definition r_sepc :: "csrs \<Rightarrow> u64" where "r_sepc c = c_sepc c"
definition r_medeleg :: "csrs \<Rightarrow> u64" where "r_medeleg c = c_medeleg c"
definition w_medeleg :: "u64 \<Rightarrow> csrs \<Rightarrow> csrs" where "w_medeleg x c = c\<lparr>c_medeleg := x\<rparr>"
definition r_mideleg :: "csrs \<Rightarrow> u64" where "r_mideleg c = c_mideleg c"
definition w_mideleg :: "u64 \<Rightarrow> csrs \<Rightarrow> csrs" where "w_mideleg x c = c\<lparr>c_mideleg := x\<rparr>"
definition w_stvec :: "u64 \<Rightarrow> csrs \<Rightarrow> csrs" where "w_stvec x c = c\<lparr>c_stvec := x\<rparr>"
definition r_stvec :: "csrs \<Rightarrow> u64" where "r_stvec c = c_stvec c"
definition r_stimecmp :: "csrs \<Rightarrow> u64" where "r_stimecmp c = c_stimecmp c"
definition w_stimecmp :: "u64 \<Rightarrow> csrs \<Rightarrow> csrs" where "w_stimecmp x c = c\<lparr>c_stimecmp := x\<rparr>"
definition r_menvcfg :: "csrs \<Rightarrow> u64" where "r_menvcfg c = c_menvcfg c"
definition w_menvcfg :: "u64 \<Rightarrow> csrs \<Rightarrow> csrs" where "w_menvcfg x c = c\<lparr>c_menvcfg := x\<rparr>"
definition w_pmpcfg0 :: "u64 \<Rightarrow> csrs \<Rightarrow> csrs" where "w_pmpcfg0 x c = c\<lparr>c_pmpcfg0 := x\<rparr>"
definition w_pmpaddr0 :: "u64 \<Rightarrow> csrs \<Rightarrow> csrs" where "w_pmpaddr0 x c = c\<lparr>c_pmpaddr0 := x\<rparr>"
definition w_satp :: "u64 \<Rightarrow> csrs \<Rightarrow> csrs" where "w_satp x c = c\<lparr>c_satp := x\<rparr>"
definition r_time :: "csrs \<Rightarrow> u64" where "r_time c = c_time c"
definition r_scause :: "csrs \<Rightarrow> u64" where "r_scause c = c_scause c"
definition r_stval :: "csrs \<Rightarrow> u64" where "r_stval c = c_stval c"
definition w_mcounteren :: "u64 \<Rightarrow> csrs \<Rightarrow> csrs" where "w_mcounteren x c = c\<lparr>c_mcounteren := x\<rparr>"
definition r_mcounteren :: "csrs \<Rightarrow> u64" where "r_mcounteren c = c_mcounteren c"
definition r_tp :: "csrs \<Rightarrow> u64" where "r_tp c = c_tp c"

definition intr_on :: "csrs \<Rightarrow> csrs" where
  "intr_on c = w_sstatus (r_sstatus c OR SSTATUS_SIE) c"

definition intr_off :: "csrs \<Rightarrow> csrs" where
  "intr_off c = w_sstatus (r_sstatus c AND NOT SSTATUS_SIE) c"

definition intr_get :: "csrs \<Rightarrow> bool" where
  "intr_get c \<longleftrightarrow> (r_sstatus c AND SSTATUS_SIE) \<noteq> 0"

section \<open>Pages, page-table entries and the memory layout\<close>

definition PGSIZE :: u64 where "PGSIZE = 4096"

definition PGROUNDUP :: "u64 \<Rightarrow> u64" where
  "PGROUNDUP sz = (sz + PGSIZE - 1) AND NOT (PGSIZE - 1)"

definition PGROUNDDOWN :: "u64 \<Rightarrow> u64" where
  "PGROUNDDOWN a = a AND NOT (PGSIZE - 1)"

definition VPN_SHIFT :: "nat \<Rightarrow> nat" where
  "VPN_SHIFT level = 12 + 9 * level"

definition VPN_MASK :: "u64 \<Rightarrow> nat \<Rightarrow> u64" where
  "VPN_MASK va level = drop_bit (VPN_SHIFT level) va AND 0x1FF"

definition PA2PTE :: "u64 \<Rightarrow> u64" where
  "PA2PTE pa = push_bit 10 (drop_bit 12 pa)"

definition PTE2PA :: "u64 \<Rightarrow> u64" where
  "PTE2PA pte = push_bit 12 (drop_bit 10 pte)"

definition PTE_FLAGS :: "u64 \<Rightarrow> u64" where
  "PTE_FLAGS pte = pte AND 0x3FF"

definition PTE_V :: u64 where "PTE_V = push_bit 0 1"
definition PTE_R :: u64 where "PTE_R = push_bit 1 1"
definition PTE_W :: u64 where "PTE_W = push_bit 2 1"
definition PTE_X :: u64 where "PTE_X = push_bit 3 1"
definition PTE_U :: u64 where "PTE_U = push_bit 4 1"

definition SATP_SV39 :: u64 where "SATP_SV39 = push_bit 60 8"

definition MAKE_SATP :: "u64 \<Rightarrow> u64" where
  "MAKE_SATP pagetable = SATP_SV39 OR drop_bit 12 pagetable"

definition MAXVA :: u64 where "MAXVA = push_bit (9 + 9 + 9 + 12 - 1) 1"

definition KERNBASE :: u64 where "KERNBASE = 0x80000000"
definition PHYSTOP :: u64 where "PHYSTOP = KERNBASE + 128 * 1024 * 1024"
definition UART0 :: u64 where "UART0 = 0x10000000"
definition UART0_IRQ :: u32 where "UART0_IRQ = 10"
definition VIRTIO0_IRQ :: u32 where "VIRTIO0_IRQ = 1"
definition PLIC :: u64 where "PLIC = 0x0c000000"
definition PLIC_SENABLE :: "u64 \<Rightarrow> u64" where "PLIC_SENABLE hart = PLIC + 0x2080 + hart * 0x100"
definition PLIC_SPRIORITY :: "u64 \<Rightarrow> u64" where "PLIC_SPRIORITY hart = PLIC + 0x201000 + hart * 0x2000"
definition PLIC_SCLAIM :: "u64 \<Rightarrow> u64" where "PLIC_SCLAIM hart = PLIC + 0x201004 + hart * 0x2000"
definition TRAMPOLINE :: u64 where "TRAMPOLINE = MAXVA - PGSIZE"
definition TRAPFRAME :: u64 where "TRAPFRAME = TRAMPOLINE - PGSIZE"

definition KSTACK :: "nat \<Rightarrow> u64" where
  "KSTACK p = TRAMPOLINE - (of_nat p + 1) * 2 * PGSIZE"

definition NPROC :: nat where "NPROC = 64"
definition NCPU :: nat where "NCPU = 1"
definition NOFILE :: nat where "NOFILE = 16"

lemmas layout_defs =
  PGSIZE_def MAXVA_def KERNBASE_def PHYSTOP_def TRAMPOLINE_def TRAPFRAME_def
  UART0_def PLIC_def PLIC_SENABLE_def PLIC_SPRIORITY_def PLIC_SCLAIM_def

lemmas pte_bits = PTE_V_def PTE_R_def PTE_W_def PTE_X_def PTE_U_def

section \<open>Interrupt enable\<close>

lemma SIE_eq: "SSTATUS_SIE = 2"
  by (simp add: SSTATUS_SIE_def)

lemma bit_SIE: "bit SSTATUS_SIE n \<longleftrightarrow> n = 1"
  by (auto simp: SSTATUS_SIE_def bit_simps)

lemma bit_VIEW_1: "bit SSTATUS_VIEW (Suc 0)"
  by (simp add: SSTATUS_VIEW_def)

lemma intr_get_bit: "intr_get c \<longleftrightarrow> bit (c_mstatus c) 1"
proof -
  have "r_sstatus c AND SSTATUS_SIE = (if bit (c_mstatus c) 1 then SSTATUS_SIE else 0)"
    by (rule bit_word_eqI) (auto simp: r_sstatus_def bit_simps bit_SIE bit_VIEW_1 split: if_splits)
  then show ?thesis by (simp add: intr_get_def SIE_eq)
qed

lemma intr_on_eq: "intr_on c = c\<lparr>c_mstatus := c_mstatus c OR SSTATUS_SIE\<rparr>"
proof -
  have "(c_mstatus c AND NOT SSTATUS_VIEW) OR ((c_mstatus c AND SSTATUS_VIEW OR SSTATUS_SIE) AND SSTATUS_VIEW)
      = c_mstatus c OR SSTATUS_SIE"
    by (rule bit_word_eqI) (auto simp: bit_simps bit_SIE bit_VIEW_1)
  then show ?thesis by (simp add: intr_on_def w_sstatus_def r_sstatus_def)
qed

lemma intr_off_eq: "intr_off c = c\<lparr>c_mstatus := c_mstatus c AND NOT SSTATUS_SIE\<rparr>"
proof -
  have "(c_mstatus c AND NOT SSTATUS_VIEW) OR (((c_mstatus c AND SSTATUS_VIEW) AND NOT SSTATUS_SIE) AND SSTATUS_VIEW)
      = c_mstatus c AND NOT SSTATUS_SIE"
    by (rule bit_word_eqI) (auto simp: bit_simps bit_SIE bit_VIEW_1)
  then show ?thesis by (simp add: intr_off_def w_sstatus_def r_sstatus_def)
qed

lemma intr_get_off [simp]: "\<not> intr_get (intr_off c)"
  by (simp add: intr_get_bit intr_off_eq bit_simps bit_SIE)

lemma intr_get_on [simp]: "intr_get (intr_on c)"
  by (simp add: intr_get_bit intr_on_eq bit_simps bit_SIE)

text \<open>Turning interrupts off and back on, or off when they were off, changes nothing.\<close>

lemma intr_off_id [simp]: "\<not> intr_get c \<Longrightarrow> intr_off c = c"
proof -
  assume "\<not> intr_get c"
  then have "c_mstatus c AND NOT SSTATUS_SIE = c_mstatus c"
    by (intro bit_word_eqI) (auto simp: intr_get_bit bit_simps bit_SIE)
  then show ?thesis by (simp add: intr_off_eq)
qed

lemma intr_on_off [simp]: "intr_get c \<Longrightarrow> intr_on (intr_off c) = c"
proof -
  assume "intr_get c"
  then have "(c_mstatus c AND NOT SSTATUS_SIE) OR SSTATUS_SIE = c_mstatus c"
    by (intro bit_word_eqI) (auto simp: intr_get_bit bit_simps bit_SIE)
  then show ?thesis by (simp add: intr_off_eq intr_on_eq)
qed

lemma r_tp_intr [simp]: "r_tp (intr_on c) = r_tp c" "r_tp (intr_off c) = r_tp c"
  by (simp_all add: r_tp_def intr_on_eq intr_off_eq)

text \<open>Writing back the value read through the view restores the register.\<close>

lemma w_r_sstatus [simp]: "w_sstatus (r_sstatus c) c = c"
proof -
  have "(c_mstatus c AND NOT SSTATUS_VIEW) OR (c_mstatus c AND SSTATUS_VIEW AND SSTATUS_VIEW) = c_mstatus c"
    by (rule bit_word_eqI) (auto simp: bit_simps)
  then show ?thesis by (simp add: w_sstatus_def r_sstatus_def)
qed

lemma intr_get_w_sstatus: "intr_get (w_sstatus x c) \<longleftrightarrow> bit x 1"
  by (auto simp: intr_get_bit w_sstatus_def bit_simps bit_VIEW_1)

section \<open>Page arithmetic\<close>

definition pg_aligned :: "u64 \<Rightarrow> bool" where
  "pg_aligned a \<longleftrightarrow> a mod PGSIZE = 0"

lemma PGROUNDDOWN_bits: "PGROUNDDOWN a = push_bit 12 (drop_bit 12 a)"
  unfolding PGROUNDDOWN_def PGSIZE_def
  by (rule bit_word_eqI) (auto simp: mask12 bit_simps)

lemma unat_push_12 [unat_simps]:
  "unat x < 4503599627370496 \<Longrightarrow> unat (push_bit 12 x) = unat x * 4096" for x :: u64
  by (simp add: push_bit_eq_mult unat_word_ariths)

lemma unat_drop_bit [unat_simps]: "unat (drop_bit n x) = unat x div 2 ^ n" for x :: u64
  by (simp only: unat_drop_bit_eq) (simp add: drop_bit_eq_div)

lemma unat_PGROUNDDOWN [unat_simps]: "unat (PGROUNDDOWN a) = unat a div 4096 * 4096"
proof -
  have "unat (drop_bit 12 a) < 4503599627370496"
    using unat_lt_2p64 [of a] by (simp add: unat_drop_bit less_mult_imp_div_less)
  then show ?thesis by (simp add: PGROUNDDOWN_bits unat_push_12) (simp add: unat_drop_bit)
qed

lemma pg_aligned_unat: "pg_aligned a \<longleftrightarrow> unat a mod 4096 = 0"
  by (simp add: pg_aligned_def PGSIZE_def word_mod_eq_0_iff)

lemma pg_aligned_iff: "pg_aligned a \<longleftrightarrow> PGROUNDDOWN a = a"
proof -
  have "PGROUNDDOWN a = a \<longleftrightarrow> unat a div 4096 * 4096 = unat a"
    by (simp add: word_unat_eq_iff unat_PGROUNDDOWN)
  moreover have "unat a div 4096 * 4096 = unat a \<longleftrightarrow> unat a mod 4096 = 0"
    using div_mult_mod_eq [of "unat a" 4096] by linarith
  ultimately show ?thesis by (simp add: pg_aligned_unat)
qed

lemma pg_aligned_PGROUNDDOWN [simp]: "pg_aligned (PGROUNDDOWN a)"
  by (simp add: pg_aligned_unat unat_PGROUNDDOWN)

lemma PGROUNDDOWN_idem [simp]: "PGROUNDDOWN (PGROUNDDOWN a) = PGROUNDDOWN a"
  using pg_aligned_iff pg_aligned_PGROUNDDOWN by blast

lemma pg_aligned_bound: "pg_aligned p \<Longrightarrow> unat p \<le> 18446744073709547520"
  using unat_lt_2p64 [of p] by (auto simp: pg_aligned_unat elim!: dvdE)

lemma unat_page_offset:
  "pg_aligned p \<Longrightarrow> unat off < 4096 \<Longrightarrow> unat (p + off) = unat p + unat off"
  using pg_aligned_bound [of p] by (simp add: unat_add_u64)

text \<open>An offset inside a page stays inside it.\<close>

lemma PGROUNDDOWN_page:
  assumes "pg_aligned p" and "unat off < 4096"
  shows "PGROUNDDOWN (p + off) = p"
proof -
  obtain k where "unat p = 4096 * k" using assms(1) by (auto simp: pg_aligned_unat)
  then have "unat (PGROUNDDOWN (p + off)) = unat p"
    using assms by (simp add: unat_PGROUNDDOWN unat_page_offset)
  then show ?thesis by (simp add: word_unat_eq_iff)
qed

lemma unat_PGROUNDUP [unat_simps]:
  assumes "unat a + 4095 < 18446744073709551616"
  shows "unat (PGROUNDUP a) = (unat a + 4095) div 4096 * 4096"
proof -
  have "PGROUNDUP a = PGROUNDDOWN (a + 4095)"
    by (simp add: PGROUNDUP_def PGROUNDDOWN_def PGSIZE_def add_diff_eq [symmetric])
  with assms show ?thesis by (simp add: unat_PGROUNDDOWN unat_add_u64)
qed

lemma pg_aligned_PGROUNDUP [simp]: "pg_aligned (PGROUNDUP a)"
proof -
  have "PGROUNDUP a = PGROUNDDOWN (a + 4095)"
    by (simp add: PGROUNDUP_def PGROUNDDOWN_def PGSIZE_def add_diff_eq [symmetric])
  then show ?thesis by simp
qed

section \<open>Page-table entries\<close>

lemma bit_flags_small: "f < 1024 \<Longrightarrow> bit f n \<Longrightarrow> n < 10" for f :: u64
proof (rule ccontr)
  assume f: "f < 1024" "bit f n" and "\<not> n < 10"
  then have "(2::nat) ^ 10 \<le> 2 ^ n" by (intro power_increasing) auto
  moreover have "unat f < 2 ^ 10" using f(1) by (simp add: word_less_nat_alt)
  ultimately have "unat f div 2 ^ n = 0" by simp
  moreover have "bit (unat f) n" using f(2) by (simp add: bit_unsigned_iff)
  ultimately show False by (simp add: bit_iff_odd)
qed

lemma PTE2PA_flags: "f < 1024 \<Longrightarrow> PTE2PA (PA2PTE pa OR f) = PGROUNDDOWN pa"
  unfolding PTE2PA_def PA2PTE_def PGROUNDDOWN_bits
  by (rule bit_word_eqI) (auto simp: bit_simps dest: bit_flags_small)

lemma PTE_FLAGS_flags: "f < 1024 \<Longrightarrow> PTE_FLAGS (PA2PTE pa OR f) = f"
  unfolding PTE_FLAGS_def PA2PTE_def
  by (rule bit_word_eqI) (auto simp: mask10 bit_simps dest: bit_flags_small)

lemma pg_aligned_PTE2PA [simp]: "pg_aligned (PTE2PA e)"
proof -
  have "PGROUNDDOWN (PTE2PA e) = PTE2PA e"
    unfolding PTE2PA_def PGROUNDDOWN_bits by (rule bit_word_eqI) (auto simp: bit_simps)
  then show ?thesis by (simp add: pg_aligned_iff)
qed

section \<open>Virtual page numbers\<close>

lemma VPN_MASK_less: "unat (VPN_MASK va l) < 512"
proof -
  have "unat (drop_bit (VPN_SHIFT l) va AND mask 9) < 2 ^ 9"
    by (simp only: take_bit_eq_mask [symmetric] unsigned_take_bit_eq) (rule take_bit_nat_less_exp)
  then show ?thesis by (simp add: VPN_MASK_def mask9)
qed

lemma bit_VPN_MASK: "bit (VPN_MASK va l) n \<longleftrightarrow> n < 9 \<and> bit va (12 + 9 * l + n)"
  by (auto simp: VPN_MASK_def VPN_SHIFT_def mask9 bit_simps add_ac dest: bit_imp_le_length)

text \<open>Three indices and the page offset determine a 39-bit address.\<close>

lemma VPN_eq_page:
  assumes "\<And>l. l \<le> 2 \<Longrightarrow> VPN_MASK va l = VPN_MASK va' l"
    and "va < 0x8000000000" and "va' < 0x8000000000"
  shows "PGROUNDDOWN va = PGROUNDDOWN va'"
proof (rule bit_word_eqI)
  fix n assume n: "n < LENGTH(64)"
  have hi: "\<not> bit x n" if "39 \<le> n" "x < 0x8000000000" for x :: u64
  proof
    assume "bit x n"
    then have "bit (unat x) n" by (simp add: bit_unsigned_iff)
    moreover have "unat x < 2 ^ 39" using that(2) by (simp add: word_less_nat_alt)
    moreover have "(2::nat) ^ 39 \<le> 2 ^ n" using that(1) by (intro power_increasing) auto
    ultimately show False by (simp add: bit_iff_odd)
  qed
  show "bit (PGROUNDDOWN va) n = bit (PGROUNDDOWN va') n"
  proof (cases "12 \<le> n \<and> n < 39")
    case True
    define l k where "l = (n - 12) div 9" and "k = (n - 12) mod 9"
    have "l \<le> 2" "k < 9" "n = 12 + 9 * l + k"
      using True by (auto simp: l_def k_def)
    then have "bit va n = bit va' n"
      using assms(1) [of l] bit_VPN_MASK [of va l k] bit_VPN_MASK [of va' l k] by simp
    then show ?thesis using True by (simp add: PGROUNDDOWN_bits bit_simps)
  next
    case False
    then show ?thesis
      using hi [OF _ assms(2)] hi [OF _ assms(3)] by (auto simp: PGROUNDDOWN_bits bit_simps)
  qed
qed

section \<open>Kernel stacks\<close>

lemma unat_KSTACK:
  assumes "p < NPROC"
  shows "unat (KSTACK p) = 274877902848 - (p + 1) * 8192"
proof -
  have "unat ((of_nat p + 1) * 2 * 4096 :: u64) = (p + 1) * 8192"
    using assms by (simp add: NPROC_def unat_word_ariths unat_of_nat)
  moreover from this have "(of_nat p + 1) * 2 * 4096 \<le> (274877902848 :: u64)"
    using assms by (simp add: NPROC_def word_le_nat_alt)
  moreover have "TRAMPOLINE = 274877902848" and "unat TRAMPOLINE = 274877902848"
    by (simp_all add: TRAMPOLINE_def MAXVA_def PGSIZE_def)
  ultimately show ?thesis
    by (simp only: KSTACK_def PGSIZE_def unat_sub)
qed

section \<open>Properties\<close>

text \<open>C40. The kernel stacks lie below the trampoline and above physical memory, on whole pages, and
  between any two of them, and above each, there is a page that belongs to none.\<close>

theorem kstack_layout:
  assumes "i < NPROC"
  shows "pg_aligned (KSTACK i) \<and> unat PHYSTOP < unat (KSTACK i) \<and> unat (KSTACK i) + 2 * 4096 \<le> unat TRAMPOLINE
     \<and> (\<forall>j < NPROC. j \<noteq> i \<longrightarrow> unat (KSTACK i) + 2 * 4096 \<le> unat (KSTACK j) \<or> unat (KSTACK j) + 2 * 4096 \<le> unat (KSTACK i))"
proof -
  have l: "unat PHYSTOP = 2281701376" "unat TRAMPOLINE = 274877902848"
    by (simp_all add: PHYSTOP_def KERNBASE_def TRAMPOLINE_def MAXVA_def PGSIZE_def)
  have k: "unat (KSTACK j) + (j + 1) * 8192 = 274877902848" if "j < NPROC" for j
    using that unat_KSTACK [OF that] by (simp add: NPROC_def)
  have "unat (KSTACK i) mod 4096 = (unat (KSTACK i) + (i + 1) * 8192) mod 4096"
    using mod_mult_self2 [of "unat (KSTACK i)" 4096 "(i + 1) * 2"] by (simp add: algebra_simps)
  then have "unat (KSTACK i) mod 4096 = 274877902848 mod 4096" by (simp only: k [OF assms])
  then have "pg_aligned (KSTACK i)" by (simp add: pg_aligned_unat)
  moreover have "unat (KSTACK i) + 2 * 4096 \<le> unat (KSTACK j) \<or> unat (KSTACK j) + 2 * 4096 \<le> unat (KSTACK i)" if "j < NPROC" "j \<noteq> i" for j
    using k [OF assms] k [OF that(1)] that(2) by (cases "j < i") auto
  moreover have "i < 64" using assms by (simp add: NPROC_def)
  ultimately show ?thesis using l k [OF assms] by auto
qed

theorem kstack_layout_witness: "pg_aligned (KSTACK 63) \<and> unat (KSTACK 63) + 2 * 4096 \<le> unat (KSTACK 62)"
proof -
  have lt: "(63 :: nat) < NPROC" "(62 :: nat) < NPROC" by (simp_all add: NPROC_def)
  have "unat (KSTACK 63) = 274877378560" "unat (KSTACK 62) = 274877386752" using unat_KSTACK [OF lt(1)] unat_KSTACK [OF lt(2)] by simp_all
  then show ?thesis using kstack_layout [OF lt(1)] lt(2) by simp
qed

end
