(* ===== verification/Memory.thy ===== *)
theory Memory
  imports Riscv
begin

text \<open>
  Physical memory as the kernel's C code sees it: a byte for every 64-bit address. The
  64-bit loads and stores are little-endian, as on RISC-V, and \<open>memset\<close> of
  \<open>kernel/boot/start.c\<close> is its byte loop. The lemmas give the closed form of \<open>memset\<close>
  and the frame laws of loads against stores, phrased by the page an access falls in:
  a page is a 4096-byte block, seen either as bytes or as 512 words (\<open>slot\<close>).
\<close>

section \<open>Definitions\<close>

type_synonym memory = "u64 \<Rightarrow> u8"

definition load64 :: "memory \<Rightarrow> u64 \<Rightarrow> u64" where
  "load64 m a =
     ucast (m a) OR push_bit 8 (ucast (m (a + 1))) OR push_bit 16 (ucast (m (a + 2)))
     OR push_bit 24 (ucast (m (a + 3))) OR push_bit 32 (ucast (m (a + 4)))
     OR push_bit 40 (ucast (m (a + 5))) OR push_bit 48 (ucast (m (a + 6)))
     OR push_bit 56 (ucast (m (a + 7)))"

definition store64 :: "memory \<Rightarrow> u64 \<Rightarrow> u64 \<Rightarrow> memory" where
  "store64 m a v = m
     (a := ucast v, a + 1 := ucast (drop_bit 8 v), a + 2 := ucast (drop_bit 16 v),
      a + 3 := ucast (drop_bit 24 v), a + 4 := ucast (drop_bit 32 v),
      a + 5 := ucast (drop_bit 40 v), a + 6 := ucast (drop_bit 48 v),
      a + 7 := ucast (drop_bit 56 v))"

text \<open>\<open>memset(dst, c, n)\<close>: \<open>for (i = 0; i < n; i++) cdst[i] = c;\<close> with \<open>i\<close> and \<open>n\<close> unsigned.
  The recursion is over the iterations left; \<open>i\<close> is the loop variable.\<close>

fun memset_loop :: "nat \<Rightarrow> u32 \<Rightarrow> u64 \<Rightarrow> u8 \<Rightarrow> memory \<Rightarrow> memory" where
  "memset_loop 0 i dst c m = m"
| "memset_loop (Suc k) i dst c m = memset_loop k (i + 1) dst c (m(dst + ucast i := c))"

definition memset :: "u64 \<Rightarrow> u32 \<Rightarrow> u32 \<Rightarrow> memory \<Rightarrow> memory" where
  "memset dst c n m = memset_loop (unat n) 0 dst (ucast c) m"

text \<open>The page an address lies in, and two memories that agree on a page.\<close>

definition same_page :: "memory \<Rightarrow> memory \<Rightarrow> u64 \<Rightarrow> bool" where
  "same_page m m' p \<longleftrightarrow> (\<forall>x. PGROUNDDOWN x = p \<longrightarrow> m x = m' x)"

text \<open>The address of entry \<open>i\<close> of a page seen as an array of 512 words.\<close>

definition slot :: "u64 \<Rightarrow> u64 \<Rightarrow> u64" where
  "slot p i = p + 8 * i"

section \<open>Loads and stores\<close>

lemma bit_byte_slice:
  "bit (push_bit k (ucast (ucast (drop_bit k v) :: u8)) :: u64) n
     \<longleftrightarrow> k \<le> n \<and> n < k + 8 \<and> n < 64 \<and> bit v n" for v :: u64
  by (auto simp: bit_simps dest: bit_imp_le_length)

lemma bytes_join:
  fixes v :: u64
  shows "ucast (ucast v :: u8) OR push_bit 8 (ucast (ucast (drop_bit 8 v) :: u8))
     OR push_bit 16 (ucast (ucast (drop_bit 16 v) :: u8))
     OR push_bit 24 (ucast (ucast (drop_bit 24 v) :: u8))
     OR push_bit 32 (ucast (ucast (drop_bit 32 v) :: u8))
     OR push_bit 40 (ucast (ucast (drop_bit 40 v) :: u8))
     OR push_bit 48 (ucast (ucast (drop_bit 48 v) :: u8))
     OR push_bit 56 (ucast (ucast (drop_bit 56 v) :: u8)) = v" (is "?w = v")
proof (rule bit_word_eqI)
  fix n
  assume "n < LENGTH(64)"
  then have n: "n < 64" by simp
  have "n < 8 \<or> 8 \<le> n \<and> n < 16 \<or> 16 \<le> n \<and> n < 24 \<or> 24 \<le> n \<and> n < 32 \<or> 32 \<le> n \<and> n < 40
    \<or> 40 \<le> n \<and> n < 48 \<or> 48 \<le> n \<and> n < 56 \<or> 56 \<le> n"
    by linarith
  with n show "bit ?w n = bit v n"
    unfolding bit_or_iff bit_byte_slice bit_byte_slice [of 0, simplified]
    by (cases "bit v n") simp_all
qed

lemma load64_store64 [simp]: "load64 (store64 m a v) a = v"
  by (simp add: load64_def store64_def bytes_join)

lemma load64_cong:
  assumes "\<And>k. k < 8 \<Longrightarrow> m (a + of_nat k) = m' (a + of_nat k)"
  shows "load64 m a = load64 m' a"
  using assms [of 0] assms [of 1] assms [of 2] assms [of 3]
    assms [of 4] assms [of 5] assms [of 6] assms [of 7]
  by (simp add: load64_def)

lemma store64_apply:
  "store64 m a v x =
     (if unat (x - a) < 8 then ucast (drop_bit (8 * unat (x - a)) v) else m x)"
proof -
  have *: "x = a + of_nat k \<longleftrightarrow> unat (x - a) = k" if "k < 8" for k
  proof -
    have "unat (of_nat k :: u64) = k" using that by (simp add: unat_of_nat)
    then show ?thesis by (metis add_diff_cancel_left' diff_add_cancel add.commute word_unat_eq_iff)
  qed
  show ?thesis
    using * [of 0] * [of 1] * [of 2] * [of 3] * [of 4] * [of 5] * [of 6] * [of 7]
    by (auto simp: store64_def less_Suc_eq numeral_eq_Suc)
qed

section \<open>The closed form of memset\<close>

lemma memset_loop_apply:
  "unat i + k \<le> 4294967296 \<Longrightarrow>
   memset_loop k i dst c m x = (if unat (x - (dst + ucast i)) < k then c else m x)"
proof (induction k arbitrary: i m)
  case 0
  then show ?case by simp
next
  case (Suc k)
  show ?case
  proof (cases k)
    case 0
    have "unat (x - (dst + ucast i)) < 1 \<longleftrightarrow> x = dst + ucast i"
      by (simp add: unat_eq_zero)
    with 0 show ?thesis by simp
  next
    case (Suc k')
    with Suc.prems have i: "unat i + 1 < 4294967296" by simp
    then have i1: "unat (i + 1) = unat i + 1" by (simp add: unat_word_ariths)
    then have "ucast (i + 1) = (ucast i + 1 :: u64)"
      using i by (simp add: word_unat_eq_iff unat_ucast_32_64 unat_word_ariths)
    then have IH: "memset_loop k (i + 1) dst c (m(dst + ucast i := c)) x =
        (if unat (x - (dst + ucast i) - 1) < k then c else (m(dst + ucast i := c)) x)"
      using Suc.IH [of "i + 1"] Suc.prems i1 by (simp add: diff_diff_eq add.assoc)
    show ?thesis
    proof (cases "x = dst + ucast i")
      case True
      then show ?thesis using IH by simp
    next
      case False
      then have "x - (dst + ucast i) \<noteq> 0" by simp
      then have "unat (x - (dst + ucast i) - 1) = unat (x - (dst + ucast i)) - 1"
        and "0 < unat (x - (dst + ucast i))"
        by (simp_all add: unat_minus_one unat_gt_0)
      then show ?thesis using IH False by auto
    qed
  qed
qed

lemma memset_apply: "memset dst c n m x = (if unat (x - dst) < unat n then ucast c else m x)"
proof -
  have "unat n < 4294967296" by (rule order_less_le_trans [OF unsigned_less]) simp
  then show ?thesis by (simp add: memset_def memset_loop_apply)
qed

section \<open>Pages\<close>

lemma in_page_iff:
  assumes "pg_aligned p"
  shows "unat (x - p) < 4096 \<longleftrightarrow> PGROUNDDOWN x = p"
proof
  assume "unat (x - p) < 4096"
  then have "PGROUNDDOWN (p + (x - p)) = p" by (rule PGROUNDDOWN_page [OF assms])
  then show "PGROUNDDOWN x = p" by simp
next
  assume p: "PGROUNDDOWN x = p"
  then have "unat p = unat x div 4096 * 4096" by (metis unat_PGROUNDDOWN)
  moreover from this have "p \<le> x" by (simp add: word_le_nat_alt)
  ultimately have "unat (x - p) = unat x mod 4096"
    by (simp add: unat_sub modulo_nat_def)
  then show "unat (x - p) < 4096" by simp
qed

lemma memset_page:
  "pg_aligned p \<Longrightarrow> memset p c 4096 m x = (if PGROUNDDOWN x = p then ucast c else m x)"
  by (simp add: memset_apply in_page_iff)

lemma slot_byte:
  assumes "pg_aligned p" and "unat i < 512" and "k < 8"
  shows "PGROUNDDOWN (slot p i + of_nat k) = p"
proof -
  have "unat (8 * i + of_nat k) = 8 * unat i + k"
    using assms(2,3) by (simp add: unat_add_u64 unat_mult_u64 unat_of_nat_u64)
  with assms show ?thesis
    by (simp add: slot_def add.assoc PGROUNDDOWN_page)
qed

lemma slot_page: "pg_aligned p \<Longrightarrow> unat i < 512 \<Longrightarrow> PGROUNDDOWN (slot p i) = p"
  using slot_byte [of p i 0] by simp

lemma slot_0: "slot p 0 = p"
  by (simp add: slot_def)

lemma load64_same_page:
  assumes "same_page m m' p" and "pg_aligned p" and "unat i < 512"
  shows "load64 m (slot p i) = load64 m' (slot p i)"
  by (rule load64_cong) (use assms slot_byte in \<open>auto simp: same_page_def\<close>)

lemma same_page_refl [simp]: "same_page m m p"
  by (simp add: same_page_def)

lemma same_page_sym: "same_page m m' p \<Longrightarrow> same_page m' m p"
  by (simp add: same_page_def)

lemma same_page_trans: "same_page m m' p \<Longrightarrow> same_page m' m'' p \<Longrightarrow> same_page m m'' p"
  by (simp add: same_page_def)

lemma same_page_memset: "pg_aligned q \<Longrightarrow> p \<noteq> q \<Longrightarrow> same_page (memset q c 4096 m) m p"
  by (simp add: same_page_def memset_page)

lemma same_page_store:
  assumes "pg_aligned q" and "unat i < 512" and "p \<noteq> q"
  shows "same_page (store64 m (slot q i) v) m p"
proof -
  have "store64 m (slot q i) v x = m x" if "PGROUNDDOWN x = p" for x
  proof (rule ccontr)
    assume "store64 m (slot q i) v x \<noteq> m x"
    then have "unat (x - slot q i) < 8" by (simp add: store64_apply split: if_splits)
    then have "PGROUNDDOWN (slot q i + of_nat (unat (x - slot q i))) = q"
      by (rule slot_byte [OF assms(1,2)])
    with that assms(3) show False by simp
  qed
  then show ?thesis by (simp add: same_page_def)
qed

lemma same_page_store_0: "pg_aligned q \<Longrightarrow> p \<noteq> q \<Longrightarrow> same_page (store64 m q v) m p"
  using same_page_store [of q 0 p m v] by (simp add: slot_0)

lemma load64_store64_other:
  assumes "pg_aligned p" and "unat i < 512" and "unat j < 512" and "i \<noteq> j"
  shows "load64 (store64 m (slot p i) v) (slot p j) = load64 m (slot p j)"
proof (rule load64_cong)
  fix k :: nat
  assume k: "k < 8"
  have eq: "unat (slot p j + of_nat k) = unat p + 8 * unat j + k"
  proof -
    have "unat (8 * j + of_nat k) = 8 * unat j + k"
      using assms k by (simp add: unat_add_u64 unat_mult_u64 unat_of_nat_u64)
    then show ?thesis
      using assms k unat_page_offset [of p "8 * j + of_nat k"] by (simp add: slot_def add.assoc)
  qed
  define d where "d = unat (slot p j + of_nat k - slot p i)"
  then have sum: "slot p i + of_nat d = slot p j + of_nat k" by simp
  have "\<not> d < 8"
  proof
    assume l: "d < 8"
    then have "unat (8 * i + of_nat d) = 8 * unat i + d"
      using assms by (simp add: unat_add_u64 unat_mult_u64 unat_of_nat_u64)
    then have "unat (slot p i + of_nat d) = unat p + 8 * unat i + d"
      using assms l unat_page_offset [of p "8 * i + of_nat d"] by (simp add: slot_def add.assoc)
    then have "8 * unat i + d = 8 * unat j + k" using eq sum by simp
    with l k have "unat i = unat j" by linarith
    with assms(4) show False by (simp add: word_unat_eq_iff)
  qed
  then show "store64 m (slot p i) v (slot p j + of_nat k) = m (slot p j + of_nat k)"
    by (simp add: store64_apply d_def)
qed

lemma load64_memset_0:
  assumes "pg_aligned p" and "unat i < 512"
  shows "load64 (memset p 0 4096 m) (slot p i) = 0"
proof -
  have "load64 (memset p 0 4096 m) (slot p i) = load64 (\<lambda>_. 0) (slot p i)"
    by (rule load64_cong) (use assms slot_byte in \<open>simp add: memset_page\<close>)
  then show ?thesis by (simp add: load64_def)
qed

end
