(* ===== verification/Machine.thy ===== *)
theory Machine
  imports Memory
begin

text \<open>
  The kernel's data: \<open>include/proc.h\<close>, \<open>include/spinlock.h\<close>, the two memory-mapped devices
  and the global variables of every C file, gathered in the record \<open>kstate\<close>.

  Pointers into static tables are modelled by what they name: a \<^verbatim>\<open>struct proc *\<close> is the
  index of its slot (\<open>None\<close> for a null pointer), a \<^verbatim>\<open>struct cpu *\<close> an index into \<open>cpus\<close>,
  a \<^verbatim>\<open>struct spinlock *\<close> a \<open>lockid\<close>, and a wait channel one of the addresses the code sleeps
  on. Pointers to pages are 64-bit addresses into the byte memory. The locks live in a
  store indexed by \<open>lockid\<close> rather than inside the structures that embed them.

  The addresses the linker assigns (\<open>end\<close>, \<open>etext\<close>, the entry points of functions) are
  parameters: the record \<open>linkmap\<close>, which no operation writes. The timing of the UART
  transmitter is a parameter too (\<open>tx_delay\<close>: how many polls of the line status register
  report a busy transmitter after the n-th byte).
\<close>

section \<open>Definitions\<close>

type_synonym i32 = "32 word"

record kcontext =
  ctx_ra :: u64
  ctx_sp :: u64
  ctx_s0 :: u64
  ctx_s1 :: u64
  ctx_s2 :: u64
  ctx_s3 :: u64
  ctx_s4 :: u64
  ctx_s5 :: u64
  ctx_s6 :: u64
  ctx_s7 :: u64
  ctx_s8 :: u64
  ctx_s9 :: u64
  ctx_s10 :: u64
  ctx_s11 :: u64

record cpu =
  cpu_proc :: "nat option"
  cpu_context :: kcontext
  cpu_noff :: int
  cpu_intena :: bool

datatype procstate = UNUSED | USED | SLEEPING | RUNNABLE | RUNNING | ZOMBIE

datatype chan = NoChan | ChanProc nat | ChanTicks

record proc =
  p_state :: procstate
  p_chan :: chan
  p_killed :: i32
  p_xstate :: i32
  p_pid :: i32
  p_parent :: "nat option"
  p_kstack :: u64
  p_sz :: u64
  p_pagetable :: u64
  p_trapframe :: u64
  p_context :: kcontext
  p_ofile :: "u64 list"
  p_cwd :: u64
  p_name :: "u8 list"

datatype lockid = ProcLock nat | WaitLock | PidLock | KmemLock | TicksLock | PrintLock

record spinlock =
  lk_locked :: u32
  lk_name :: "string option"
  lk_cpu :: "int option"

text \<open>The 16550 UART: receive FIFO, bytes sent, polls until the transmitter is idle again, and
  the last value written to each control register (\<open>LCR\<close> bit 7 redirects registers 0 and 1
  to the divisor latch).\<close>

record uart_dev =
  tx_delay :: "nat \<Rightarrow> nat"
  tx_busy :: nat
  tx_sent :: "u8 list"
  rx_fifo :: "u8 list"
  uart_ier :: u8
  uart_fcr :: u8
  uart_lcr :: u8
  uart_dll :: u8
  uart_dlm :: u8

text \<open>The PLIC: its 32-bit registers by address, the interrupts waiting to be claimed and the
  completions it has been told of.\<close>

record plic_dev =
  plic_regs :: "u64 \<Rightarrow> u32"
  plic_pending :: "u32 list"
  plic_completed :: "u32 list"

record linkmap =
  l_end :: u64
  l_etext :: u64
  l_trampoline :: u64
  l_kernelvec :: u64
  l_main :: u64
  l_forkret :: u64
  l_init_task :: u64
  l_simple_task :: u64

record kstate =
  k_link :: linkmap
  k_csr :: csrs
  k_mem :: memory
  k_uart :: uart_dev
  k_plic :: plic_dev
  k_locks :: "lockid \<Rightarrow> spinlock"
  k_cpus :: "cpu list"
  k_freelist :: u64
  k_pagetable :: u64
  k_procs :: "proc list"
  k_initproc :: "nat option"
  k_nextpid :: i32
  k_first :: bool
  k_ticks :: u32
  k_testdata :: u32

text \<open>Reading and writing one slot of the process table; a slot outside it is a wild pointer.\<close>

definition proc_read :: "nat \<Rightarrow> (proc \<Rightarrow> 'a) \<Rightarrow> kstate \<Rightarrow> (kstate, 'a) res" where
  "proc_read i f s = (if i < length (k_procs s) then Ok (f (k_procs s ! i)) s else Err Fault s)"

definition proc_write :: "nat \<Rightarrow> (proc \<Rightarrow> proc) \<Rightarrow> kstate \<Rightarrow> (kstate, unit) res" where
  "proc_write i f s =
     (if i < length (k_procs s) then Ok () (s\<lparr>k_procs := (k_procs s)[i := f (k_procs s ! i)]\<rparr>)
      else Err Fault s)"

definition csr_read :: "(csrs \<Rightarrow> 'a) \<Rightarrow> kstate \<Rightarrow> (kstate, 'a) res" where
  "csr_read f = readM (\<lambda>s. f (k_csr s))"

definition csr_write :: "(csrs \<Rightarrow> csrs) \<Rightarrow> kstate \<Rightarrow> (kstate, unit) res" where
  "csr_write f = modifyM (\<lambda>s. s\<lparr>k_csr := f (k_csr s)\<rparr>)"

text \<open>Static data as the loader leaves it: zeroed locks, cpus and process table.\<close>

definition zero_context :: kcontext where
  "zero_context = \<lparr>ctx_ra = 0, ctx_sp = 0, ctx_s0 = 0, ctx_s1 = 0, ctx_s2 = 0, ctx_s3 = 0, ctx_s4 = 0,
     ctx_s5 = 0, ctx_s6 = 0, ctx_s7 = 0, ctx_s8 = 0, ctx_s9 = 0, ctx_s10 = 0, ctx_s11 = 0\<rparr>"

definition zero_cpu :: cpu where
  "zero_cpu = \<lparr>cpu_proc = None, cpu_context = zero_context, cpu_noff = 0, cpu_intena = False\<rparr>"

definition zero_proc :: proc where
  "zero_proc = \<lparr>p_state = UNUSED, p_chan = NoChan, p_killed = 0, p_xstate = 0, p_pid = 0,
     p_parent = None, p_kstack = 0, p_sz = 0, p_pagetable = 0, p_trapframe = 0,
     p_context = zero_context, p_ofile = replicate NOFILE 0, p_cwd = 0, p_name = replicate 16 0\<rparr>"

definition zero_lock :: spinlock where
  "zero_lock = \<lparr>lk_locked = 0, lk_name = None, lk_cpu = None\<rparr>"

definition zero_csrs :: csrs where
  "zero_csrs = \<lparr>c_mhartid = 0, c_mstatus = 0, c_mepc = 0, c_mip = 0, c_mie = 0, c_medeleg = 0,
     c_mideleg = 0, c_menvcfg = 0, c_mcounteren = 0, c_pmpcfg0 = 0, c_pmpaddr0 = 0, c_sepc = 0,
     c_stvec = 0, c_scause = 0, c_stval = 0, c_stimecmp = 0, c_satp = 0, c_time = 0, c_tp = 0\<rparr>"

definition zero_uart :: uart_dev where
  "zero_uart = \<lparr>tx_delay = (\<lambda>_. 0), tx_busy = 0, tx_sent = [], rx_fifo = [], uart_ier = 0,
     uart_fcr = 0, uart_lcr = 0, uart_dll = 0, uart_dlm = 0\<rparr>"

definition zero_plic :: plic_dev where
  "zero_plic = \<lparr>plic_regs = (\<lambda>_. 0), plic_pending = [], plic_completed = []\<rparr>"

definition boot_state :: "linkmap \<Rightarrow> kstate" where
  "boot_state lm = \<lparr>k_link = lm, k_csr = zero_csrs, k_mem = (\<lambda>_. 0), k_uart = zero_uart,
     k_plic = zero_plic, k_locks = (\<lambda>_. zero_lock), k_cpus = replicate NCPU zero_cpu,
     k_freelist = 0, k_pagetable = 0, k_procs = replicate NPROC zero_proc, k_initproc = None,
     k_nextpid = 1, k_first = True, k_ticks = 0, k_testdata = 0xDEADBEEF\<rparr>"

lemmas access_defs [exec_simps] = proc_read_def proc_write_def csr_read_def csr_write_def

end
