(* ===== verification/Spinlock.thy ===== *)
theory Spinlock
  imports Machine
begin

text \<open>
  \<open>kernel/spinlock.c\<close> with \<open>cpuid\<close>, \<open>mycpu\<close> and \<open>myproc\<close> of \<open>kernel/proc.c\<close>: spin locks and
  the nesting of interrupt disabling.

  There is one hart, and a lock is held with interrupts off, so a test-and-set loop that
  finds the lock taken can never be released by anybody else: it is the outcome \<open>Spin\<close>.

  The lemmas give each operation's effect as a state transformer (\<open>acq\<close>, \<open>rel\<close>) and show
  that a critical section gives back the interrupt state it found: \<open>rel lk (acq lk s)\<close> is
  \<open>s\<close> up to the saved flag \<open>intena\<close>, which the outermost \<open>push_off\<close> overwrites.
\<close>

section \<open>Definitions\<close>

definition cpuid :: "kstate \<Rightarrow> int" where
  "cpuid s = sint (ucast (r_tp (k_csr s)) :: i32)"

definition mycpu :: "kstate \<Rightarrow> int" where
  "mycpu s = cpuid s"

definition mycpu_read :: "(cpu \<Rightarrow> 'a) \<Rightarrow> kstate \<Rightarrow> (kstate, 'a) res" where
  "mycpu_read f s =
     (if 0 \<le> mycpu s \<and> mycpu s < int (length (k_cpus s)) then Ok (f (k_cpus s ! nat (mycpu s))) s
      else Err Fault s)"

definition mycpu_write :: "(cpu \<Rightarrow> cpu) \<Rightarrow> kstate \<Rightarrow> (kstate, unit) res" where
  "mycpu_write f s =
     (if 0 \<le> mycpu s \<and> mycpu s < int (length (k_cpus s))
      then Ok () (s\<lparr>k_cpus := (k_cpus s)[nat (mycpu s) := f (k_cpus s ! nat (mycpu s))]\<rparr>)
      else Err Fault s)"

definition lock_write :: "lockid \<Rightarrow> (spinlock \<Rightarrow> spinlock) \<Rightarrow> kstate \<Rightarrow> (kstate, unit) res" where
  "lock_write lk f = modifyM (\<lambda>s. s\<lparr>k_locks := (k_locks s)(lk := f (k_locks s lk))\<rparr>)"

definition initlock :: "lockid \<Rightarrow> string \<Rightarrow> kstate \<Rightarrow> (kstate, unit) res" where
  "initlock lk name =
     seqM (lock_write lk (\<lambda>l. l\<lparr>lk_name := Some name\<rparr>))
    (seqM (lock_write lk (\<lambda>l. l\<lparr>lk_locked := 0\<rparr>))
          (lock_write lk (\<lambda>l. l\<lparr>lk_cpu := None\<rparr>)))"

definition holding :: "lockid \<Rightarrow> kstate \<Rightarrow> bool" where
  "holding lk s \<longleftrightarrow> lk_locked (k_locks s lk) \<noteq> 0 \<and> lk_cpu (k_locks s lk) = Some (mycpu s)"

definition push_off :: "kstate \<Rightarrow> (kstate, unit) res" where
  "push_off =
     bindM (csr_read intr_get) (\<lambda>old.
     seqM (csr_write intr_off)
    (bindM (mycpu_read cpu_noff) (\<lambda>noff.
     seqM (whenM (noff = 0) (mycpu_write (\<lambda>c. c\<lparr>cpu_intena := old\<rparr>)))
          (mycpu_write (\<lambda>c. c\<lparr>cpu_noff := cpu_noff c + 1\<rparr>)))))"

definition pop_off :: "kstate \<Rightarrow> (kstate, unit) res" where
  "pop_off =
     bindM (csr_read intr_get) (\<lambda>on.
     if on then fail (Panic ''pop_off - interruptible'') else
     bindM (mycpu_read cpu_noff) (\<lambda>noff.
     if noff < 1 then fail (Panic ''pop_off'') else
     seqM (mycpu_write (\<lambda>c. c\<lparr>cpu_noff := cpu_noff c - 1\<rparr>))
    (bindM (mycpu_read (\<lambda>c. cpu_noff c = 0 \<and> cpu_intena c)) (\<lambda>enable.
     whenM enable (csr_write intr_on)))))"

text \<open>\<open>__sync_lock_test_and_set\<close>: the old value is returned and 1 is stored.\<close>

definition test_and_set :: "lockid \<Rightarrow> kstate \<Rightarrow> (kstate, u32) res" where
  "test_and_set lk =
     bindM (readM (\<lambda>s. lk_locked (k_locks s lk))) (\<lambda>old.
     seqM (lock_write lk (\<lambda>l. l\<lparr>lk_locked := 1\<rparr>)) (ret old))"

definition acquire :: "lockid \<Rightarrow> kstate \<Rightarrow> (kstate, unit) res" where
  "acquire lk =
     seqM push_off
    (bindM (readM (holding lk)) (\<lambda>h.
     if h then fail (Panic ''acquire'') else
     bindM (test_and_set lk) (\<lambda>old.
     if old \<noteq> 0 then fail Spin else
     bindM (readM mycpu) (\<lambda>c. lock_write lk (\<lambda>l. l\<lparr>lk_cpu := Some c\<rparr>)))))"

definition release :: "lockid \<Rightarrow> kstate \<Rightarrow> (kstate, unit) res" where
  "release lk =
     bindM (readM (holding lk)) (\<lambda>h.
     if \<not> h then fail (Panic ''release'') else
     seqM (lock_write lk (\<lambda>l. l\<lparr>lk_cpu := None\<rparr>))
    (seqM (lock_write lk (\<lambda>l. l\<lparr>lk_locked := 0\<rparr>))
          pop_off))"

definition myproc :: "kstate \<Rightarrow> (kstate, nat option) res" where
  "myproc =
     seqM push_off
    (bindM (mycpu_read cpu_proc) (\<lambda>p.
     seqM pop_off (ret p)))"

text \<open>The hart in the state the boot code leaves it in, and the discipline of \<open>noff\<close>:
  interrupts are off inside every \<open>push_off\<close>.\<close>

definition cpu0 :: "kstate \<Rightarrow> cpu" where
  "cpu0 s = k_cpus s ! 0"

definition one_cpu :: "kstate \<Rightarrow> bool" where
  "one_cpu s \<longleftrightarrow> r_tp (k_csr s) = 0 \<and> length (k_cpus s) = NCPU"

definition cpu_wf :: "kstate \<Rightarrow> bool" where
  "cpu_wf s \<longleftrightarrow> one_cpu s \<and> 0 \<le> cpu_noff (cpu0 s)
     \<and> (0 < cpu_noff (cpu0 s) \<longrightarrow> \<not> intr_get (k_csr s))"

definition lock_free :: "kstate \<Rightarrow> lockid \<Rightarrow> bool" where
  "lock_free s lk \<longleftrightarrow> lk_locked (k_locks s lk) = 0 \<and> lk_cpu (k_locks s lk) = None"

definition lock_held :: "kstate \<Rightarrow> lockid \<Rightarrow> bool" where
  "lock_held s lk \<longleftrightarrow> lk_locked (k_locks s lk) = 1 \<and> lk_cpu (k_locks s lk) = Some 0"

text \<open>The state transformers of the operations, on a hart that satisfies \<open>one_cpu\<close>.\<close>

definition on_cpu0 :: "(cpu \<Rightarrow> cpu) \<Rightarrow> kstate \<Rightarrow> kstate" where
  "on_cpu0 f s = s\<lparr>k_cpus := [f (cpu0 s)]\<rparr>"

definition settle :: "kstate \<Rightarrow> kstate" where
  "settle s = on_cpu0 (\<lambda>c. c\<lparr>cpu_intena := (if cpu_noff c = 0 then intr_get (k_csr s) else cpu_intena c)\<rparr>) s"

definition pushed :: "kstate \<Rightarrow> kstate" where
  "pushed s = (on_cpu0 (\<lambda>c. c\<lparr>cpu_noff := cpu_noff c + 1\<rparr>) (settle s))\<lparr>k_csr := intr_off (k_csr s)\<rparr>"

definition popped :: "kstate \<Rightarrow> kstate" where
  "popped s = (on_cpu0 (\<lambda>c. c\<lparr>cpu_noff := cpu_noff c - 1\<rparr>) s)
     \<lparr>k_csr := (if cpu_noff (cpu0 s) = 1 \<and> cpu_intena (cpu0 s) then intr_on (k_csr s) else k_csr s)\<rparr>"

definition set_lock :: "lockid \<Rightarrow> u32 \<Rightarrow> int option \<Rightarrow> kstate \<Rightarrow> kstate" where
  "set_lock lk b c s = s\<lparr>k_locks := (k_locks s)(lk := (k_locks s lk)\<lparr>lk_locked := b, lk_cpu := c\<rparr>)\<rparr>"

definition acq :: "lockid \<Rightarrow> kstate \<Rightarrow> kstate" where
  "acq lk s = set_lock lk 1 (Some 0) (pushed s)"

definition rel :: "lockid \<Rightarrow> kstate \<Rightarrow> kstate" where
  "rel lk s = popped (set_lock lk 0 None s)"

section \<open>Execution\<close>

lemma mycpu_0: "one_cpu s \<Longrightarrow> mycpu s = 0"
  by (simp add: mycpu_def cpuid_def one_cpu_def)

lemma cpus_eq: "one_cpu s \<Longrightarrow> k_cpus s = [cpu0 s]"
  by (auto simp: one_cpu_def cpu0_def NCPU_def length_Suc_conv)

lemma mycpu_read_run [exec_simps]: "one_cpu s \<Longrightarrow> mycpu_read f s = Ok (f (cpu0 s)) s"
  by (simp add: mycpu_read_def mycpu_0 cpus_eq)

lemma mycpu_write_run [exec_simps]: "one_cpu s \<Longrightarrow> mycpu_write f s = Ok () (on_cpu0 f s)"
  by (simp add: mycpu_write_def mycpu_0 cpus_eq on_cpu0_def)

section \<open>Frame laws\<close>

text \<open>Every field but the locks, the cpu and the registers passes through the transformers, and
  what is true of locks and cpu does not depend on those fields.\<close>

lemmas transformer_defs = acq_def rel_def pushed_def popped_def settle_def set_lock_def on_cpu0_def

lemma acq_frame [simp]:
    "k_link (acq lk s) = k_link s"
    "k_mem (acq lk s) = k_mem s"
    "k_uart (acq lk s) = k_uart s"
    "k_plic (acq lk s) = k_plic s"
    "k_freelist (acq lk s) = k_freelist s"
    "k_pagetable (acq lk s) = k_pagetable s"
    "k_procs (acq lk s) = k_procs s"
    "k_initproc (acq lk s) = k_initproc s"
    "k_nextpid (acq lk s) = k_nextpid s"
    "k_first (acq lk s) = k_first s"
    "k_ticks (acq lk s) = k_ticks s"
    "k_testdata (acq lk s) = k_testdata s"
  by (simp_all add: transformer_defs)

lemma rel_frame [simp]:
    "k_link (rel lk s) = k_link s"
    "k_mem (rel lk s) = k_mem s"
    "k_uart (rel lk s) = k_uart s"
    "k_plic (rel lk s) = k_plic s"
    "k_freelist (rel lk s) = k_freelist s"
    "k_pagetable (rel lk s) = k_pagetable s"
    "k_procs (rel lk s) = k_procs s"
    "k_initproc (rel lk s) = k_initproc s"
    "k_nextpid (rel lk s) = k_nextpid s"
    "k_first (rel lk s) = k_first s"
    "k_ticks (rel lk s) = k_ticks s"
    "k_testdata (rel lk s) = k_testdata s"
  by (simp_all add: transformer_defs)

lemma settle_frame [simp]:
    "k_link (settle s) = k_link s"
    "k_mem (settle s) = k_mem s"
    "k_uart (settle s) = k_uart s"
    "k_plic (settle s) = k_plic s"
    "k_freelist (settle s) = k_freelist s"
    "k_pagetable (settle s) = k_pagetable s"
    "k_procs (settle s) = k_procs s"
    "k_initproc (settle s) = k_initproc s"
    "k_nextpid (settle s) = k_nextpid s"
    "k_first (settle s) = k_first s"
    "k_ticks (settle s) = k_ticks s"
    "k_testdata (settle s) = k_testdata s"
  by (simp_all add: transformer_defs)

lemma acq_update [simp]:
    "acq lk (k_link_update h0 s) = k_link_update h0 (acq lk s)"
    "acq lk (k_mem_update h1 s) = k_mem_update h1 (acq lk s)"
    "acq lk (k_uart_update h2 s) = k_uart_update h2 (acq lk s)"
    "acq lk (k_plic_update h3 s) = k_plic_update h3 (acq lk s)"
    "acq lk (k_freelist_update h4 s) = k_freelist_update h4 (acq lk s)"
    "acq lk (k_pagetable_update h5 s) = k_pagetable_update h5 (acq lk s)"
    "acq lk (k_procs_update h6 s) = k_procs_update h6 (acq lk s)"
    "acq lk (k_initproc_update h7 s) = k_initproc_update h7 (acq lk s)"
    "acq lk (k_nextpid_update h8 s) = k_nextpid_update h8 (acq lk s)"
    "acq lk (k_first_update h9 s) = k_first_update h9 (acq lk s)"
    "acq lk (k_ticks_update h10 s) = k_ticks_update h10 (acq lk s)"
    "acq lk (k_testdata_update h11 s) = k_testdata_update h11 (acq lk s)"
  by (simp_all add: transformer_defs cpu0_def)

lemma rel_update [simp]:
    "rel lk (k_link_update h0 s) = k_link_update h0 (rel lk s)"
    "rel lk (k_mem_update h1 s) = k_mem_update h1 (rel lk s)"
    "rel lk (k_uart_update h2 s) = k_uart_update h2 (rel lk s)"
    "rel lk (k_plic_update h3 s) = k_plic_update h3 (rel lk s)"
    "rel lk (k_freelist_update h4 s) = k_freelist_update h4 (rel lk s)"
    "rel lk (k_pagetable_update h5 s) = k_pagetable_update h5 (rel lk s)"
    "rel lk (k_procs_update h6 s) = k_procs_update h6 (rel lk s)"
    "rel lk (k_initproc_update h7 s) = k_initproc_update h7 (rel lk s)"
    "rel lk (k_nextpid_update h8 s) = k_nextpid_update h8 (rel lk s)"
    "rel lk (k_first_update h9 s) = k_first_update h9 (rel lk s)"
    "rel lk (k_ticks_update h10 s) = k_ticks_update h10 (rel lk s)"
    "rel lk (k_testdata_update h11 s) = k_testdata_update h11 (rel lk s)"
  by (simp_all add: transformer_defs cpu0_def)

lemma settle_update [simp]:
    "settle (k_link_update h0 s) = k_link_update h0 (settle s)"
    "settle (k_mem_update h1 s) = k_mem_update h1 (settle s)"
    "settle (k_uart_update h2 s) = k_uart_update h2 (settle s)"
    "settle (k_plic_update h3 s) = k_plic_update h3 (settle s)"
    "settle (k_freelist_update h4 s) = k_freelist_update h4 (settle s)"
    "settle (k_pagetable_update h5 s) = k_pagetable_update h5 (settle s)"
    "settle (k_procs_update h6 s) = k_procs_update h6 (settle s)"
    "settle (k_initproc_update h7 s) = k_initproc_update h7 (settle s)"
    "settle (k_nextpid_update h8 s) = k_nextpid_update h8 (settle s)"
    "settle (k_first_update h9 s) = k_first_update h9 (settle s)"
    "settle (k_ticks_update h10 s) = k_ticks_update h10 (settle s)"
    "settle (k_testdata_update h11 s) = k_testdata_update h11 (settle s)"
  by (simp_all add: transformer_defs cpu0_def)

lemma cpu0_frame [simp]:
    "cpu0 (k_link_update h0 s) = cpu0 s"
    "cpu0 (k_mem_update h1 s) = cpu0 s"
    "cpu0 (k_uart_update h2 s) = cpu0 s"
    "cpu0 (k_plic_update h3 s) = cpu0 s"
    "cpu0 (k_freelist_update h4 s) = cpu0 s"
    "cpu0 (k_pagetable_update h5 s) = cpu0 s"
    "cpu0 (k_procs_update h6 s) = cpu0 s"
    "cpu0 (k_initproc_update h7 s) = cpu0 s"
    "cpu0 (k_nextpid_update h8 s) = cpu0 s"
    "cpu0 (k_first_update h9 s) = cpu0 s"
    "cpu0 (k_ticks_update h10 s) = cpu0 s"
    "cpu0 (k_testdata_update h11 s) = cpu0 s"
  by (simp_all add: cpu0_def)

lemma one_cpu_frame [simp]:
    "one_cpu (k_link_update h0 s) = one_cpu s"
    "one_cpu (k_mem_update h1 s) = one_cpu s"
    "one_cpu (k_uart_update h2 s) = one_cpu s"
    "one_cpu (k_plic_update h3 s) = one_cpu s"
    "one_cpu (k_freelist_update h4 s) = one_cpu s"
    "one_cpu (k_pagetable_update h5 s) = one_cpu s"
    "one_cpu (k_procs_update h6 s) = one_cpu s"
    "one_cpu (k_initproc_update h7 s) = one_cpu s"
    "one_cpu (k_nextpid_update h8 s) = one_cpu s"
    "one_cpu (k_first_update h9 s) = one_cpu s"
    "one_cpu (k_ticks_update h10 s) = one_cpu s"
    "one_cpu (k_testdata_update h11 s) = one_cpu s"
  by (simp_all add: one_cpu_def)

lemma cpu_wf_frame [simp]:
    "cpu_wf (k_link_update h0 s) = cpu_wf s"
    "cpu_wf (k_mem_update h1 s) = cpu_wf s"
    "cpu_wf (k_uart_update h2 s) = cpu_wf s"
    "cpu_wf (k_plic_update h3 s) = cpu_wf s"
    "cpu_wf (k_freelist_update h4 s) = cpu_wf s"
    "cpu_wf (k_pagetable_update h5 s) = cpu_wf s"
    "cpu_wf (k_procs_update h6 s) = cpu_wf s"
    "cpu_wf (k_initproc_update h7 s) = cpu_wf s"
    "cpu_wf (k_nextpid_update h8 s) = cpu_wf s"
    "cpu_wf (k_first_update h9 s) = cpu_wf s"
    "cpu_wf (k_ticks_update h10 s) = cpu_wf s"
    "cpu_wf (k_testdata_update h11 s) = cpu_wf s"
  by (simp_all add: cpu_wf_def)

lemma lock_free_frame [simp]:
    "lock_free (k_link_update h0 s) lk = lock_free s lk"
    "lock_free (k_mem_update h1 s) lk = lock_free s lk"
    "lock_free (k_uart_update h2 s) lk = lock_free s lk"
    "lock_free (k_plic_update h3 s) lk = lock_free s lk"
    "lock_free (k_freelist_update h4 s) lk = lock_free s lk"
    "lock_free (k_pagetable_update h5 s) lk = lock_free s lk"
    "lock_free (k_procs_update h6 s) lk = lock_free s lk"
    "lock_free (k_initproc_update h7 s) lk = lock_free s lk"
    "lock_free (k_nextpid_update h8 s) lk = lock_free s lk"
    "lock_free (k_first_update h9 s) lk = lock_free s lk"
    "lock_free (k_ticks_update h10 s) lk = lock_free s lk"
    "lock_free (k_testdata_update h11 s) lk = lock_free s lk"
  by (simp_all add: lock_free_def)

lemma lock_held_frame [simp]:
    "lock_held (k_link_update h0 s) lk = lock_held s lk"
    "lock_held (k_mem_update h1 s) lk = lock_held s lk"
    "lock_held (k_uart_update h2 s) lk = lock_held s lk"
    "lock_held (k_plic_update h3 s) lk = lock_held s lk"
    "lock_held (k_freelist_update h4 s) lk = lock_held s lk"
    "lock_held (k_pagetable_update h5 s) lk = lock_held s lk"
    "lock_held (k_procs_update h6 s) lk = lock_held s lk"
    "lock_held (k_initproc_update h7 s) lk = lock_held s lk"
    "lock_held (k_nextpid_update h8 s) lk = lock_held s lk"
    "lock_held (k_first_update h9 s) lk = lock_held s lk"
    "lock_held (k_ticks_update h10 s) lk = lock_held s lk"
    "lock_held (k_testdata_update h11 s) lk = lock_held s lk"
  by (simp_all add: lock_held_def)

lemma cpu0_on_cpu0 [simp]: "cpu0 (on_cpu0 f s) = f (cpu0 s)"
  by (simp add: on_cpu0_def cpu0_def)

lemma cpu0_transformers [simp]:
  "cpu0 (settle s) = (cpu0 s)\<lparr>cpu_intena := (if cpu_noff (cpu0 s) = 0 then intr_get (k_csr s) else cpu_intena (cpu0 s))\<rparr>"
  "cpu0 (acq lk s) = (cpu0 s)\<lparr>cpu_intena := (if cpu_noff (cpu0 s) = 0 then intr_get (k_csr s) else cpu_intena (cpu0 s)),
     cpu_noff := cpu_noff (cpu0 s) + 1\<rparr>"
  "cpu0 (rel lk s) = (cpu0 s)\<lparr>cpu_noff := cpu_noff (cpu0 s) - 1\<rparr>"
  by (simp_all add: transformer_defs cpu0_def)

lemma k_csr_transformers [simp]:
  "k_csr (settle s) = k_csr s"
  "k_csr (acq lk s) = intr_off (k_csr s)"
  "k_csr (rel lk s) = (if cpu_noff (cpu0 s) = 1 \<and> cpu_intena (cpu0 s) then intr_on (k_csr s) else k_csr s)"
  by (simp_all add: transformer_defs cpu0_def)

lemma k_locks_transformers [simp]:
  "k_locks (settle s) = k_locks s"
  "k_locks (acq lk s) = (k_locks s)(lk := (k_locks s lk)\<lparr>lk_locked := 1, lk_cpu := Some 0\<rparr>)"
  "k_locks (rel lk s) = (k_locks s)(lk := (k_locks s lk)\<lparr>lk_locked := 0, lk_cpu := None\<rparr>)"
  by (simp_all add: transformer_defs)

lemma one_cpu_transformers [simp]:
  "one_cpu s \<Longrightarrow> one_cpu (settle s)" "one_cpu s \<Longrightarrow> one_cpu (acq lk s)"
  "one_cpu s \<Longrightarrow> one_cpu (rel lk s)" "one_cpu s \<Longrightarrow> one_cpu (on_cpu0 f s)"
  "one_cpu s \<Longrightarrow> one_cpu (set_lock lk b c s)" "one_cpu s \<Longrightarrow> one_cpu (pushed s)"
  by (simp_all add: transformer_defs one_cpu_def NCPU_def)

lemma lock_free_transformers [simp]:
  "lock_free (settle s) lk' = lock_free s lk'"
  "lock_free (acq lk s) lk' = (lk' \<noteq> lk \<and> lock_free s lk')"
  "lock_free (rel lk s) lk' = (lk' = lk \<or> lock_free s lk')"
  by (auto simp: lock_free_def)

lemma lock_held_transformers [simp]:
  "lock_held (settle s) lk' = lock_held s lk'"
  "lock_held (acq lk s) lk' = (lk' = lk \<or> lock_held s lk')"
  "lock_held (rel lk s) lk' = (lk' \<noteq> lk \<and> lock_held s lk')"
  by (auto simp: lock_held_def)

lemma cpu_wf_one_cpu: "cpu_wf s \<Longrightarrow> one_cpu s"
  by (simp add: cpu_wf_def)

lemma cpu_wf_settle [simp]: "cpu_wf s \<Longrightarrow> cpu_wf (settle s)"
  by (simp add: cpu_wf_def)

lemma cpu_wf_acq [simp]: "cpu_wf s \<Longrightarrow> cpu_wf (acq lk s)"
  by (simp add: cpu_wf_def)

lemma cpu_wf_rel: "cpu_wf s \<Longrightarrow> 0 < cpu_noff (cpu0 s) \<Longrightarrow> cpu_wf (rel lk s)"
  by (auto simp: cpu_wf_def)

section \<open>Execution\<close>

lemma push_off_run: "one_cpu s \<Longrightarrow> push_off s = Ok () (pushed s)"
proof -
  assume s: "one_cpu s"
  then have "one_cpu (s\<lparr>k_csr := intr_off (k_csr s)\<rparr>)" by (simp add: one_cpu_def)
  with s show ?thesis
    by (simp add: push_off_def exec_simps) (simp add: transformer_defs cpu0_def)
qed

lemma pop_off_run:
  "one_cpu s \<Longrightarrow> \<not> intr_get (k_csr s) \<Longrightarrow> 1 \<le> cpu_noff (cpu0 s) \<Longrightarrow> pop_off s = Ok () (popped s)"
  by (simp add: pop_off_def exec_simps popped_def) (simp add: on_cpu0_def)

lemma acquire_run:
  assumes "one_cpu s" and "lk_locked (k_locks s lk) = 0"
  shows "acquire lk s = Ok () (acq lk s)"
proof -
  have "one_cpu (set_lock lk 1 c (pushed s))" for c using assms(1) by simp
  then have "mycpu (set_lock lk 1 c (pushed s)) = 0" for c by (rule mycpu_0)
  then show ?thesis
    using assms push_off_run [OF assms(1)]
    by (simp add: acquire_def test_and_set_def lock_write_def exec_simps holding_def transformer_defs)
       (simp add: mycpu_def cpuid_def one_cpu_def)
qed

lemma acquire_held:
  assumes "one_cpu s" and "lock_held s lk"
  shows "acquire lk s = Err (Panic ''acquire'') (pushed s)"
proof -
  have "holding lk (pushed s)"
    using assms mycpu_0 [of "pushed s"] by (simp add: holding_def lock_held_def) (simp add: transformer_defs)
  then show ?thesis using push_off_run [OF assms(1)] by (simp add: acquire_def exec_simps)
qed

lemma acquire_spin:
  assumes "one_cpu s" and "lk_locked (k_locks s lk) \<noteq> 0" and "lk_cpu (k_locks s lk) \<noteq> Some 0"
  shows "\<exists>s'. acquire lk s = Err Spin s'"
proof -
  have "\<not> holding lk (pushed s)" and "lk_locked (k_locks (pushed s) lk) \<noteq> 0"
    using assms mycpu_0 [of "pushed s"] by (simp_all add: holding_def) (simp_all add: transformer_defs)
  then show ?thesis
    using push_off_run [OF assms(1)] by (simp add: acquire_def test_and_set_def lock_write_def exec_simps)
qed

lemma lock_upd_swap: "lk_locked_update f (lk_cpu_update g l) = lk_cpu_update g (lk_locked_update f l)"
  for l :: spinlock
  by (cases l) simp

lemma release_run:
  assumes "one_cpu s" and "lock_held s lk" and "\<not> intr_get (k_csr s)" and "1 \<le> cpu_noff (cpu0 s)"
  shows "release lk s = Ok () (rel lk s)"
proof -
  have "holding lk s" using assms(1,2) by (simp add: holding_def lock_held_def mycpu_0)
  moreover have "pop_off (set_lock lk 0 None s) = Ok () (rel lk s)"
    unfolding rel_def using assms by (intro pop_off_run) (simp_all add: set_lock_def cpu0_def one_cpu_def)
  ultimately show ?thesis
    by (simp add: release_def lock_write_def exec_simps set_lock_def lock_upd_swap)
qed

lemma release_not_held: "\<not> holding lk s \<Longrightarrow> release lk s = Err (Panic ''release'') s"
  by (simp add: release_def exec_simps)

lemma initlock_run:
  "initlock lk name s =
     Ok () (s\<lparr>k_locks := (k_locks s)(lk := \<lparr>lk_locked = 0, lk_name = Some name, lk_cpu = None\<rparr>)\<rparr>)"
  by (cases "k_locks s lk") (simp add: initlock_def lock_write_def exec_simps)

lemma locks_update_frame [simp]:
  "cpu0 (k_locks_update f s) = cpu0 s" "one_cpu (k_locks_update f s) = one_cpu s"
  "cpu_wf (k_locks_update f s) = cpu_wf s"
  by (simp_all add: cpu_wf_def one_cpu_def cpu0_def)

section \<open>Critical sections\<close>

lemma settle_id: "one_cpu s \<Longrightarrow> cpu_noff (cpu0 s) \<noteq> 0 \<Longrightarrow> settle s = s"
  by (simp add: settle_def on_cpu0_def cpus_eq [symmetric])

lemma settle_settle [simp]: "settle (settle s) = settle s"
  by (simp add: settle_def on_cpu0_def cpu0_def)

lemma acq_settle [simp]: "acq lk (settle s) = acq lk s"
  by (simp add: transformer_defs cpu0_def)

lemma settle_acq [simp]: "cpu_wf s \<Longrightarrow> settle (acq lk s) = acq lk s"
  by (simp add: settle_id cpu_wf_def)

lemma rel_acq [simp]:
  assumes "cpu_wf s" and "lock_free s lk"
  shows "rel lk (acq lk s) = settle s"
proof -
  have "(k_locks s)(lk := (k_locks s lk)\<lparr>lk_locked := 0, lk_cpu := None\<rparr>) = k_locks s"
    using assms(2) by (auto simp: lock_free_def fun_eq_iff)
  then show ?thesis
    using assms(1) by (cases "cpu_noff (cpu0 s) = 0") (auto simp: transformer_defs cpu_wf_def cpu0_def)
qed

text \<open>Two locks released in the order they were taken.\<close>

lemma rel_acq_acq [simp]:
  assumes "cpu_wf s" and "lock_free s lk" and "lk \<noteq> lk'"
  shows "rel lk (acq lk' (acq lk s)) = acq lk' s"
proof -
  have "((k_locks s)(lk' := (k_locks s lk')\<lparr>lk_locked := 1, lk_cpu := Some 0\<rparr>))
        (lk := (k_locks s lk)\<lparr>lk_locked := 0, lk_cpu := None\<rparr>)
      = (k_locks s)(lk' := (k_locks s lk')\<lparr>lk_locked := 1, lk_cpu := Some 0\<rparr>)"
    using assms(2,3) by (auto simp: lock_free_def fun_eq_iff)
  then show ?thesis
    using assms by (auto simp: transformer_defs cpu_wf_def cpu0_def fun_upd_twist)
qed

lemma acquire_free: "cpu_wf s \<Longrightarrow> lock_free s lk \<Longrightarrow> acquire lk s = Ok () (acq lk s)"
  by (simp add: acquire_run cpu_wf_def lock_free_def)

lemma release_acq:
  "cpu_wf s \<Longrightarrow> lock_held s lk \<Longrightarrow> 0 < cpu_noff (cpu0 s) \<Longrightarrow> release lk s = Ok () (rel lk s)"
  by (simp add: release_run cpu_wf_def)

lemma noff_wf [simp]:
  "cpu_wf s \<Longrightarrow> 0 \<le> cpu_noff (cpu0 s)" "cpu_wf s \<Longrightarrow> 0 < cpu_noff (cpu0 s) + 1"
  "cpu_wf s \<Longrightarrow> - 1 < cpu_noff (cpu0 s)" "cpu_wf s \<Longrightarrow> cpu_noff (cpu0 s) + 1 \<noteq> 0"
  by (simp_all add: cpu_wf_def)

lemma myproc_run [exec_simps]:
  assumes "cpu_wf s"
  shows "myproc s = Ok (cpu_proc (cpu0 s)) (settle s)"
proof -
  have p: "one_cpu (pushed s)" and i: "\<not> intr_get (k_csr (pushed s))"
    and n: "cpu_noff (cpu0 (pushed s)) = cpu_noff (cpu0 s) + 1"
    and c: "cpu_proc (cpu0 (pushed s)) = cpu_proc (cpu0 s)"
    using assms by (simp_all add: cpu_wf_def) (simp_all add: transformer_defs cpu0_def)
  have "popped (pushed s) = settle s"
    using assms by (cases "cpu_noff (cpu0 s) = 0") (auto simp: transformer_defs cpu_wf_def cpu0_def)
  with p i n c assms show ?thesis
    by (simp add: myproc_def push_off_run pop_off_run cpu_wf_def exec_simps)
qed

end
