(* ===== verification/Uart.thy ===== *)
theory Uart
  imports Spinlock
begin

text \<open>
  \<open>kernel/uart.c\<close> and \<open>kernel/console.c\<close>: the 16550 driver and the console on top of it.

  \<open>ReadReg\<close> and \<open>WriteReg\<close> are the two macros, over the device record: reading the line
  status register is one poll, reading \<open>RHR\<close> takes a byte from the receive FIFO, writing
  \<open>THR\<close> sends a byte and makes the transmitter busy for \<open>tx_delay\<close> polls, and \<open>LCR\<close> bit 7
  redirects registers 0 and 1 to the divisor latch. The two polling loops terminate because
  every poll of a busy transmitter, and every byte received, uses something up.

  The lemmas: \<open>uart_putc\<close> returns and sends exactly its byte; \<open>uart_puts\<close> sends its string
  with a carriage return before each newline; \<open>uartinit\<close> leaves the line usable; the
  interrupt handler drains the receive FIFO.
\<close>

section \<open>Definitions\<close>

definition RHR :: nat where "RHR = 0"
definition THR :: nat where "THR = 0"
definition IER :: nat where "IER = 1"
definition IER_RX_ENABLE :: u8 where "IER_RX_ENABLE = push_bit 0 1"
definition IER_TX_ENABLE :: u8 where "IER_TX_ENABLE = push_bit 1 1"
definition FCR :: nat where "FCR = 2"
definition FCR_FIFO_ENABLE :: u8 where "FCR_FIFO_ENABLE = push_bit 0 1"
definition FCR_FIFO_CLEAR :: u8 where "FCR_FIFO_CLEAR = push_bit 1 3"
definition ISR :: nat where "ISR = 2"
definition LCR :: nat where "LCR = 3"
definition LCR_EIGHT_BITS :: u8 where "LCR_EIGHT_BITS = push_bit 0 3"
definition LCR_BAUD_LATCH :: u8 where "LCR_BAUD_LATCH = push_bit 7 1"
definition LSR :: nat where "LSR = 5"
definition LSR_RX_READY :: u8 where "LSR_RX_READY = push_bit 0 1"
definition LSR_TX_IDLE :: u8 where "LSR_TX_IDLE = push_bit 5 1"

lemmas uart_regs =
  RHR_def THR_def IER_def FCR_def ISR_def LCR_def LSR_def LSR_RX_READY_def LSR_TX_IDLE_def

definition ReadReg :: "nat \<Rightarrow> uart_dev \<Rightarrow> u8 \<times> uart_dev" where
  "ReadReg reg u =
     (if reg = LSR then
        ((if rx_fifo u = [] then 0 else LSR_RX_READY) OR (if tx_busy u = 0 then LSR_TX_IDLE else 0),
         u\<lparr>tx_busy := tx_busy u - 1\<rparr>)
      else if reg = RHR then
        (case rx_fifo u of [] \<Rightarrow> (0, u) | c # cs \<Rightarrow> (c, u\<lparr>rx_fifo := cs\<rparr>))
      else if reg = IER then (uart_ier u, u)
      else if reg = LCR then (uart_lcr u, u)
      else (0, u))"

definition WriteReg :: "nat \<Rightarrow> u8 \<Rightarrow> uart_dev \<Rightarrow> uart_dev" where
  "WriteReg reg v u =
     (if reg = THR then
        (if bit (uart_lcr u) 7 then u\<lparr>uart_dll := v\<rparr>
         else u\<lparr>tx_busy := tx_delay u (length (tx_sent u)), tx_sent := tx_sent u @ [v]\<rparr>)
      else if reg = IER then
        (if bit (uart_lcr u) 7 then u\<lparr>uart_dlm := v\<rparr> else u\<lparr>uart_ier := v\<rparr>)
      else if reg = FCR then
        u\<lparr>uart_fcr := v, rx_fifo := (if bit v 1 then [] else rx_fifo u)\<rparr>
      else if reg = LCR then u\<lparr>uart_lcr := v\<rparr>
      else u)"

definition uartinit_dev :: "uart_dev \<Rightarrow> uart_dev" where
  "uartinit_dev u =
     (let u = WriteReg IER 0x00 u;
          u = WriteReg LCR LCR_BAUD_LATCH u;
          u = WriteReg 0 0x03 u;
          u = WriteReg 1 0x00 u;
          u = WriteReg LCR LCR_EIGHT_BITS u;
          u = WriteReg FCR (FCR_FIFO_ENABLE OR FCR_FIFO_CLEAR) u
      in WriteReg IER (IER_TX_ENABLE OR IER_RX_ENABLE) u)"

definition uartinit :: "kstate \<Rightarrow> (kstate, unit) res" where
  "uartinit =
     seqM (modifyM (\<lambda>s. s\<lparr>k_uart := uartinit_dev (k_uart s)\<rparr>))
          (initlock PrintLock ''printlock'')"

text \<open>\<open>while((ReadReg(LSR) & LSR_TX_IDLE) == 0) ;\<close>\<close>

function uart_wait :: "uart_dev \<Rightarrow> uart_dev" where
  "uart_wait u =
     (let r = ReadReg LSR u in if fst r AND LSR_TX_IDLE = 0 then uart_wait (snd r) else snd r)"
  by pat_completeness auto
termination
proof (relation "measure tx_busy", goal_cases)
  case 1
  then show ?case by simp
next
  case (2 u r)
  have "LSR_RX_READY OR LSR_TX_IDLE = (33 :: u8)"
    by (simp add: LSR_RX_READY_def LSR_TX_IDLE_def)
  with 2 show ?case
    by (auto simp: ReadReg_def LSR_TX_IDLE_def split: if_splits)
qed

definition uart_putc :: "u8 \<Rightarrow> uart_dev \<Rightarrow> uart_dev" where
  "uart_putc c u = WriteReg THR c (uart_wait u)"

fun uart_puts :: "u8 list \<Rightarrow> uart_dev \<Rightarrow> uart_dev" where
  "uart_puts [] u = u"
| "uart_puts (c # s) u =
     (let u = (if c = 0x0A then uart_putc 0x0D u else u) in uart_puts s (uart_putc c u))"

definition uartgetc :: "uart_dev \<Rightarrow> int \<times> uart_dev" where
  "uartgetc u =
     (let r = ReadReg LSR u in
      if fst r AND LSR_RX_READY \<noteq> 0
      then (let d = ReadReg RHR (snd r) in (uint (fst d), snd d))
      else (-1, snd r))"

definition consoleintr :: "int \<Rightarrow> uart_dev \<Rightarrow> uart_dev" where
  "consoleintr c u = u"

function uart_drain :: "uart_dev \<Rightarrow> uart_dev" where
  "uart_drain u =
     (let r = uartgetc u in if fst r = -1 then snd r else uart_drain (consoleintr (fst r) (snd r)))"
  by pat_completeness auto
termination
proof (relation "measure (\<lambda>u. length (rx_fifo u))", goal_cases)
  case 1
  then show ?case by simp
next
  case (2 u r)
  have "LSR_TX_IDLE AND LSR_RX_READY = (0 :: u8)"
    by (simp add: LSR_RX_READY_def LSR_TX_IDLE_def)
  with 2 show ?case
    by (auto simp: uartgetc_def consoleintr_def ReadReg_def uart_regs Let_def
        split: if_splits list.splits)
qed

definition uart_intr :: "uart_dev \<Rightarrow> uart_dev" where
  "uart_intr u = uart_drain (snd (ReadReg ISR u))"

definition BACKSPACE :: i32 where "BACKSPACE = 0x100"

definition consputc :: "i32 \<Rightarrow> uart_dev \<Rightarrow> uart_dev" where
  "consputc c u =
     (if c = BACKSPACE then uart_putc 0x08 (uart_putc 0x20 (uart_putc 0x08 u))
      else uart_putc (ucast c) u)"

declare uart_wait.simps [simp del] uart_drain.simps [simp del]

section \<open>Sending\<close>

text \<open>The transmitter takes data when the divisor latch is not selected.\<close>

definition line_ready :: "uart_dev \<Rightarrow> bool" where
  "line_ready u \<longleftrightarrow> \<not> bit (uart_lcr u) 7"

lemma lsr_idle_iff: "fst (ReadReg LSR u) AND LSR_TX_IDLE = 0 \<longleftrightarrow> tx_busy u \<noteq> 0"
  by (simp add: ReadReg_def LSR_RX_READY_def LSR_TX_IDLE_def)

lemma lsr_rx_iff: "fst (ReadReg LSR u) AND LSR_RX_READY \<noteq> 0 \<longleftrightarrow> rx_fifo u \<noteq> []"
  by (simp add: ReadReg_def LSR_RX_READY_def LSR_TX_IDLE_def)

text \<open>The polling loop returns with an idle transmitter and has changed nothing else.\<close>

lemma uart_wait_eq: "uart_wait u = u\<lparr>tx_busy := 0\<rparr>"
proof (induction u rule: uart_wait.induct)
  case (1 u)
  show ?case
  proof (cases "tx_busy u = 0")
    case True
    then show ?thesis
      by (subst uart_wait.simps) (simp add: Let_def lsr_idle_iff, simp add: ReadReg_def)
  next
    case False
    then have "fst (ReadReg LSR u) AND LSR_TX_IDLE = 0" by (simp add: lsr_idle_iff)
    with 1 show ?thesis
      by (subst uart_wait.simps) (simp add: Let_def, simp add: ReadReg_def)
  qed
qed

lemma uart_putc_eq:
  "line_ready u \<Longrightarrow> uart_putc c u =
     u\<lparr>tx_busy := tx_delay u (length (tx_sent u)), tx_sent := tx_sent u @ [c]\<rparr>"
  by (simp add: uart_putc_def uart_wait_eq WriteReg_def line_ready_def)

lemma line_ready_uart_putc [simp]: "line_ready (uart_putc c u) = line_ready u"
  by (simp add: line_ready_def uart_putc_def uart_wait_eq WriteReg_def IER_def THR_def)

lemma tx_sent_uart_putc [simp]: "line_ready u \<Longrightarrow> tx_sent (uart_putc c u) = tx_sent u @ [c]"
  by (simp add: uart_putc_eq)

lemma rx_fifo_uart_putc [simp]: "rx_fifo (uart_putc c u) = rx_fifo u"
  by (simp add: uart_putc_def uart_wait_eq WriteReg_def THR_def)

definition crlf :: "u8 list \<Rightarrow> u8 list" where
  "crlf s = concat (map (\<lambda>c. if c = 0x0A then [0x0D, c] else [c]) s)"

lemma uart_puts_sent: "line_ready u \<Longrightarrow> tx_sent (uart_puts s u) = tx_sent u @ crlf s"
  by (induction s arbitrary: u) (simp_all add: crlf_def Let_def)

lemma line_ready_uart_puts [simp]: "line_ready (uart_puts s u) = line_ready u"
  by (induction s arbitrary: u) (simp_all add: Let_def)

lemmas uartinit_simps = uartinit_dev_def WriteReg_def uart_regs LCR_EIGHT_BITS_def LCR_BAUD_LATCH_def Let_def

lemma uartinit_dev_ready: "line_ready (uartinit_dev u)"
  by (simp add: uartinit_simps line_ready_def)

lemma uartinit_dev_divisor: "uart_dll (uartinit_dev u) = 3" "uart_dlm (uartinit_dev u) = 0"
  by (simp_all add: uartinit_simps)

lemma uartinit_dev_sent: "tx_sent (uartinit_dev u) = tx_sent u"
  by (simp add: uartinit_simps)

lemma uartinit_dev_ier: "uart_ier (uartinit_dev u) = 3"
  by (simp add: uartinit_simps IER_TX_ENABLE_def IER_RX_ENABLE_def)

text \<open>A console character is one byte, except the backspace code, which erases a column.\<close>

definition cons_bytes :: "i32 \<Rightarrow> u8 list" where
  "cons_bytes c = (if c = BACKSPACE then [0x08, 0x20, 0x08] else [ucast c])"

lemma consputc_sent: "line_ready u \<Longrightarrow> tx_sent (consputc c u) = tx_sent u @ cons_bytes c"
  by (simp add: consputc_def cons_bytes_def)

lemma line_ready_consputc [simp]: "line_ready (consputc c u) = line_ready u"
  by (simp add: consputc_def)

section \<open>Receiving\<close>

lemma uartgetc_empty: "rx_fifo u = [] \<Longrightarrow> uartgetc u = (-1, u\<lparr>tx_busy := tx_busy u - 1\<rparr>)"
  using lsr_rx_iff [of u] by (simp add: uartgetc_def) (simp add: ReadReg_def)

lemma uartgetc_byte:
  "rx_fifo u = c # cs \<Longrightarrow> uartgetc u = (uint c, u\<lparr>tx_busy := tx_busy u - 1, rx_fifo := cs\<rparr>)"
  using lsr_rx_iff [of u] by (simp add: uartgetc_def) (simp add: ReadReg_def uart_regs)

lemma uart_drain_rx: "rx_fifo (uart_drain u) = [] \<and> tx_sent (uart_drain u) = tx_sent u"
proof (induction u rule: uart_drain.induct)
  case (1 u)
  show ?case
  proof (cases "rx_fifo u")
    case Nil
    then show ?thesis by (subst (1 2) uart_drain.simps) (simp add: uartgetc_empty Let_def)
  next
    case (Cons c cs)
    have "uint c \<noteq> -1" using unsigned_greater_eq [of c] by (metis neg_0_le_iff_le not_one_le_zero)
    then show ?thesis
      using 1 Cons by (subst (1 2) uart_drain.simps) (simp add: uartgetc_byte Let_def consoleintr_def)
  qed
qed

lemma uart_intr_drains: "rx_fifo (uart_intr u) = []" "tx_sent (uart_intr u) = tx_sent u"
  using uart_drain_rx [of "snd (ReadReg ISR u)"] by (simp_all add: uart_intr_def ReadReg_def uart_regs)

end
