(* ===== verification/Printf.thy ===== *)
theory Printf
  imports Uart
begin

text \<open>
  \<open>kernel/printf.c\<close>: formatted output, \<open>panic\<close> and \<open>assert\<close>, with \<open>clear_screen\<close> and
  \<open>clear_line\<close> of \<open>kernel/console.c\<close>.

  A C string is the list of its bytes before the terminating NUL. A variadic argument is a
  64-bit slot or a string pointer; \<open>va_arg\<close> of a narrower type reads the low bits of the
  slot, and reading an argument that is absent or of the other kind is undefined behaviour
  (\<open>Fault\<close>). So are a write past \<open>buf[20]\<close> and a read past the table of digits.

  The lemmas: \<open>printint\<close> never overruns its buffer and sends the numeral of its argument;
  the numeral reads back as the number; \<open>printf\<close> sends the text its format describes and
  gives back its lock; \<open>panic\<close> reports its message and never returns.
\<close>

section \<open>Definitions\<close>

definition cstr :: "string \<Rightarrow> u8 list" where
  "cstr s = map of_char s"

datatype vararg = VWord u64 | VStr "u8 list option"

definition digits :: "u8 list" where
  "digits = [0x30, 0x31, 0x32, 0x33, 0x34, 0x35, 0x36, 0x37, 0x38, 0x39,
             0x61, 0x62, 0x63, 0x64, 0x65, 0x66, 0]"

text \<open>\<open>do { buf[i++] = digits[x % base]; } while((x /= base) != 0);\<close> over \<open>char buf[20]\<close>.\<close>

function printint_loop :: "u64 \<Rightarrow> u64 \<Rightarrow> u8 list \<Rightarrow> u8 list option" where
  "printint_loop x base buf =
     (if base = 0 \<or> 20 \<le> length buf \<or> length digits \<le> unat (x mod base) then None
      else let buf' = buf @ [digits ! unat (x mod base)]; x' = x div base
           in if x' \<noteq> 0 then printint_loop x' base buf' else Some buf')"
  by pat_completeness auto
termination
  by (relation "measure (\<lambda>(x, base, buf). 20 - length buf)") auto

definition printint :: "u64 \<Rightarrow> i32 \<Rightarrow> bool \<Rightarrow> uart_dev \<Rightarrow> (uart_dev, unit) res" where
  "printint xx base sign u =
     (let neg = (sign \<and> sint xx < 0); x = (if neg then - xx else xx)
      in case printint_loop x (scast base) [] of
           None \<Rightarrow> Err Fault u
         | Some buf \<Rightarrow>
             (if neg \<and> 20 \<le> length buf then Err Fault u
              else let buf = (if neg then buf @ [0x2D] else buf)
                   in Ok () (fold (\<lambda>b u. consputc (ucast b) u) (rev buf) u)))"

fun printptr_loop :: "nat \<Rightarrow> u64 \<Rightarrow> uart_dev \<Rightarrow> uart_dev" where
  "printptr_loop 0 x u = u"
| "printptr_loop (Suc k) x u =
     printptr_loop k (push_bit 4 x) (consputc (ucast (digits ! unat (drop_bit (8 * 8 - 4) x))) u)"

definition printptr :: "u64 \<Rightarrow> uart_dev \<Rightarrow> uart_dev" where
  "printptr x u = printptr_loop (8 * 2) x (consputc 0x78 (consputc 0x30 u))"

definition va_word :: "vararg list \<Rightarrow> (u64 \<times> vararg list) option" where
  "va_word args = (case args of VWord w # rest \<Rightarrow> Some (w, rest) | _ \<Rightarrow> None)"

definition va_str :: "vararg list \<Rightarrow> (u8 list option \<times> vararg list) option" where
  "va_str args = (case args of VStr s # rest \<Rightarrow> Some (s, rest) | _ \<Rightarrow> None)"

text \<open>The letters of the directives.\<close>

definition ch :: "char \<Rightarrow> u8" where
  "ch c = of_char c"

text \<open>The branches for one directive: how many bytes of the format after the percent sign it
  uses, and the arguments left.\<close>

definition printf_int ::
    "u64 \<Rightarrow> i32 \<Rightarrow> bool \<Rightarrow> nat \<Rightarrow> vararg list \<Rightarrow> uart_dev \<Rightarrow> (uart_dev, nat \<times> vararg list) res" where
  "printf_int xx base sign k rest u =
     (case printint xx base sign u of Ok _ u' \<Rightarrow> Ok (k, rest) u' | Err e u' \<Rightarrow> Err e u')"

definition printf_conv ::
    "u8 \<Rightarrow> u8 \<Rightarrow> u8 \<Rightarrow> vararg list \<Rightarrow> uart_dev \<Rightarrow> (uart_dev, nat \<times> vararg list) res" where
  "printf_conv c0 c1 c2 args u =
     (if c0 = ch CHR ''d'' then
        (case va_word args of None \<Rightarrow> Err Fault u
         | Some (w, rest) \<Rightarrow> printf_int (scast (ucast w :: u32)) 10 True 1 rest u)
      else if c0 = ch CHR ''l'' \<and> c1 = ch CHR ''d'' then
        (case va_word args of None \<Rightarrow> Err Fault u
         | Some (w, rest) \<Rightarrow> printf_int w 10 True 2 rest u)
      else if c0 = ch CHR ''l'' \<and> c1 = ch CHR ''l'' \<and> c2 = ch CHR ''d'' then
        (case va_word args of None \<Rightarrow> Err Fault u
         | Some (w, rest) \<Rightarrow> printf_int w 10 True 3 rest u)
      else if c0 = ch CHR ''u'' then
        (case va_word args of None \<Rightarrow> Err Fault u
         | Some (w, rest) \<Rightarrow> printf_int (ucast (ucast w :: u32)) 10 False 1 rest u)
      else if c0 = ch CHR ''l'' \<and> c1 = ch CHR ''u'' then
        (case va_word args of None \<Rightarrow> Err Fault u
         | Some (w, rest) \<Rightarrow> printf_int w 10 False 2 rest u)
      else if c0 = ch CHR ''l'' \<and> c1 = ch CHR ''l'' \<and> c2 = ch CHR ''u'' then
        (case va_word args of None \<Rightarrow> Err Fault u
         | Some (w, rest) \<Rightarrow> printf_int w 10 False 3 rest u)
      else if c0 = ch CHR ''x'' then
        (case va_word args of None \<Rightarrow> Err Fault u
         | Some (w, rest) \<Rightarrow> printf_int (ucast (ucast w :: u32)) 16 False 1 rest u)
      else if c0 = ch CHR ''l'' \<and> c1 = ch CHR ''x'' then
        (case va_word args of None \<Rightarrow> Err Fault u
         | Some (w, rest) \<Rightarrow> printf_int w 16 False 2 rest u)
      else if c0 = ch CHR ''l'' \<and> c1 = ch CHR ''l'' \<and> c2 = ch CHR ''x'' then
        (case va_word args of None \<Rightarrow> Err Fault u
         | Some (w, rest) \<Rightarrow> printf_int w 16 False 3 rest u)
      else if c0 = ch CHR ''p'' then
        (case va_word args of None \<Rightarrow> Err Fault u
         | Some (w, rest) \<Rightarrow> Ok (1, rest) (printptr w u))
      else if c0 = ch CHR ''c'' then
        (case va_word args of None \<Rightarrow> Err Fault u
         | Some (w, rest) \<Rightarrow> Ok (1, rest) (consputc (ucast w) u))
      else if c0 = ch CHR ''s'' then
        (case va_str args of None \<Rightarrow> Err Fault u
         | Some (p, rest) \<Rightarrow>
             (let s = (case p of None \<Rightarrow> cstr ''(null)'' | Some s \<Rightarrow> s)
              in Ok (1, rest) (fold (\<lambda>b u. consputc (ucast b) u) s u)))
      else if c0 = ch CHR ''%'' then Ok (1, args) (consputc 0x25 u)
      else Ok (1, args) (consputc (ucast c0) (consputc 0x25 u)))"

definition byte_at :: "u8 list \<Rightarrow> nat \<Rightarrow> u8" where
  "byte_at f k = (if k < length f then f ! k else 0)"

function printf_loop :: "u8 list \<Rightarrow> vararg list \<Rightarrow> uart_dev \<Rightarrow> (uart_dev, unit) res" where
  "printf_loop [] args u = Ok () u"
| "printf_loop (cx # f) args u =
     (if cx = 0 then Ok () u
      else if cx \<noteq> ch CHR ''%'' then printf_loop f args (consputc (ucast cx) u)
      else let c0 = byte_at f 0;
               c1 = (if c0 \<noteq> 0 then byte_at f 1 else 0);
               c2 = (if c1 \<noteq> 0 then byte_at f 2 else 0)
           in if c0 = 0 then Ok () u
              else (case printf_conv c0 c1 c2 args u of
                      Ok r u' \<Rightarrow> printf_loop (drop (fst r) f) (snd r) u'
                    | Err e u' \<Rightarrow> Err e u'))"
  by pat_completeness auto
termination
  by (relation "measure (\<lambda>(f, args, u). length f)") auto

definition on_uart :: "(uart_dev \<Rightarrow> (uart_dev, 'a) res) \<Rightarrow> kstate \<Rightarrow> (kstate, 'a) res" where
  "on_uart m s = (case m (k_uart s) of Ok a u \<Rightarrow> Ok a (s\<lparr>k_uart := u\<rparr>) | Err e u \<Rightarrow> Err e (s\<lparr>k_uart := u\<rparr>))"

definition printf :: "string \<Rightarrow> vararg list \<Rightarrow> kstate \<Rightarrow> (kstate, int) res" where
  "printf fmt args =
     seqM (acquire PrintLock)
    (seqM (on_uart (printf_loop (cstr fmt) args))
    (seqM (release PrintLock) (ret 0)))"

text \<open>What \<open>panic(msg)\<close> does when a component calls it, i.e. from the state of an outcome
  \<open>Err (Panic msg)\<close>: it disables the lock, prints and loops for ever.\<close>

definition panic :: "string \<Rightarrow> kstate \<Rightarrow> (kstate, unit) res" where
  "panic msg =
     seqM (lock_write PrintLock (\<lambda>l. l\<lparr>lk_locked := 0\<rparr>))
    (seqM (printf ''panic: '' [])
    (seqM (printf ''%s\<newline>'' [VStr (Some (cstr msg))])
          (fail Spin)))"

definition kassert :: "bool \<Rightarrow> kstate \<Rightarrow> (kstate, unit) res" where
  "kassert cond = (if \<not> cond then fail (Panic ''assertion failed'') else ret ())"

definition clear_screen :: "kstate \<Rightarrow> (kstate, unit) res" where
  "clear_screen =
     seqM (printf (CHR 0x1B # ''[2J'') []) (seqM (printf (CHR 0x1B # ''[H'') []) (ret ()))"

definition clear_line :: "kstate \<Rightarrow> (kstate, unit) res" where
  "clear_line = seqM (printf (CHR 0x1B # ''[K'') []) (ret ())"

declare printint_loop.simps [simp del]

section \<open>The text a format describes\<close>

text \<open>Numerals, most significant digit first, and their value.\<close>

fun num_str :: "nat \<Rightarrow> nat \<Rightarrow> u8 list" where
  "num_str b n =
     (if b < 2 then [] else if n < b then [digits ! n] else num_str b (n div b) @ [digits ! (n mod b)])"

definition digit_value :: "u8 \<Rightarrow> nat" where
  "digit_value c = (if unat c < 0x3A then unat c - 0x30 else unat c - 0x57)"

definition num_value :: "nat \<Rightarrow> u8 list \<Rightarrow> nat" where
  "num_value b cs = foldl (\<lambda>a c. a * b + digit_value c) 0 cs"

definition show_int :: "int \<Rightarrow> u8 list" where
  "show_int i = (if i < 0 then 0x2D # num_str 10 (nat (- i)) else num_str 10 (nat i))"

definition int_value :: "u8 list \<Rightarrow> int" where
  "int_value cs = (case cs of [] \<Rightarrow> 0 | c # cs' \<Rightarrow>
     if c = 0x2D then - int (num_value 10 cs') else int (num_value 10 cs))"

text \<open>Integer directives: the conversion letter, whether it is long, and its length.\<close>

definition int_directive :: "u8 \<Rightarrow> u8 \<Rightarrow> u8 \<Rightarrow> (u8 \<times> bool \<times> nat) option" where
  "int_directive c0 c1 c2 =
     (let letters = cstr ''dux'' in
      if c0 \<in> set letters then Some (c0, False, 1)
      else if c0 = ch CHR ''l'' \<and> c1 \<in> set letters then Some (c1, True, 2)
      else if c0 = ch CHR ''l'' \<and> c1 = ch CHR ''l'' \<and> c2 \<in> set letters then Some (c2, True, 3)
      else None)"

definition int_text :: "u8 \<Rightarrow> bool \<Rightarrow> u64 \<Rightarrow> u8 list" where
  "int_text letter long w =
     (if letter = ch CHR ''d'' then show_int (if long then sint w else sint (ucast w :: u32))
      else num_str (if letter = ch CHR ''u'' then 10 else 16) (if long then unat w else unat (ucast w :: u32)))"

definition ptr_text :: "u64 \<Rightarrow> u8 list" where
  "ptr_text x = cstr ''0x'' @ map (\<lambda>k. digits ! unat (drop_bit (60 - 4 * k) x AND 15)) [0..<16]"

definition directive_text :: "u8 \<Rightarrow> u8 \<Rightarrow> u8 \<Rightarrow> vararg list \<Rightarrow> (u8 list \<times> nat \<times> vararg list) option" where
  "directive_text c0 c1 c2 args =
     (case int_directive c0 c1 c2 of
        Some (letter, long, k) \<Rightarrow>
          map_option (\<lambda>(w, rest). (int_text letter long w, k, rest)) (va_word args)
      | None \<Rightarrow>
          if c0 = ch CHR ''p'' then map_option (\<lambda>(w, rest). (ptr_text w, 1, rest)) (va_word args)
          else if c0 = ch CHR ''c'' then map_option (\<lambda>(w, rest). (cons_bytes (ucast w), 1, rest)) (va_word args)
          else if c0 = ch CHR ''s'' then
            map_option (\<lambda>(p, rest). (case p of None \<Rightarrow> cstr ''(null)'' | Some s \<Rightarrow> s, 1, rest)) (va_str args)
          else if c0 = ch CHR ''%'' then Some ([c0], 1, args)
          else Some ([ch CHR ''%'', c0], 1, args))"

function render :: "u8 list \<Rightarrow> vararg list \<Rightarrow> u8 list option" where
  "render [] args = Some []"
| "render (cx # f) args =
     (if cx = 0 then Some []
      else if cx \<noteq> ch CHR ''%'' then map_option (Cons cx) (render f args)
      else if byte_at f 0 = 0 then Some []
      else (case directive_text (byte_at f 0) (byte_at f 1) (byte_at f 2) args of
              None \<Rightarrow> None
            | Some (bs, k, rest) \<Rightarrow> map_option ((@) bs) (render (drop k f) rest)))"
  by pat_completeness auto
termination
  by (relation "measure (\<lambda>(f, args). length f)") auto

text \<open>Sending a list of bytes, one \<open>uart_putc\<close> after the other.\<close>

definition send :: "u8 list \<Rightarrow> uart_dev \<Rightarrow> uart_dev" where
  "send bs u = fold uart_putc bs u"

declare num_str.simps [simp del]

section \<open>Sending\<close>

lemma send_Nil [simp]: "send [] u = u"
  by (simp add: send_def)

lemma send_append: "send (xs @ ys) u = send ys (send xs u)"
  by (simp add: send_def)

lemma send_single: "send [b] u = uart_putc b u"
  by (simp add: send_def)

lemma line_ready_send [simp]: "line_ready (send bs u) = line_ready u"
  by (induction bs arbitrary: u) (simp_all add: send_def)

lemma tx_sent_send: "line_ready u \<Longrightarrow> tx_sent (send bs u) = tx_sent u @ bs"
  by (induction bs arbitrary: u) (simp_all add: send_def)

lemma consputc_send: "consputc c u = send (cons_bytes c) u"
  by (simp add: consputc_def cons_bytes_def send_def)

lemma cons_bytes_byte [simp]: "cons_bytes (ucast b) = [b]" for b :: u8
proof -
  have "unat (ucast b :: i32) = unat b" and "unat b < 256"
    by (simp_all add: unsigned_ucast_eq take_bit_eq_mod order_less_le_trans [OF unsigned_less])
  then have "unat (ucast b :: i32) \<noteq> unat (0x100 :: i32)" by simp
  then have "(ucast b :: i32) \<noteq> 0x100" by metis
  moreover have "ucast (ucast b :: i32) = b"
    by (rule bit_word_eqI) (auto simp: bit_simps)
  ultimately show ?thesis by (simp add: cons_bytes_def BACKSPACE_def)
qed

lemma fold_consputc: "fold (\<lambda>b u. consputc (ucast b) u) bs u = send bs u" for bs :: "u8 list"
  by (induction bs arbitrary: u) (simp_all add: send_def consputc_send)

section \<open>Numerals\<close>

lemma num_str_length: "2 \<le> b \<Longrightarrow> n < b ^ k \<Longrightarrow> 0 < k \<Longrightarrow> length (num_str b n) \<le> k"
proof (induction b n arbitrary: k rule: num_str.induct)
  case (1 b n)
  show ?case
  proof (cases "n < b")
    case True
    with 1 show ?thesis by (simp add: num_str.simps [of b n])
  next
    case False
    obtain k' where k: "k = Suc k'" using 1 by (cases k) auto
    have "n div b < b ^ k'" using 1 k by (simp add: less_mult_imp_div_less mult.commute)
    moreover have "0 < k'" using False 1 k by (cases k') auto
    ultimately have "length (num_str b (n div b)) \<le> k'" using 1 False by simp
    with 1 False k show ?thesis by (simp add: num_str.simps [of b n])
  qed
qed

lemma digits_table:
  assumes "d < 16"
  shows "digit_value (digits ! d) = d" and "digits ! d \<noteq> 0x2D"
proof -
  have "list_all (\<lambda>d. digit_value (digits ! d) = d \<and> digits ! d \<noteq> 0x2D) [0..<16]"
    by code_simp
  with assms show "digit_value (digits ! d) = d" and "digits ! d \<noteq> 0x2D"
    by (auto simp: list_all_iff)
qed

lemma num_value_num_str: "2 \<le> b \<Longrightarrow> b \<le> 16 \<Longrightarrow> num_value b (num_str b n) = n"
proof (induction b n rule: num_str.induct)
  case (1 b n)
  show ?case
  proof (cases "n < b")
    case True
    with 1 show ?thesis by (simp add: num_str.simps [of b n] num_value_def digits_table)
  next
    case False
    moreover have "n mod b < 16" using 1 mod_less_divisor [of b n] by linarith
    ultimately show ?thesis
      using 1 by (simp add: num_str.simps [of b n] num_value_def digits_table)
  qed
qed

lemma num_str_digits: "2 \<le> b \<Longrightarrow> b \<le> 16 \<Longrightarrow> c \<in> set (num_str b n) \<Longrightarrow> \<exists>d < 16. c = digits ! d"
proof (induction b n rule: num_str.induct)
  case (1 b n)
  have "n mod b < 16" using 1 mod_less_divisor [of b n] by linarith
  with 1 show ?case
    by (cases "n < b") (auto simp: num_str.simps [of b n] intro: exI [of _ n])
qed

lemma num_str_nonempty: "2 \<le> b \<Longrightarrow> num_str b n \<noteq> []"
  by (simp add: num_str.simps [of b n])

lemma num_str_no_minus: "num_str 10 n = c # cs \<Longrightarrow> c \<noteq> 0x2D"
  using num_str_digits [of 10 c n] digits_table(2) by fastforce

lemma int_value_show_int: "int_value (show_int i) = i"
proof (cases "i < 0")
  case True
  have "num_value 10 (num_str 10 (nat (- i))) = nat (- i)"
    by (rule num_value_num_str) simp_all
  with True show ?thesis unfolding show_int_def int_value_def by simp
next
  case False
  have v: "num_value 10 (num_str 10 (nat i)) = nat i"
    by (rule num_value_num_str) simp_all
  show ?thesis
  proof (cases "num_str 10 (nat i)")
    case Nil
    then show ?thesis using num_str_nonempty [of 10 "nat i"] by simp
  next
    case (Cons c cs)
    with v False num_str_no_minus [OF Cons] show ?thesis
      unfolding show_int_def int_value_def by simp
  qed
qed

section \<open>printint and printptr\<close>

lemma printint_loop_num:
  "2 \<le> unat base \<Longrightarrow> unat base \<le> 16 \<Longrightarrow>
   length buf + length (num_str (unat base) (unat x)) \<le> 20 \<Longrightarrow>
   printint_loop x base buf = Some (buf @ rev (num_str (unat base) (unat x)))"
proof (induction x base buf rule: printint_loop.induct)
  case (1 x base buf)
  let ?b = "unat base"
  have b0: "base \<noteq> 0" using 1(2) by auto
  have m: "unat (x mod base) = unat x mod ?b" and d: "unat (x div base) = unat x div ?b"
    by (simp_all add: unat_mod unat_div)
  have mlt: "unat x mod ?b < 17" using 1(2,3) mod_less_divisor [of ?b "unat x"] by linarith
  have len: "length buf < 20" using 1(2,4) num_str_nonempty [of ?b "unat x"]
    by (cases "num_str ?b (unat x)") auto
  show ?case
  proof (cases "unat x < ?b")
    case True
    then have "unat (x div base) = 0" using d by simp
    then have "x div base = 0" by (simp add: unat_eq_zero)
    with True b0 m mlt len 1(2) show ?thesis
      by (subst printint_loop.simps) (simp add: digits_def num_str.simps [of ?b "unat x"])
  next
    case False
    then have "x div base \<noteq> 0"
      using d 1(2) by (metis div_greater_zero_iff le_numeral_extra(3) linorder_not_less unat_eq_zero zero_less_numeral order_less_le_trans)
    moreover from this have "printint_loop (x div base) base (buf @ [digits ! unat (x mod base)])
      = Some ((buf @ [digits ! unat (x mod base)]) @ rev (num_str ?b (unat (x div base))))"
      using 1 b0 m mlt len False d
      by (intro 1(1)) (simp_all add: digits_def num_str.simps [of ?b "unat x"])
    ultimately show ?thesis
      using False b0 m mlt len 1(2) d
      by (subst printint_loop.simps) (simp add: digits_def num_str.simps [of ?b "unat x"])
  qed
qed

text \<open>With base 10 or 16 no 64-bit value fills more than the 20 bytes of the buffer.\<close>

lemma unat_minus_sint:
  fixes xx :: u64
  assumes "sint xx < 0"
  shows "unat (- xx) = nat (- sint xx)" and "unat (- xx) \<le> 9223372036854775808"
proof -
  have lo: "- 9223372036854775808 \<le> sint xx" using sint_ge [of xx] by simp
  have "- xx = word_of_int (- sint xx)" by simp
  then have "uint (- xx) = (- sint xx) mod 2 ^ 64" by (simp only: uint_word_of_int) simp
  also have "\<dots> = - sint xx" using assms lo by simp
  finally show u: "unat (- xx) = nat (- sint xx)" by (simp add: unat_eq_nat_uint)
  show "unat (- xx) \<le> 9223372036854775808" using u lo by linarith
qed

lemma nonneg_sint: "0 \<le> sint xx \<Longrightarrow> nat (sint xx) = unat xx" for xx :: u64
proof -
  assume "0 \<le> sint xx"
  moreover have "sint xx < 2 ^ 63" using sint_lt [of xx] by simp
  moreover have "uint (word_of_int (sint xx) :: u64) = sint xx mod 2 ^ 64"
    by (simp only: uint_word_of_int) simp
  ultimately have "uint xx = sint xx" by simp
  then show ?thesis by (simp add: unat_eq_nat_uint)
qed

lemma printint_10: "printint xx 10 sign u =
    Ok () (send (if sign then show_int (sint xx) else num_str 10 (unat xx)) u)"
proof (cases "sign \<and> sint xx < 0")
  case True
  then have v: "unat (- xx) = nat (- sint xx)" "unat (- xx) < 10 ^ 19"
    using unat_minus_sint [of xx] by simp_all
  then have l: "length (num_str 10 (unat (- xx))) \<le> 19" by (intro num_str_length) simp_all
  then have "printint_loop (- xx) 10 [] = Some (rev (num_str 10 (unat (- xx))))"
    using printint_loop_num [of 10 "[]" "- xx"] by simp
  with True l v show ?thesis
    by (simp add: printint_def show_int_def fold_consputc [symmetric] del: fold_simps)
next
  case False
  have "length (num_str 10 (unat xx)) \<le> 20"
    by (intro num_str_length) (use unat_lt_2p64 [of xx] in simp_all)
  then have "printint_loop xx 10 [] = Some (rev (num_str 10 (unat xx)))"
    using printint_loop_num [of 10 "[]" xx] by simp
  with False show ?thesis
    by (auto simp: printint_def show_int_def fold_consputc nonneg_sint)
qed

lemma printint_16: "printint xx 16 False u = Ok () (send (num_str 16 (unat xx)) u)"
proof -
  have "length (num_str 16 (unat xx)) \<le> 16"
    by (intro num_str_length) (use unat_lt_2p64 [of xx] in simp_all)
  then have "printint_loop xx 16 [] = Some (rev (num_str 16 (unat xx)))"
    using printint_loop_num [of 16 "[]" xx] by simp
  then show ?thesis by (simp add: printint_def fold_consputc)
qed

lemma printptr_loop_send:
  "printptr_loop k x u = send (map (\<lambda>j. digits ! unat (drop_bit 60 (push_bit (4 * j) x))) [0..<k]) u"
proof (induction k arbitrary: x u)
  case 0
  then show ?case by simp
next
  case (Suc k)
  have "map (\<lambda>j. digits ! unat (drop_bit 60 (push_bit (4 * j) x))) [0..<Suc k] =
      digits ! unat (drop_bit 60 x) # map (\<lambda>j. digits ! unat (drop_bit 60 (push_bit (4 * j) (push_bit 4 x)))) [0..<k]"
    by (simp add: map_upt_Suc add.commute del: upt_Suc)
  then show ?case using Suc.IH [of "push_bit 4 x"] by (simp add: send_def consputc_send del: upt_Suc)
qed

lemma nibble: "j < 16 \<Longrightarrow> drop_bit 60 (push_bit (4 * j) x) = drop_bit (60 - 4 * j) x AND 15" for x :: u64
proof -
  assume j: "j < 16"
  have m: "(15 :: u64) = mask 4" by (simp add: mask_eq_exp_minus_1)
  show ?thesis
    unfolding m by (rule bit_word_eqI) (use j in \<open>auto simp: bit_simps add_ac dest: bit_imp_le_length\<close>)
qed

lemma printptr_send: "printptr x u = send (ptr_text x) u"
proof -
  have "map (\<lambda>j. digits ! unat (drop_bit 60 (push_bit (4 * j) x))) [0..<16] =
      map (\<lambda>k. digits ! unat (drop_bit (60 - 4 * k) x AND 15)) [0..<16]"
    by (rule map_cong) (simp_all add: nibble)
  moreover have "consputc 0x78 (consputc 0x30 u) = send (cstr ''0x'') u"
    by (simp add: consputc_def BACKSPACE_def cstr_def send_def)
  ultimately show ?thesis
    by (simp only: printptr_def printptr_loop_send ptr_text_def send_append mult_numeral_left_semiring_numeral
        num.simps numeral_times_numeral semiring_norm)
qed

section \<open>printf\<close>

lemma ch_simps [simp]:
  "ch CHR ''d'' = 0x64" "ch CHR ''l'' = 0x6C" "ch CHR ''u'' = 0x75" "ch CHR ''x'' = 0x78"
  "ch CHR ''p'' = 0x70" "ch CHR ''c'' = 0x63" "ch CHR ''s'' = 0x73" "ch CHR ''%'' = 0x25"
  by (simp_all add: ch_def)

lemma cstr_dux: "set (cstr ''dux'') = {0x64, 0x75, 0x78}"
  by (simp add: cstr_def insert_commute)

lemma printf_int_10: "printf_int xx 10 sign k rest u =
    Ok (k, rest) (send (if sign then show_int (sint xx) else num_str 10 (unat xx)) u)"
  by (simp add: printf_int_def printint_10)

lemma printf_int_16: "printf_int xx 16 False k rest u = Ok (k, rest) (send (num_str 16 (unat xx)) u)"
  by (simp add: printf_int_def printint_16)

lemma sint_scast_32: "sint (scast x :: u64) = sint x" for x :: u32
  by (simp add: sint_up_scast is_up)

lemma cons_bytes_percent [simp]: "cons_bytes 0x25 = [0x25]"
  by (simp add: cons_bytes_def BACKSPACE_def)

lemma printf_conv_int:
  assumes "int_directive c0 c1 c2 = Some (letter, long, k)"
  shows "printf_conv c0 c1 c2 args u =
     (case va_word args of
        Some (w, rest) \<Rightarrow> Ok (k, rest) (send (int_text letter long w) u) | None \<Rightarrow> Err Fault u)"
proof -
  from assms consider "c0 = letter" "\<not> long" "k = 1" | "c0 = 0x6C" "c1 = letter" "long" "k = 2"
    | "c0 = 0x6C" "c1 = 0x6C" "c2 = letter" "long" "k = 3"
    by (auto simp: int_directive_def Let_def split: if_splits)
  moreover from assms have "letter = 0x64 \<or> letter = 0x75 \<or> letter = 0x78"
    by (auto simp: int_directive_def cstr_dux Let_def split: if_splits)
  ultimately show ?thesis
    by cases (elim disjE; simp add: printf_conv_def int_text_def printf_int_10 printf_int_16
        sint_scast_32 unat_ucast_32_64 cong: option.case_cong)+
qed

lemma printf_conv_text:
  "printf_conv c0 c1 c2 args u =
     (case directive_text c0 c1 c2 args of
        Some (bs, k, rest) \<Rightarrow> Ok (k, rest) (send bs u) | None \<Rightarrow> Err Fault u)"
proof (cases "int_directive c0 c1 c2")
  case None
  then have "c0 \<noteq> 0x64" "c0 \<noteq> 0x75" "c0 \<noteq> 0x78"
    and "c0 = 0x6C \<longrightarrow> c1 \<noteq> 0x64 \<and> c1 \<noteq> 0x75 \<and> c1 \<noteq> 0x78"
    and "c0 = 0x6C \<longrightarrow> c1 = 0x6C \<longrightarrow> c2 \<noteq> 0x64 \<and> c2 \<noteq> 0x75 \<and> c2 \<noteq> 0x78"
    by (simp_all add: int_directive_def cstr_dux Let_def split: if_splits)
  then show ?thesis
    using None
    by (cases "va_word args"; cases "va_str args")
       (simp_all add: printf_conv_def directive_text_def Let_def printptr_send fold_consputc
         consputc_send send_append [symmetric] split: prod.splits, blast+)
next
  case (Some d)
  then show ?thesis
    by (cases d; cases "va_word args") (simp_all add: printf_conv_int directive_text_def split: prod.splits)
qed

lemma directive_text_c2: "directive_text c0 0 c2 args = directive_text c0 0 0 args"
  by (simp add: directive_text_def int_directive_def cstr_dux Let_def)

lemma printf_loop_render:
  "case render f args of
     Some bs \<Rightarrow> printf_loop f args u = Ok () (send bs u)
   | None \<Rightarrow> \<exists>u'. printf_loop f args u = Err Fault u'"
proof (induction f args u rule: printf_loop.induct)
  case (1 args u)
  then show ?case by simp
next
  case (2 cx f args u)
  let ?c0 = "byte_at f 0" and ?c1 = "byte_at f 1"
  let ?c2 = "if ?c1 \<noteq> 0 then byte_at f 2 else 0"
  have dt: "directive_text ?c0 ?c1 ?c2 args = directive_text ?c0 ?c1 (byte_at f 2) args"
    using directive_text_c2 [of ?c0 "byte_at f 2" args] by auto
  consider "cx = 0" | "cx \<noteq> 0" "cx \<noteq> 0x25" | "cx = 0x25" "?c0 = 0" | "cx = 0x25" "?c0 \<noteq> 0"
    by blast
  then show ?case
  proof cases
    case 2
    then show ?thesis
      using "2.IH"(1) by (auto simp: consputc_send send_append [symmetric] split: option.splits)
  next
    case 4
    show ?thesis
    proof (cases "directive_text ?c0 ?c1 (byte_at f 2) args")
      case None
      with 4 dt show ?thesis by (simp add: printf_conv_text Let_def)
    next
      case (Some r)
      obtain bs k rest where r: "r = (bs, k, rest)" by (cases r)
      have conv: "printf_conv ?c0 ?c1 ?c2 args u = Ok (k, rest) (send bs u)"
        using Some r dt by (simp add: printf_conv_text)
      have "case render (drop k f) rest of
          Some bs' \<Rightarrow> printf_loop (drop k f) rest (send bs u) = Ok () (send bs' (send bs u))
        | None \<Rightarrow> \<exists>u'. printf_loop (drop k f) rest (send bs u) = Err Fault u'"
        using "2.IH"(2) [of ?c0 ?c1 ?c2 "(k, rest)" "send bs u"] 4 conv
        by (simp only: fst_conv snd_conv ch_simps) simp
      with Some r 4 conv show ?thesis
        by (auto simp: Let_def send_append split: option.splits)
    qed
  qed (simp_all add: Let_def)
qed

lemma printf_run:
  assumes "cpu_wf s" and "lock_free s PrintLock" and "render (cstr fmt) args = Some bs"
  shows "printf fmt args s = Ok 0 ((settle s)\<lparr>k_uart := send bs (k_uart s)\<rparr>)"
proof -
  have "printf_loop (cstr fmt) args (k_uart s) = Ok () (send bs (k_uart s))"
    using printf_loop_render [of "cstr fmt" args "k_uart s"] assms(3) by simp
  then show ?thesis
    using assms by (simp add: printf_def exec_simps on_uart_def acquire_free release_acq)
qed

text \<open>\<open>panic\<close> prints even when the caller holds the console lock, and never returns.\<close>

lemma render_plain:
  "\<forall>c \<in> set f. c \<noteq> 0 \<and> c \<noteq> 0x25 \<Longrightarrow> render f args = Some f"
  by (induction f) auto

lemma render_panic: "render (cstr ''panic: '') [] = Some (cstr ''panic: '')"
  by (rule render_plain) (simp add: cstr_def)

lemma render_str_nl: "render (cstr ''%s\<newline>'') [VStr (Some m)] = Some (m @ [0x0A])"
proof -
  have "cstr ''%s\<newline>'' = [0x25, 0x73, 0x0A]" by (simp add: cstr_def)
  then show ?thesis
    by (simp add: byte_at_def directive_text_def int_directive_def cstr_dux Let_def va_str_def)
qed

text \<open>C31. \<open>panic\<close> prints its message even when the caller holds the console lock, and never returns.\<close>

theorem panic_reports:
  assumes "cpu_wf s"
  shows "\<exists>s'. panic msg s = Err Spin s' \<and> k_uart s' = send (cstr ''panic: '' @ cstr msg @ [0x0A]) (k_uart s)"
proof -
  let ?s = "s\<lparr>k_locks := (k_locks s)(PrintLock := (k_locks s PrintLock)\<lparr>lk_locked := 0\<rparr>)\<rparr>"
  have one: "one_cpu ?s" and wf: "cpu_wf ?s"
    using assms by (simp_all add: cpu_wf_def one_cpu_def cpu0_def)
  have loop: "printf_loop (cstr ''panic: '') [] u = Ok () (send (cstr ''panic: '') u)" for u
    using printf_loop_render [of "cstr ''panic: ''" "[]" u] render_panic by simp
  let ?t = "rel PrintLock ((acq PrintLock ?s)\<lparr>k_uart := send (cstr ''panic: '') (k_uart s)\<rparr>)"
  have first: "printf ''panic: '' [] ?s = Ok 0 ?t"
    using one wf loop acquire_run [OF one, of PrintLock]
    by (simp add: printf_def exec_simps on_uart_def release_acq)
  have t: "cpu_wf ?t" "lock_free ?t PrintLock"
    using wf by (simp_all add: cpu_wf_rel)
  have second: "printf ''%s\<newline>'' [VStr (Some (cstr msg))] ?t =
      Ok 0 ((settle ?t)\<lparr>k_uart := send (cstr msg @ [0x0A]) (k_uart ?t)\<rparr>)"
    by (rule printf_run [OF t render_str_nl])
  show ?thesis
    using first second by (simp add: panic_def lock_write_def exec_simps send_append)
qed

theorem panic_reports_witness:
  "\<forall>lm. \<exists>s'. panic ''boom'' (acq PrintLock (boot_state lm)) = Err Spin s' \<and> k_uart s' = send (cstr ''panic: boom\<newline>'') zero_uart"
proof
  fix lm
  have "cpu_wf (acq PrintLock (boot_state lm))"
    by (intro cpu_wf_acq) (simp add: cpu_wf_def one_cpu_def boot_state_def cpu0_def NCPU_def zero_cpu_def zero_csrs_def r_tp_def)
  then show "\<exists>s'. panic ''boom'' (acq PrintLock (boot_state lm)) = Err Spin s' \<and> k_uart s' = send (cstr ''panic: boom\<newline>'') zero_uart"
    using panic_reports [of "acq PrintLock (boot_state lm)" "''boom''"] by (simp add: boot_state_def cstr_def)
qed

lemma kassert_run: "kassert c s = (if c then Ok () s else Err (Panic ''assertion failed'') s)"
  by (simp add: kassert_def exec_simps)

section \<open>Formats of the kernel's messages\<close>

text \<open>Formats with plain text around one \<open>%d\<close>.\<close>

definition plain :: "string \<Rightarrow> bool" where
  "plain f \<longleftrightarrow> list_all (\<lambda>c. c \<noteq> 0 \<and> c \<noteq> 0x25) (cstr f)"

lemma render_plain_append:
  "list_all (\<lambda>c. c \<noteq> 0 \<and> c \<noteq> 0x25) f \<Longrightarrow> render (f @ g) args = map_option ((@) f) (render g args)"
  by (induction f) (cases "render g args"; simp)+

lemma render_plain_text: "plain f \<Longrightarrow> render (cstr f) args = Some (cstr f)"
  using render_plain [of "cstr f"] by (simp add: plain_def list_all_iff)

lemma ucast_scast_32 [simp]: "ucast (scast n :: u64) = n" for n :: i32
  by (rule bit_word_eqI) (simp add: bit_simps)

lemma render_d:
  assumes "plain a" and "plain b"
  shows "render (cstr (a @ ''%d'' @ b)) [VWord (scast n)] = Some (cstr a @ show_int (sint (n :: i32)) @ cstr b)"
proof -
  have "cstr (a @ ''%d'' @ b) = cstr a @ 0x25 # 0x64 # cstr b" by (simp add: cstr_def)
  moreover have "render (0x25 # 0x64 # cstr b) [VWord (scast n)] = Some (show_int (sint n) @ cstr b)"
    using render_plain_text [OF assms(2), of "[]"]
    by (simp add: byte_at_def directive_text_def int_directive_def cstr_dux Let_def va_word_def int_text_def)
  ultimately show ?thesis using assms(1) by (simp add: render_plain_append plain_def)
qed

section \<open>Properties\<close>

text \<open>C30. \<open>printint\<close> prints the value it is given, in at most the 20 bytes of its buffer: reading the
  digits back gives the argument, signed or unsigned in base 10 and unsigned in base 16, down to the
  most negative number.\<close>

theorem printint_roundtrip:
  "\<exists>ds hs. printint xx 10 sign u = Ok () (send ds u) \<and> int_value ds = (if sign then sint xx else int (unat xx)) \<and> length ds \<le> 20
     \<and> printint xx 16 False u = Ok () (send hs u) \<and> num_value 16 hs = unat xx \<and> length hs \<le> 16"
proof (intro exI conjI)
  let ?ds = "if sign then show_int (sint xx) else num_str 10 (unat xx)"
  show "printint xx 10 sign u = Ok () (send ?ds u)" by (rule printint_10)
  show "printint xx 16 False u = Ok () (send (num_str 16 (unat xx)) u)" by (rule printint_16)
  show "int_value ?ds = (if sign then sint xx else int (unat xx))"
    using int_value_show_int [of "sint xx"] int_value_show_int [of "int (unat xx)"] by (simp add: show_int_def)
  show "num_value 16 (num_str 16 (unat xx)) = unat xx" by (rule num_value_num_str) simp_all
  have l: "length (num_str 10 (unat xx)) \<le> 20" "length (num_str 16 (unat xx)) \<le> 16"
    by (intro num_str_length; use unat_lt_2p64 [of xx] in simp)+
  have "length (num_str 10 (nat (- sint xx))) \<le> 19" if "sint xx < 0"
    using unat_minus_sint [OF that] by (intro num_str_length) simp_all
  then show "length ?ds \<le> 20" using l(1) by (auto simp: show_int_def nonneg_sint)
  show "length (num_str 16 (unat xx)) \<le> 16" by (rule l(2))
qed

text \<open>C29. \<open>printf\<close> prints the rendering of its format and nothing else, and leaves the console lock,
  the interrupt state and every other part of the kernel as they were; when an argument is missing
  it reads past them.\<close>

theorem printf_renders:
  assumes "cpu_wf s" and "lock_free s PrintLock"
  shows "case render (cstr fmt) args of
      Some bs \<Rightarrow> printf fmt args s = Ok 0 ((settle s)\<lparr>k_uart := send bs (k_uart s)\<rparr>) \<and> intr_get (k_csr (settle s)) = intr_get (k_csr s)
        \<and> (line_ready (k_uart s) \<longrightarrow> tx_sent (send bs (k_uart s)) = tx_sent (k_uart s) @ bs)
    | None \<Rightarrow> \<exists>s'. printf fmt args s = Err Fault s'"
proof (cases "render (cstr fmt) args")
  case None
  then obtain u where "printf_loop (cstr fmt) args (k_uart s) = Err Fault u"
    using printf_loop_render [of "cstr fmt" args "k_uart s"] by auto
  then show ?thesis using None assms by (simp add: printf_def exec_simps on_uart_def acquire_free)
next
  case (Some bs)
  then show ?thesis using printf_run [OF assms Some] tx_sent_send by simp
qed

theorem printf_renders_witness:
  "\<forall>lm. (\<exists>s. printf ''n = %d'' [VWord 42] (boot_state lm) = Ok 0 s \<and> tx_sent (k_uart s) = cstr ''n = 42'')
   \<and> (\<exists>s. printf ''n = %d'' [] (boot_state lm) = Err Fault s)"
proof
  fix lm
  have "cpu_wf (boot_state lm)" "lock_free (boot_state lm) PrintLock"
    by (simp_all add: cpu_wf_def one_cpu_def boot_state_def cpu0_def NCPU_def zero_cpu_def zero_csrs_def r_tp_def lock_free_def zero_lock_def)
  note p = printf_renders [OF this]
  have u: "line_ready (k_uart (boot_state lm))" "tx_sent (k_uart (boot_state lm)) = []" by (simp_all add: boot_state_def zero_uart_def line_ready_def)
  have "render (cstr ''n = %d'') [VWord 42] = Some (cstr ''n = 42'')" "render (cstr ''n = %d'') [] = None"
    by (simp_all add: cstr_def ch_def byte_at_def directive_text_def int_directive_def Let_def va_word_def int_text_def show_int_def num_str.simps digits_def)
  then show "(\<exists>s. printf ''n = %d'' [VWord 42] (boot_state lm) = Ok 0 s \<and> tx_sent (k_uart s) = cstr ''n = 42'')
   \<and> (\<exists>s. printf ''n = %d'' [] (boot_state lm) = Err Fault s)"
    using p [of "''n = %d''" "[VWord 42]"] p [of "''n = %d''" "[]"] u by simp
qed

end
