(* ===== verification/Kalloc.thy ===== *)
theory Kalloc
  imports Printf
begin

text \<open>
  \<open>kernel/mm/kalloc.c\<close>: the physical page allocator. Free pages form a linked list threaded
  through their own first words; \<open>kmem.freelist\<close> is its head and \<open>kmem.lock\<close> protects it.

  The abstraction is a stack of pages: \<open>kmem_rep s xs\<close> says that the list from the head
  visits exactly \<open>xs\<close>, without repetition, all of them pages between \<open>end\<close> and \<open>PHYSTOP\<close>.
  The locale \<open>page_pool\<close> is the contract the page-table and process code use; it is
  interpreted on \<open>alloc_page\<close> and \<open>free_page\<close>.

  The lemmas: both operations refine push and pop on the stack and keep the invariant;
  the error branches; initialisation puts exactly the pages above \<open>end\<close> on the list;
  \<open>alloc_pages\<close> hands out a page it leaves on the list, and a second \<open>free_page\<close> of a
  page makes the allocator hand it out twice.
\<close>

section \<open>Definitions\<close>

definition mem_write :: "(memory \<Rightarrow> memory) \<Rightarrow> kstate \<Rightarrow> (kstate, unit) res" where
  "mem_write f = modifyM (\<lambda>s. s\<lparr>k_mem := f (k_mem s)\<rparr>)"

definition set_freelist :: "(kstate \<Rightarrow> u64) \<Rightarrow> kstate \<Rightarrow> (kstate, unit) res" where
  "set_freelist f = modifyM (\<lambda>s. s\<lparr>k_freelist := f s\<rparr>)"

definition free_page :: "u64 \<Rightarrow> kstate \<Rightarrow> (kstate, unit) res" where
  "free_page page =
     bindM (readM (\<lambda>s. l_end (k_link s))) (\<lambda>end.
     if page mod PGSIZE \<noteq> 0 \<or> page < end \<or> PHYSTOP \<le> page then fail (Panic ''free_page'') else
     seqM (mem_write (memset page 1 4096))
    (seqM (acquire KmemLock)
    (seqM (modifyM (\<lambda>s. s\<lparr>k_mem := store64 (k_mem s) page (k_freelist s)\<rparr>))
    (seqM (set_freelist (\<lambda>_. page))
          (release KmemLock)))))"

definition alloc_page :: "kstate \<Rightarrow> (kstate, u64) res" where
  "alloc_page =
     seqM (acquire KmemLock)
    (bindM (readM k_freelist) (\<lambda>r.
     seqM (whenM (r \<noteq> 0) (set_freelist (\<lambda>s. load64 (k_mem s) r)))
    (seqM (release KmemLock)
    (seqM (whenM (r \<noteq> 0) (mem_write (memset r 5 4096)))
          (if r = 0 then fail (Panic ''alloc_page'') else ret r)))))"

text \<open>\<open>for(; p + PGSIZE <= pa_end; p += PGSIZE) free_page(p);\<close> with pointer overflow, which is
  undefined, as \<open>Fault\<close>.\<close>

function freerange_loop :: "u64 \<Rightarrow> u64 \<Rightarrow> kstate \<Rightarrow> (kstate, unit) res" where
  "freerange_loop p pa_end s =
     (if 18446744073709551616 \<le> unat p + 4096 then Err Fault s
      else if p + PGSIZE \<le> pa_end then
        (case free_page p s of Ok _ s' \<Rightarrow> freerange_loop (p + PGSIZE) pa_end s' | Err e s' \<Rightarrow> Err e s')
      else Ok () s)"
  by pat_completeness auto
termination
  by (relation "measure (\<lambda>(p, pa_end, s). unat pa_end - unat p)")
     (auto simp: PGSIZE_def word_le_nat_alt unat_add_u64)

definition freerange :: "u64 \<Rightarrow> u64 \<Rightarrow> kstate \<Rightarrow> (kstate, unit) res" where
  "freerange pa_start pa_end = freerange_loop (PGROUNDUP pa_start) pa_end"

definition pmm_init :: "kstate \<Rightarrow> (kstate, unit) res" where
  "pmm_init =
     seqM (initlock KmemLock ''kmem'')
    (bindM (readM (\<lambda>s. l_end (k_link s))) (\<lambda>end. freerange end PHYSTOP))"

text \<open>\<open>for(int i = 1; i < n; i++)\<close>: the iterations left are counted down. \<open>None\<close> is the early
  \<open>return 0\<close>.\<close>

fun alloc_pages_loop :: "nat \<Rightarrow> kstate \<Rightarrow> kstate option \<times> kstate" where
  "alloc_pages_loop 0 s = (Some s, s)"
| "alloc_pages_loop (Suc k) s =
     (if k_freelist s = 0 then (None, s)
      else alloc_pages_loop k (s\<lparr>k_freelist := load64 (k_mem s) (k_freelist s)\<rparr>))"

definition alloc_pages :: "i32 \<Rightarrow> kstate \<Rightarrow> (kstate, u64) res" where
  "alloc_pages n s =
     (let r = k_freelist s; (ok, s') = alloc_pages_loop (nat (sint n - 1)) s
      in case ok of None \<Rightarrow> Ok 0 s' | Some _ \<Rightarrow> Ok r s')"

definition store32 :: "memory \<Rightarrow> u64 \<Rightarrow> u32 \<Rightarrow> memory" where
  "store32 m a v = m(a := ucast v, a + 1 := ucast (drop_bit 8 v),
     a + 2 := ucast (drop_bit 16 v), a + 3 := ucast (drop_bit 24 v))"

definition load32 :: "memory \<Rightarrow> u64 \<Rightarrow> u32" where
  "load32 m a = ucast (m a) OR push_bit 8 (ucast (m (a + 1))) OR push_bit 16 (ucast (m (a + 2)))
     OR push_bit 24 (ucast (m (a + 3)))"

definition test_physical_memory :: "kstate \<Rightarrow> (kstate, unit) res" where
  "test_physical_memory =
     bindM alloc_page (\<lambda>page1.
     bindM alloc_page (\<lambda>page2.
     seqM (kassert (page1 \<noteq> page2))
    (seqM (kassert (page1 AND 0xFFF = 0))
    (seqM (mem_write (\<lambda>m. store32 m page1 0x12345678))
    (bindM (readM (\<lambda>s. load32 (k_mem s) page1)) (\<lambda>v.
     seqM (kassert (v = 0x12345678))
    (seqM (free_page page1)
    (bindM alloc_page (\<lambda>page3.
     seqM (free_page page2)
          (free_page page3))))))))))"

section \<open>The abstraction: a stack of free pages\<close>

text \<open>What the linker script guarantees of the addresses it assigns.\<close>

definition link_wf :: "linkmap \<Rightarrow> bool" where
  "link_wf lm \<longleftrightarrow> KERNBASE < l_etext lm \<and> l_etext lm \<le> l_end lm \<and> l_end lm \<le> PHYSTOP
     \<and> pg_aligned (l_etext lm) \<and> pg_aligned (l_trampoline lm)
     \<and> KERNBASE \<le> l_trampoline lm \<and> l_trampoline lm < l_etext lm"

definition page_ok :: "linkmap \<Rightarrow> u64 \<Rightarrow> bool" where
  "page_ok lm p \<longleftrightarrow> pg_aligned p \<and> l_end lm \<le> p \<and> p < PHYSTOP"

fun chain :: "memory \<Rightarrow> u64 \<Rightarrow> u64 list \<Rightarrow> bool" where
  "chain m p [] \<longleftrightarrow> p = 0"
| "chain m p (x # xs) \<longleftrightarrow> p = x \<and> x \<noteq> 0 \<and> chain m (load64 m x) xs"

definition kmem_rep :: "kstate \<Rightarrow> u64 list \<Rightarrow> bool" where
  "kmem_rep s xs \<longleftrightarrow> link_wf (k_link s) \<and> cpu_wf s \<and> lock_free s KmemLock
     \<and> chain (k_mem s) (k_freelist s) xs \<and> distinct xs \<and> (\<forall>p \<in> set xs. page_ok (k_link s) p)"

text \<open>The effect of the two operations on the state.\<close>

definition allocated :: "u64 \<Rightarrow> kstate \<Rightarrow> kstate" where
  "allocated p s = (settle s)
     \<lparr>k_mem := memset p 5 4096 (k_mem s), k_freelist := load64 (k_mem s) p\<rparr>"

definition freed :: "u64 \<Rightarrow> kstate \<Rightarrow> kstate" where
  "freed p s = (settle s)
     \<lparr>k_mem := store64 (memset p 1 4096 (k_mem s)) p (k_freelist s), k_freelist := p\<rparr>"

definition page_range :: "u64 \<Rightarrow> nat \<Rightarrow> u64 list" where
  "page_range a n = map (\<lambda>k. a + 4096 * of_nat k) [0..<n]"

section \<open>Lemmas\<close>

lemma page_ok_aligned: "page_ok lm p \<Longrightarrow> pg_aligned p"
  by (simp add: page_ok_def)

lemma page_ok_nonzero: "link_wf lm \<Longrightarrow> page_ok lm p \<Longrightarrow> p \<noteq> 0"
  by (auto simp: page_ok_def link_wf_def KERNBASE_def)

lemma chain_same:
  "\<forall>p \<in> set xs. pg_aligned p \<and> same_page m m' p \<Longrightarrow> chain m' p xs = chain m p xs"
proof (induction xs arbitrary: p)
  case Nil
  then show ?case by simp
next
  case (Cons x xs)
  then have "load64 m x = load64 m' x" using load64_same_page [of m m' x 0] by (simp add: slot_0)
  with Cons show ?case by auto
qed

lemma kmem_rep_settle [simp]: "kmem_rep s xs \<Longrightarrow> kmem_rep (settle s) xs"
  by (simp add: kmem_rep_def)

lemma kmem_rep_same:
  assumes "kmem_rep s xs" and "k_link s' = k_link s" and "cpu_wf s'" and "lock_free s' KmemLock"
    and "k_freelist s' = k_freelist s" and "\<And>p. p \<in> set xs \<Longrightarrow> same_page (k_mem s) (k_mem s') p"
  shows "kmem_rep s' xs"
proof -
  have "\<forall>p \<in> set xs. pg_aligned p \<and> same_page (k_mem s) (k_mem s') p"
    using assms(1,6) by (auto simp: kmem_rep_def dest: page_ok_aligned)
  from chain_same [OF this] assms show ?thesis by (simp add: kmem_rep_def)
qed

lemma alloc_page_run:
  assumes "kmem_rep s (p # xs)"
  shows "alloc_page s = Ok p (allocated p s)" and "kmem_rep (allocated p s) xs"
proof -
  from assms have s: "link_wf (k_link s)" "cpu_wf s" "lock_free s KmemLock" "k_freelist s = p" "p \<noteq> 0"
    and c: "chain (k_mem s) (load64 (k_mem s) p) xs" and d: "p \<notin> set xs" "distinct xs"
    and ok: "page_ok (k_link s) p" "\<forall>q \<in> set xs. page_ok (k_link s) q"
    by (auto simp: kmem_rep_def)
  show "alloc_page s = Ok p (allocated p s)"
    using s by (simp add: alloc_page_def exec_simps set_freelist_def mem_write_def acquire_free
        release_acq allocated_def)
  have "\<forall>q \<in> set xs. pg_aligned q \<and> same_page (k_mem s) (memset p 5 4096 (k_mem s)) q"
    using d ok by (auto dest: page_ok_aligned intro!: same_page_sym [OF same_page_memset])
  from chain_same [OF this] c have "chain (memset p 5 4096 (k_mem s)) (load64 (k_mem s) p) xs"
    by simp
  then show "kmem_rep (allocated p s) xs"
    using s d ok by (simp add: kmem_rep_def allocated_def)
qed

lemma alloc_page_empty:
  assumes "kmem_rep s []"
  shows "alloc_page s = Err (Panic ''alloc_page'') (settle s)"
  using assms by (simp add: kmem_rep_def alloc_page_def exec_simps acquire_free release_acq)

text \<open>The null return the callers test for never happens.\<close>

lemma alloc_page_nonzero: "alloc_page s = Ok p s' \<Longrightarrow> p \<noteq> 0"
  by (auto simp: alloc_page_def bindM_def seqM_def ret_def fail_def split: res.splits if_splits)

lemma free_page_run:
  assumes "kmem_rep s xs" and "page_ok (k_link s) p" and "p \<notin> set xs"
  shows "free_page p s = Ok () (freed p s)" and "kmem_rep (freed p s) (p # xs)"
proof -
  from assms(1) have s: "link_wf (k_link s)" "cpu_wf s" "lock_free s KmemLock"
    and c: "chain (k_mem s) (k_freelist s) xs" and d: "distinct xs"
    and ok: "\<forall>q \<in> set xs. page_ok (k_link s) q"
    by (auto simp: kmem_rep_def)
  have al: "pg_aligned p" using assms(2) by (rule page_ok_aligned)
  have p: "p mod PGSIZE = 0" "\<not> p < l_end (k_link s)" "\<not> PHYSTOP \<le> p"
    using assms(2) by (simp_all add: page_ok_def pg_aligned_def not_less not_le)
  show "free_page p s = Ok () (freed p s)"
    using s p by (simp add: free_page_def exec_simps set_freelist_def mem_write_def acquire_free
        release_acq freed_def)
  let ?m = "store64 (memset p 1 4096 (k_mem s)) p (k_freelist s)"
  have "\<forall>q \<in> set xs. pg_aligned q \<and> same_page (k_mem s) ?m q"
  proof
    fix q
    assume q: "q \<in> set xs"
    with assms(3) have "q \<noteq> p" by auto
    then have "same_page ?m (k_mem s) q"
      using same_page_trans [OF same_page_store_0 same_page_memset] al by blast
    then show "pg_aligned q \<and> same_page (k_mem s) ?m q"
      using q ok by (auto dest: page_ok_aligned intro: same_page_sym)
  qed
  from chain_same [OF this] c have "chain ?m (k_freelist s) xs" by simp
  then show "kmem_rep (freed p s) (p # xs)"
    using s d ok assms page_ok_nonzero [OF s(1) assms(2)] by (simp add: kmem_rep_def freed_def)
qed

lemma free_page_invalid:
  "\<not> page_ok (k_link s) p \<Longrightarrow> free_page p s = Err (Panic ''free_page'') s"
proof -
  assume "\<not> page_ok (k_link s) p"
  then have "p mod PGSIZE \<noteq> 0 \<or> p < l_end (k_link s) \<or> PHYSTOP \<le> p"
    unfolding page_ok_def pg_aligned_def by (meson not_le)
  then show ?thesis by (simp only: free_page_def bindM_def readM_def res.case if_True fail_def)
qed

section \<open>The allocator's contract\<close>

locale page_pool =
  fixes alloc :: "'s \<Rightarrow> ('s, u64) res"
    and dealloc :: "u64 \<Rightarrow> 's \<Rightarrow> ('s, unit) res"
    and pool :: "'s \<Rightarrow> u64 list \<Rightarrow> bool"
    and valid :: "'s \<Rightarrow> u64 \<Rightarrow> bool"
  assumes pool_distinct: "pool s xs \<Longrightarrow> distinct xs"
    and pool_valid: "pool s xs \<Longrightarrow> p \<in> set xs \<Longrightarrow> valid s p"
    and alloc_pop: "pool s (p # xs) \<Longrightarrow> \<exists>s'. alloc s = Ok p s' \<and> pool s' xs \<and> valid s' = valid s"
    and alloc_empty: "pool s [] \<Longrightarrow> \<exists>s'. alloc s = Err (Panic ''alloc_page'') s'"
    and dealloc_push: "pool s xs \<Longrightarrow> valid s p \<Longrightarrow> p \<notin> set xs \<Longrightarrow>
          \<exists>s'. dealloc p s = Ok () s' \<and> pool s' (p # xs) \<and> valid s' = valid s"
begin

text \<open>Allocating a list of pages, and giving a list of pages back.\<close>

fun alloc_n :: "nat \<Rightarrow> 's \<Rightarrow> ('s, u64 list) res" where
  "alloc_n 0 s = Ok [] s"
| "alloc_n (Suc n) s =
     bindM alloc (\<lambda>p. bindM (alloc_n n) (\<lambda>ps. ret (p # ps))) s"

lemma alloc_dealloc:
  assumes "pool s (p # xs)"
  shows "\<exists>s' s''. alloc s = Ok p s' \<and> dealloc p s' = Ok () s'' \<and> pool s'' (p # xs)"
proof -
  from alloc_pop [OF assms] obtain s' where s': "alloc s = Ok p s'" "pool s' xs" "valid s' = valid s"
    by blast
  have "p \<notin> set xs" using pool_distinct [OF assms] by simp
  moreover have "valid s' p" using pool_valid [OF assms] s'(3) by simp
  ultimately show ?thesis using dealloc_push [OF s'(2)] s'(1) by blast
qed

lemma dealloc_alloc:
  assumes "pool s xs" and "valid s p" and "p \<notin> set xs"
  shows "\<exists>s' s''. dealloc p s = Ok () s' \<and> alloc s' = Ok p s'' \<and> pool s'' xs"
  using dealloc_push [OF assms] alloc_pop by blast

lemma alloc_n_distinct:
  assumes "pool s (ps @ xs)"
  shows "\<exists>s'. alloc_n (length ps) s = Ok ps s' \<and> pool s' xs \<and> distinct ps \<and> set ps \<inter> set xs = {}
     \<and> (\<forall>p \<in> set ps. valid s p)"
  using assms
proof (induction ps arbitrary: s)
  case Nil
  then show ?case by simp
next
  case (Cons p ps)
  then obtain s' where s': "alloc s = Ok p s'" "pool s' (ps @ xs)" "valid s' = valid s"
    using alloc_pop by fastforce
  with Cons.IH [OF s'(2)] obtain s'' where "alloc_n (length ps) s' = Ok ps s''" "pool s'' xs"
    by auto
  with s' show ?case
    using pool_distinct [OF Cons.prems] pool_valid [OF Cons.prems]
    by (auto simp: bindM_def ret_def)
qed

text \<open>Asking for more pages than there are ends in the allocator's panic.\<close>

lemma alloc_n_exhausts:
  assumes "pool s xs" and "length xs < n"
  shows "\<exists>s'. alloc_n n s = Err (Panic ''alloc_page'') s'"
  using assms
proof (induction n arbitrary: s xs)
  case 0
  then show ?case by simp
next
  case (Suc n)
  show ?case
  proof (cases xs)
    case Nil
    then show ?thesis using alloc_empty [of s] Suc.prems by (auto simp: bindM_def)
  next
    case (Cons p ys)
    then obtain s' where s': "alloc s = Ok p s'" "pool s' ys" using alloc_pop Suc.prems by blast
    then show ?thesis using Suc.IH [of s' ys] Suc.prems Cons by (auto simp: bindM_def)
  qed
qed

end

lemma valid_allocated: "page_ok (k_link (allocated p s)) = page_ok (k_link s)"
  by (simp add: allocated_def)

lemma valid_freed: "page_ok (k_link (freed p s)) = page_ok (k_link s)"
  by (simp add: freed_def)

interpretation kpool: page_pool alloc_page free_page kmem_rep "\<lambda>s. page_ok (k_link s)"
proof unfold_locales
  fix s p xs
  assume "kmem_rep s (p # xs)"
  then show "\<exists>s'. alloc_page s = Ok p s' \<and> kmem_rep s' xs \<and> page_ok (k_link s') = page_ok (k_link s)"
    using alloc_page_run [of s p xs] valid_allocated by blast
next
  fix s xs p
  assume "kmem_rep s xs" "page_ok (k_link s) p" "p \<notin> set xs"
  then show "\<exists>s'. free_page p s = Ok () s' \<and> kmem_rep s' (p # xs) \<and> page_ok (k_link s') = page_ok (k_link s)"
    using free_page_run [of s xs p] valid_freed by blast
qed (auto simp: kmem_rep_def alloc_page_empty [unfolded kmem_rep_def])

section \<open>Initialisation\<close>

lemma page_range_Suc: "page_range a (Suc n) = a # page_range (a + 4096) n"
  by (simp add: page_range_def map_upt_Suc algebra_simps del: upt_Suc)

lemma unat_PHYSTOP: "unat PHYSTOP = 2281701376"
  by (simp add: PHYSTOP_def KERNBASE_def)

lemma freerange_loop_run:
  assumes "kmem_rep s xs" and "pg_aligned p" and "l_end (k_link s) \<le> p"
    and "unat p + 4096 * n = unat PHYSTOP" and "\<forall>q \<in> set xs. q < p"
  shows "\<exists>s'. freerange_loop p PHYSTOP s = Ok () s' \<and> kmem_rep s' (rev (page_range p n) @ xs)
     \<and> k_link s' = k_link s \<and> (\<exists>m f. s' = s\<lparr>k_mem := m, k_freelist := f\<rparr> \<or> s' = (settle s)\<lparr>k_mem := m, k_freelist := f\<rparr>)"
  using assms
proof (induction n arbitrary: p s xs)
  case 0
  then have "\<not> p + PGSIZE \<le> PHYSTOP"
    by (simp add: PGSIZE_def word_le_nat_alt unat_PHYSTOP unat_add_u64)
  with 0 show ?case
    by (subst freerange_loop.simps) (simp add: unat_PHYSTOP page_range_def, rule exI [of _ "k_mem s"], rule exI [of _ "k_freelist s"], simp)
next
  case (Suc n)
  have up: "unat (p + 4096) = unat p + 4096" using Suc.prems(4) by (simp add: unat_PHYSTOP unat_add_u64)
  have lt: "p < PHYSTOP" using Suc.prems(4) by (simp add: word_less_nat_alt unat_PHYSTOP)
  have al: "pg_aligned (p + 4096)" using Suc.prems(2) up by (simp add: pg_aligned_unat)
  have step: "p < p + 4096" using up by (simp add: word_less_nat_alt)
  have "page_ok (k_link s) p" using Suc.prems lt by (simp add: page_ok_def)
  moreover have "p \<notin> set xs" using Suc.prems(5) by auto
  ultimately have f: "free_page p s = Ok () (freed p s)" "kmem_rep (freed p s) (p # xs)"
    using free_page_run Suc.prems(1) by blast+
  have "\<exists>s'. freerange_loop (p + 4096) PHYSTOP (freed p s) = Ok () s'
      \<and> kmem_rep s' (rev (page_range (p + 4096) n) @ p # xs) \<and> k_link s' = k_link (freed p s)
      \<and> (\<exists>m f. s' = (freed p s)\<lparr>k_mem := m, k_freelist := f\<rparr> \<or> s' = (settle (freed p s))\<lparr>k_mem := m, k_freelist := f\<rparr>)"
  proof (rule Suc.IH [OF f(2) al])
    show "l_end (k_link (freed p s)) \<le> p + 4096" using Suc.prems(3) step by (simp add: freed_def)
    show "unat (p + 4096) + 4096 * n = unat PHYSTOP" using up Suc.prems(4) by simp
    show "\<forall>q \<in> set (p # xs). q < p + 4096" using Suc.prems(5) step by auto
  qed
  then obtain s' m g where s': "freerange_loop (p + 4096) PHYSTOP (freed p s) = Ok () s'"
      "kmem_rep s' (rev (page_range (p + 4096) n) @ p # xs)" "k_link s' = k_link (freed p s)"
      and "s' = (freed p s)\<lparr>k_mem := m, k_freelist := g\<rparr> \<or> s' = (settle (freed p s))\<lparr>k_mem := m, k_freelist := g\<rparr>" by blast
  then have fr: "s' = (settle s)\<lparr>k_mem := m, k_freelist := g\<rparr>" by (auto simp: freed_def)
  have "p + PGSIZE \<le> PHYSTOP" "unat p + 4096 < 18446744073709551616"
    using up Suc.prems(4) by (simp_all add: PGSIZE_def word_le_nat_alt unat_PHYSTOP)
  then have "freerange_loop p PHYSTOP s = Ok () s'"
    using f(1) s'(1) by (subst freerange_loop.simps) (simp add: PGSIZE_def)
  moreover have "kmem_rep s' (rev (page_range p (Suc n)) @ xs)" "k_link s' = k_link s"
    using s'(2,3) by (simp_all add: page_range_Suc freed_def)
  ultimately show ?case using fr by blast
qed

lemma pmm_init_run:
  assumes "link_wf (k_link s)" and "cpu_wf s" and "k_freelist s = 0"
    and "n = (unat PHYSTOP - unat (PGROUNDUP (l_end (k_link s)))) div 4096"
  shows "\<exists>s'. pmm_init s = Ok () s' \<and> kmem_rep s' (rev (page_range (PGROUNDUP (l_end (k_link s))) n))
     \<and> k_link s' = k_link s
     \<and> (\<exists>m f. let s1 = s\<lparr>k_locks := (k_locks s)(KmemLock := \<lparr>lk_locked = 0, lk_name = Some ''kmem'', lk_cpu = None\<rparr>)\<rparr>
         in s' = s1\<lparr>k_mem := m, k_freelist := f\<rparr> \<or> s' = (settle s1)\<lparr>k_mem := m, k_freelist := f\<rparr>)"
proof -
  let ?e = "l_end (k_link s)"
  let ?s = "s\<lparr>k_locks := (k_locks s)(KmemLock := \<lparr>lk_locked = 0, lk_name = Some ''kmem'', lk_cpu = None\<rparr>)\<rparr>"
  have e: "unat ?e \<le> 2281701376"
    using assms(1) by (simp add: link_wf_def word_le_nat_alt unat_PHYSTOP)
  then have up: "unat (PGROUNDUP ?e) = (unat ?e + 4095) div 4096 * 4096" by (simp add: unat_PGROUNDUP)
  have "unat ?e \<le> (unat ?e + 4095) div 4096 * 4096" by linarith
  then have le: "?e \<le> PGROUNDUP ?e" using up by (simp add: word_le_nat_alt)
  have "kmem_rep ?s []" using assms by (simp add: kmem_rep_def lock_free_def)
  moreover have "unat (PGROUNDUP ?e) + 4096 * n = unat PHYSTOP"
  proof -
    define q where "q = (unat ?e + 4095) div 4096"
    then have "q \<le> 557056" using e by simp
    then have "2281701376 - q * 4096 = (557056 - q) * 4096" and "q * 4096 + 4096 * (557056 - q) = 2281701376"
      by simp_all
    then show ?thesis unfolding assms(4) up unat_PHYSTOP q_def [symmetric] by simp
  qed
  ultimately have "\<exists>s'. freerange_loop (PGROUNDUP ?e) PHYSTOP ?s = Ok () s'
      \<and> kmem_rep s' (rev (page_range (PGROUNDUP ?e) n) @ []) \<and> k_link s' = k_link ?s
      \<and> (\<exists>m f. s' = ?s\<lparr>k_mem := m, k_freelist := f\<rparr> \<or> s' = (settle ?s)\<lparr>k_mem := m, k_freelist := f\<rparr>)"
    using le by (intro freerange_loop_run) simp_all
  moreover have "pmm_init s = freerange_loop (PGROUNDUP ?e) PHYSTOP ?s"
    by (simp add: pmm_init_def initlock_run exec_simps freerange_def)
  ultimately show ?thesis unfolding Let_def by (simp only: append_Nil2) simp
qed

section \<open>Known defects\<close>

lemma alloc_pages_loop_run:
  assumes "kmem_rep s (ps @ x # xs)"
  shows "\<exists>s'. alloc_pages_loop (length ps) s = (Some s', s') \<and> kmem_rep s' (x # xs)
     \<and> k_mem s' = k_mem s \<and> k_link s' = k_link s"
  using assms
proof (induction ps arbitrary: s)
  case Nil
  then show ?case by simp
next
  case (Cons p ps)
  let ?s = "s\<lparr>k_freelist := load64 (k_mem s) (k_freelist s)\<rparr>"
  have "kmem_rep ?s (ps @ x # xs)" and "k_freelist s \<noteq> 0"
    using Cons.prems by (auto simp: kmem_rep_def)
  with Cons.IH [of ?s] show ?case by auto
qed

lemma sint_of_nat_i32: "k < 2147483648 \<Longrightarrow> sint (of_nat k :: i32) = int k"
  by (simp add: signed_of_nat signed_take_bit_int_eq_self)

text \<open>The allocation of \<open>n\<close> pages takes only \<open>n - 1\<close> of them off the list.\<close>

lemma alloc_pages_off_by_one:
  assumes "kmem_rep s (ps @ x # xs)" and "Suc (length ps) < 2147483648"
  shows "\<exists>s'. alloc_pages (of_nat (Suc (length ps))) s = Ok (hd (ps @ [x])) s' \<and> kmem_rep s' (x # xs)"
proof -
  have "k_freelist s = hd (ps @ [x])" using assms(1) by (cases ps) (auto simp: kmem_rep_def)
  moreover have "nat (sint (of_nat (Suc (length ps)) :: i32) - 1) = length ps"
    unfolding sint_of_nat_i32 [OF assms(2)] by simp
  moreover obtain s' where "alloc_pages_loop (length ps) s = (Some s', s')" "kmem_rep s' (x # xs)"
    using alloc_pages_loop_run [OF assms(1)] by blast
  ultimately show ?thesis by (auto simp: alloc_pages_def Let_def simp del: of_nat_Suc)
qed

lemma double_free_run:
  assumes "kmem_rep s xs" and "page_ok (k_link s) p" and "p \<notin> set xs"
  shows "\<exists>s1 s2 s3 s4. free_page p s = Ok () s1 \<and> free_page p s1 = Ok () s2
     \<and> alloc_page s2 = Ok p s3 \<and> alloc_page s3 = Ok p s4"
proof -
  have f: "free_page p s = Ok () (freed p s)" by (rule free_page_run(1) [OF assms])
  have rep: "kmem_rep (freed p s) (p # xs)" by (rule free_page_run(2) [OF assms])
  then have wf: "cpu_wf (freed p s)" "lock_free (freed p s) KmemLock" "p \<noteq> 0"
    and fl: "k_freelist (freed p s) = p"
    by (auto simp: kmem_rep_def)
  have ok: "p mod PGSIZE = 0" "\<not> p < l_end (k_link s)" "\<not> PHYSTOP \<le> p"
    using assms(2) by (simp_all add: page_ok_def pg_aligned_def not_less not_le)
  have lnk: "k_link (freed p s) = k_link s" by (simp add: freed_def)
  have g: "free_page p (freed p s) = Ok () (freed p (freed p s))"
    using wf ok fl by (simp add: free_page_def exec_simps set_freelist_def mem_write_def acquire_free
        release_acq freed_def [of p "freed p s"] lnk)
  let ?t = "freed p (freed p s)"
  have t: "cpu_wf ?t" "lock_free ?t KmemLock" "k_freelist ?t = p" "load64 (k_mem ?t) p = p"
    using wf fl by (simp_all add: freed_def [of p "freed p s"])
  have a: "alloc_page ?t = Ok p (allocated p ?t)"
    using t wf(3) by (simp add: alloc_page_def exec_simps set_freelist_def mem_write_def acquire_free
        release_acq allocated_def)
  have "cpu_wf (allocated p ?t)" "lock_free (allocated p ?t) KmemLock" "k_freelist (allocated p ?t) = p"
    using t by (simp_all add: allocated_def)
  then have "alloc_page (allocated p ?t) = Ok p (allocated p (allocated p ?t))"
    using wf(3) by (simp add: alloc_page_def exec_simps set_freelist_def mem_write_def acquire_free
        release_acq allocated_def [of p "allocated p ?t"])
  with f g a show ?thesis by blast
qed

section \<open>The self-test\<close>

lemma load32_store32: "load32 (store32 m a v) a = v"
proof -
  have slice: "bit (push_bit k (ucast (ucast (drop_bit k v) :: u8)) :: u32) n
      \<longleftrightarrow> k \<le> n \<and> n < k + 8 \<and> n < 32 \<and> bit v n" for k n
    by (auto simp: bit_simps dest: bit_imp_le_length)
  have "load32 (store32 m a v) a = ucast (ucast v :: u8) OR push_bit 8 (ucast (ucast (drop_bit 8 v) :: u8))
     OR push_bit 16 (ucast (ucast (drop_bit 16 v) :: u8)) OR push_bit 24 (ucast (ucast (drop_bit 24 v) :: u8))"
    by (simp add: load32_def store32_def)
  also have "\<dots> = v"
  proof (rule bit_word_eqI)
    fix n
    assume "n < LENGTH(32)"
    then have "n < 8 \<or> 8 \<le> n \<and> n < 16 \<or> 16 \<le> n \<and> n < 24 \<or> 24 \<le> n \<and> n < 32" by auto
    then show "bit (ucast (ucast v :: u8) OR push_bit 8 (ucast (ucast (drop_bit 8 v) :: u8))
       OR push_bit 16 (ucast (ucast (drop_bit 16 v) :: u8))
       OR push_bit 24 (ucast (ucast (drop_bit 24 v) :: u8)) :: u32) n = bit v n"
      unfolding bit_or_iff slice slice [of 0, simplified] by (cases "bit v n") auto
  qed
  finally show ?thesis .
qed

lemma same_page_store32:
  assumes "pg_aligned p" and "q \<noteq> p"
  shows "same_page (store32 m p v) m q"
proof -
  have "PGROUNDDOWN (p + of_nat k) = p" if "k < 8" for k
    using slot_byte [of p 0 k] that assms(1) by (simp add: slot_0)
  from this [of 0] this [of 1] this [of 2] this [of 3] assms(2) show ?thesis
    by (auto simp: same_page_def store32_def)
qed

lemma kmem_rep_write:
  assumes "kmem_rep s xs" and "\<And>q. q \<in> set xs \<Longrightarrow> same_page m (k_mem s) q"
  shows "kmem_rep (s\<lparr>k_mem := m\<rparr>) xs"
  using assms by (intro kmem_rep_same [OF assms(1)]) (auto simp: kmem_rep_def same_page_sym)

lemma page_low_bits: "pg_aligned p \<Longrightarrow> p AND 0xFFF = 0"
proof -
  assume "pg_aligned p"
  then have "p = push_bit 12 (drop_bit 12 p)" by (simp add: pg_aligned_iff PGROUNDDOWN_bits)
  moreover have "push_bit 12 x AND 0xFFF = 0" for x :: u64
    by (rule bit_word_eqI) (auto simp: mask12 bit_simps)
  ultimately show ?thesis by metis
qed

lemma test_physical_memory_run:
  assumes "kmem_rep s (p1 # p2 # xs)"
  shows "\<exists>s'. test_physical_memory s = Ok () s' \<and> kmem_rep s' (p1 # p2 # xs)"
proof -
  obtain s1 where s1: "alloc_page s = Ok p1 s1" "kmem_rep s1 (p2 # xs)" "page_ok (k_link s1) = page_ok (k_link s)"
    using kpool.alloc_pop [OF assms] by blast
  obtain s2 where s2: "alloc_page s1 = Ok p2 s2" "kmem_rep s2 xs" "page_ok (k_link s2) = page_ok (k_link s)"
    using kpool.alloc_pop [OF s1(2)] s1(3) by auto
  have d: "p1 \<noteq> p2" "p1 \<notin> set xs" "p2 \<notin> set xs"
    using kpool.pool_distinct [OF assms] by auto
  have v: "page_ok (k_link s) p1" "page_ok (k_link s) p2"
    using kpool.pool_valid [OF assms] by auto
  have al: "pg_aligned p1" using v(1) by (rule page_ok_aligned)
  let ?t = "s2\<lparr>k_mem := store32 (k_mem s2) p1 0x12345678\<rparr>"
  have t: "kmem_rep ?t xs"
    using d by (intro kmem_rep_write [OF s2(2)] same_page_store32 [OF al]) auto
  obtain s3 s4 where s3: "free_page p1 ?t = Ok () s3" and s4: "alloc_page s3 = Ok p1 s4" "kmem_rep s4 xs"
    and ok4: "page_ok (k_link s4) = page_ok (k_link s)"
    using kpool.dealloc_push [OF t, of p1] kpool.alloc_pop v d s2(3)
    by (metis (no_types, lifting) kstate.select_convs(1) kstate.surjective kstate.update_convs(3) res.inject(1))
  obtain s5 where s5: "free_page p2 s4 = Ok () s5" "kmem_rep s5 (p2 # xs)" "page_ok (k_link s5) = page_ok (k_link s)"
    using kpool.dealloc_push [OF s4(2), of p2] v d ok4 by auto
  obtain s6 where s6: "free_page p1 s5 = Ok () s6" "kmem_rep s6 (p1 # p2 # xs)"
    using kpool.dealloc_push [OF s5(2), of p1] v d s5(3) by auto
  show ?thesis
    using s1(1) s2(1) d(1) page_low_bits [OF al] s3 s4(1) s5(1) s6
    by (simp add: test_physical_memory_def exec_simps mem_write_def kassert_run load32_store32)
qed

section \<open>A concrete machine\<close>

text \<open>The state at boot with a link map that leaves three free pages, used to instantiate the
  properties below and those of the theories that build on the allocator.\<close>

definition demo_link :: linkmap where
  "demo_link = \<lparr>l_end = 0x87FFD000, l_etext = 0x80008000, l_trampoline = 0x80007000,
     l_kernelvec = 0x80000400, l_main = 0x80000100, l_forkret = 0x80001000,
     l_init_task = 0x80001100, l_simple_task = 0x80001200\<rparr>"

definition demo0 :: kstate where "demo0 = boot_state demo_link"
definition demo1 :: kstate where "demo1 = freed 0x87FFE000 demo0"
definition demo2 :: kstate where "demo2 = freed 0x87FFF000 demo1"

lemma link_wf_demo: "link_wf demo_link"
  by (simp add: link_wf_def demo_link_def layout_defs pg_aligned_unat)

lemma page_ok_demo: "page_ok demo_link 0x87FFD000" "page_ok demo_link 0x87FFE000" "page_ok demo_link 0x87FFF000"
  by (simp_all add: page_ok_def demo_link_def layout_defs pg_aligned_unat)

lemma cpu_wf_boot: "cpu_wf (boot_state lm)"
  by (simp add: cpu_wf_def one_cpu_def boot_state_def cpu0_def NCPU_def zero_cpu_def zero_csrs_def r_tp_def)

lemma lock_free_boot: "lock_free (boot_state lm) lk"
  by (simp add: lock_free_def boot_state_def zero_lock_def)

lemma k_link_demo: "k_link demo0 = demo_link" "k_link demo1 = demo_link" "k_link demo2 = demo_link"
  by (simp_all add: demo2_def demo1_def demo0_def freed_def boot_state_def)

lemma kmem_rep_demo0: "kmem_rep demo0 []"
  using link_wf_demo cpu_wf_boot [of demo_link] lock_free_boot [of demo_link KmemLock]
  by (simp add: kmem_rep_def demo0_def) (simp add: boot_state_def)

lemma kmem_rep_demo1: "kmem_rep demo1 [0x87FFE000]"
  unfolding demo1_def
  by (rule free_page_run(2) [OF kmem_rep_demo0]) (simp_all add: k_link_demo page_ok_demo)

lemma kmem_rep_demo2: "kmem_rep demo2 [0x87FFF000, 0x87FFE000]"
  unfolding demo2_def
  by (rule free_page_run(2) [OF kmem_rep_demo1]) (simp_all add: k_link_demo page_ok_demo)

text \<open>A machine after \<open>pmm_init\<close> with a megabyte of free memory.\<close>

definition pool_link :: linkmap where
  "pool_link = demo_link\<lparr>l_end := 0x87F00000\<rparr>"

definition pool_state :: kstate where
  "pool_state = (case pmm_init (boot_state pool_link) of Ok _ s \<Rightarrow> s | Err _ s \<Rightarrow> s)"

definition pool_pages :: "u64 list" where
  "pool_pages = rev (page_range 0x87F00000 256)"

lemma kmem_rep_pool: "kmem_rep pool_state pool_pages" and k_link_pool: "k_link pool_state = pool_link"
proof -
  let ?s = "boot_state pool_link"
  have l: "k_link ?s = pool_link" "k_freelist ?s = 0" by (simp_all add: boot_state_def)
  have "link_wf pool_link"
    by (simp add: link_wf_def pool_link_def demo_link_def layout_defs pg_aligned_unat)
  moreover have "PGROUNDUP (l_end (k_link ?s)) = 0x87F00000"
    unfolding l by (simp add: pool_link_def PGROUNDUP_def PGSIZE_def)
  ultimately have "\<exists>s'. pmm_init ?s = Ok () s' \<and> kmem_rep s' pool_pages \<and> k_link s' = k_link ?s"
    using pmm_init_run [of ?s 256] l cpu_wf_boot by (auto simp: unat_PHYSTOP pool_pages_def)
  then show "kmem_rep pool_state pool_pages" "k_link pool_state = pool_link"
    by (auto simp: pool_state_def l)
qed

lemma length_pool_pages: "length pool_pages = 256"
  by (simp add: pool_pages_def page_range_def)

lemma pool_pages_split: "pool_pages = hd pool_pages # tl pool_pages" "length (tl pool_pages) = 255"
proof -
  have "pool_pages \<noteq> []" using length_pool_pages by (metis list.size(3) zero_neq_numeral)
  then show "pool_pages = hd pool_pages # tl pool_pages" by (rule list.collapse [symmetric])
  show "length (tl pool_pages) = 255" by (simp only: length_tl length_pool_pages)
qed

section \<open>Properties\<close>

text \<open>C12. Refinement of \<open>alloc_page\<close>: on a stack of free pages it pops the top one. The page it
  returns is a valid page that is no longer free, the invariant holds for the rest, no byte
  outside that page has changed and neither has the process table.\<close>

theorem alloc_page_refines_pop:
  assumes "kmem_rep s (p # xs)"
  shows "\<exists>s'. alloc_page s = Ok p s' \<and> kmem_rep s' xs \<and> page_ok (k_link s) p \<and> p \<notin> set xs
    \<and> (\<forall>x. PGROUNDDOWN x \<noteq> p \<longrightarrow> k_mem s' x = k_mem s x) \<and> k_procs s' = k_procs s"
proof (intro exI conjI)
  show "alloc_page s = Ok p (allocated p s)" and "kmem_rep (allocated p s) xs"
    using alloc_page_run [OF assms] .
  show ok: "page_ok (k_link s) p" and "p \<notin> set xs"
    using assms by (simp_all add: kmem_rep_def)
  show "\<forall>x. PGROUNDDOWN x \<noteq> p \<longrightarrow> k_mem (allocated p s) x = k_mem s x"
    using page_ok_aligned [OF ok] by (simp add: allocated_def memset_page)
  show "k_procs (allocated p s) = k_procs s" by (simp add: allocated_def)
qed

theorem alloc_page_refines_pop_witness:
  "kmem_rep demo2 [0x87FFF000, 0x87FFE000]
   \<and> (\<exists>s'. alloc_page demo2 = Ok 0x87FFF000 s' \<and> kmem_rep s' [0x87FFE000])"
  using alloc_page_refines_pop [OF kmem_rep_demo2] kmem_rep_demo2 by blast

text \<open>C13. Refinement of \<open>free_page\<close>: it pushes a valid page that is not already free, keeps the
  invariant, and changes no byte outside that page.\<close>

theorem free_page_refines_push:
  assumes "kmem_rep s xs" and "page_ok (k_link s) p" and "p \<notin> set xs"
  shows "\<exists>s'. free_page p s = Ok () s' \<and> kmem_rep s' (p # xs)
    \<and> (\<forall>x. PGROUNDDOWN x \<noteq> p \<longrightarrow> k_mem s' x = k_mem s x) \<and> k_procs s' = k_procs s"
proof (intro exI conjI)
  show "free_page p s = Ok () (freed p s)" and "kmem_rep (freed p s) (p # xs)"
    using free_page_run [OF assms] .
  have al: "pg_aligned p" using assms(2) by (rule page_ok_aligned)
  show "\<forall>x. PGROUNDDOWN x \<noteq> p \<longrightarrow> k_mem (freed p s) x = k_mem s x"
  proof (intro allI impI)
    fix x
    assume "PGROUNDDOWN x \<noteq> p"
    then have "same_page (k_mem (freed p s)) (k_mem s) (PGROUNDDOWN x)"
      using same_page_trans [OF same_page_store_0 same_page_memset] al by (simp add: freed_def)
    then show "k_mem (freed p s) x = k_mem s x" by (simp add: same_page_def)
  qed
  show "k_procs (freed p s) = k_procs s" by (simp add: freed_def)
qed

theorem free_page_refines_push_witness:
  "kmem_rep demo0 [] \<and> (\<exists>s'. free_page 0x87FFE000 demo0 = Ok () s' \<and> kmem_rep s' [0x87FFE000])"
  using free_page_refines_push [OF kmem_rep_demo0, of "0x87FFE000"] kmem_rep_demo0
  by (simp add: k_link_demo page_ok_demo) blast

text \<open>C38. Errors of the allocator: with no free page left \<open>alloc_page\<close> panics, so it never
  returns the null pointer its callers test for; and \<open>free_page\<close> panics, with the state
  untouched, on every address that is unaligned, below \<open>end\<close> or not below \<open>PHYSTOP\<close>.\<close>

theorem allocator_errors:
  "(kmem_rep s [] \<longrightarrow> alloc_page s = Err (Panic ''alloc_page'') (settle s))
   \<and> (alloc_page s = Ok p s' \<longrightarrow> p \<noteq> 0)
   \<and> (\<not> page_ok (k_link s) q \<longrightarrow> free_page q s = Err (Panic ''free_page'') s)"
  using alloc_page_empty alloc_page_nonzero free_page_invalid by blast

theorem allocator_errors_witness:
  "alloc_page demo0 = Err (Panic ''alloc_page'') (settle demo0)
   \<and> free_page 0x87FFD008 demo0 = Err (Panic ''free_page'') demo0"
proof -
  have "\<not> page_ok (k_link demo0) 0x87FFD008"
    by (simp add: page_ok_def pg_aligned_unat)
  then show ?thesis
    using allocator_errors [of demo0 _ _ "0x87FFD008"] kmem_rep_demo0 by blast
qed

text \<open>C24. Initialisation: \<open>pmm_init\<close> terminates and leaves exactly the pages from \<open>end\<close>, rounded
  up to a page boundary, to \<open>PHYSTOP\<close> on the free list, the highest one on top.\<close>

theorem pmm_init_frees_all:
  assumes "link_wf (k_link s)" and "cpu_wf s" and "k_freelist s = 0"
  shows "\<exists>s'. pmm_init s = Ok () s' \<and>
    kmem_rep s' (rev (page_range (PGROUNDUP (l_end (k_link s)))
      ((unat PHYSTOP - unat (PGROUNDUP (l_end (k_link s)))) div 4096)))"
  using pmm_init_run [OF assms refl] by blast

theorem pmm_init_frees_all_witness:
  "\<exists>s'. pmm_init demo0 = Ok () s' \<and> kmem_rep s' [0x87FFF000, 0x87FFE000, 0x87FFD000]"
proof -
  have s: "link_wf (k_link demo0)" "cpu_wf demo0" "k_freelist demo0 = 0"
    using kmem_rep_demo0 by (simp_all add: kmem_rep_def)
  have "PGROUNDUP (l_end (k_link demo0)) = 0x87FFD000"
    by (simp add: k_link_demo demo_link_def PGROUNDUP_def PGSIZE_def)
  moreover have "rev (page_range 0x87FFD000 3) = [0x87FFF000, 0x87FFE000, 0x87FFD000]"
    by (simp add: page_range_def upt_rec)
  ultimately show ?thesis
    using pmm_init_frees_all [OF s] by (simp add: unat_PHYSTOP)
qed

text \<open>\<open>alloc_pages(n)\<close> takes only \<open>n - 1\<close> pages off the free list: the last of the \<open>n\<close> pages it
  hands out is still the head of the list, so the next \<open>alloc_page\<close> returns it again.\<close>

theorem alloc_pages_last_page_stays_free:
  assumes "kmem_rep s (ps @ x # xs)" and "Suc (length ps) < 2147483648"
  shows "\<exists>s' s''. alloc_pages (of_nat (Suc (length ps))) s = Ok (hd (ps @ [x])) s'
    \<and> kmem_rep s' (x # xs) \<and> alloc_page s' = Ok x s''"
  using alloc_pages_off_by_one [OF assms] alloc_page_run(1) by blast

theorem alloc_pages_last_page_stays_free_witness:
  "\<exists>s' s''. alloc_pages 1 demo2 = Ok 0x87FFF000 s' \<and> alloc_page s' = Ok 0x87FFF000 s''"
  using alloc_pages_last_page_stays_free [of demo2 "[]" "0x87FFF000" "[0x87FFE000]"] kmem_rep_demo2
  by auto

text \<open>The missing double-free check: freeing a page twice makes two later allocations return
  the same page.\<close>

theorem double_free_aliases:
  assumes "kmem_rep s xs" and "page_ok (k_link s) p" and "p \<notin> set xs"
  shows "\<exists>s1 s2 s3 s4. free_page p s = Ok () s1 \<and> free_page p s1 = Ok () s2
    \<and> alloc_page s2 = Ok p s3 \<and> alloc_page s3 = Ok p s4"
  using double_free_run [OF assms] .

theorem double_free_aliases_witness:
  "\<exists>s1 s2 s3 s4. free_page 0x87FFE000 demo0 = Ok () s1 \<and> free_page 0x87FFE000 s1 = Ok () s2
    \<and> alloc_page s2 = Ok 0x87FFE000 s3 \<and> alloc_page s3 = Ok 0x87FFE000 s4"
  by (rule double_free_aliases [OF kmem_rep_demo0]) (simp_all add: k_link_demo page_ok_demo)

text \<open>The allocator's self-test passes whenever two pages are free, every assertion included,
  and leaves the free list as it found it.\<close>

theorem test_physical_memory_passes:
  assumes "kmem_rep s (p1 # p2 # xs)"
  shows "\<exists>s'. test_physical_memory s = Ok () s' \<and> kmem_rep s' (p1 # p2 # xs)"
  using test_physical_memory_run [OF assms] .

theorem test_physical_memory_passes_witness:
  "\<exists>s'. test_physical_memory demo2 = Ok () s' \<and> kmem_rep s' [0x87FFF000, 0x87FFE000]"
  using test_physical_memory_passes [OF kmem_rep_demo2] .

end
