(* ===== verification/Vm.thy ===== *)
theory Vm
  imports Kalloc
begin

text \<open>
  \<open>kernel/mm/vm.c\<close>: Sv39 page tables. A table is a page of 512 entries; a walk goes down two
  levels of table pages and returns the address of the entry in the third.

  The abstraction is the translation function: \<open>pt_entry m l pt va\<close> is the leaf entry for
  \<open>va\<close> below the level-\<open>l\<close> table \<open>pt\<close>, 0 where a table on the way is missing. The invariant
  \<open>pt_wf\<close> says that the table pages form a tree without sharing, \<open>pt_set\<close> is the set of
  its pages. \<open>vm_rep\<close> joins it with the allocator's invariant.

  The lemmas: creating the tables on a path changes no translation; \<open>map_page\<close> and
  \<open>unmap_page\<close> update the translation at one page and nowhere else; tearing a table down
  gives every one of its pages back. The locale \<open>address_space\<close> is the interface for the
  process code.
\<close>

section \<open>Definitions\<close>

text \<open>\<open>for(int level = 2; level > 0; level--)\<close>: the recursion counts the level down.\<close>

fun walk_lookup_loop :: "nat \<Rightarrow> u64 \<Rightarrow> u64 \<Rightarrow> memory \<Rightarrow> u64" where
  "walk_lookup_loop 0 pt va m = slot pt (VPN_MASK va 0)"
| "walk_lookup_loop (Suc l) pt va m =
     (let pte = load64 m (slot pt (VPN_MASK va (Suc l)))
      in if pte AND PTE_V = 0 then 0 else walk_lookup_loop l (PTE2PA pte) va m)"

definition walk_lookup :: "u64 \<Rightarrow> u64 \<Rightarrow> memory \<Rightarrow> u64" where
  "walk_lookup pt va m = walk_lookup_loop 2 pt va m"

fun walk_create_loop :: "nat \<Rightarrow> u64 \<Rightarrow> u64 \<Rightarrow> kstate \<Rightarrow> (kstate, u64) res" where
  "walk_create_loop 0 pt va s = Ok (slot pt (VPN_MASK va 0)) s"
| "walk_create_loop (Suc l) pt va s =
     (let a = slot pt (VPN_MASK va (Suc l)) in
      if load64 (k_mem s) a AND PTE_V = 0 then
        bindM alloc_page (\<lambda>new_page.
        if new_page = 0 then ret 0 else
        seqM (mem_write (memset new_page 0 4096))
       (seqM (mem_write (\<lambda>m. store64 m a (PA2PTE new_page OR PTE_V)))
       (bindM (readM (\<lambda>s. load64 (k_mem s) a)) (\<lambda>pte.
        walk_create_loop l (PTE2PA pte) va)))) s
      else walk_create_loop l (PTE2PA (load64 (k_mem s) a)) va s)"

definition walk_create :: "u64 \<Rightarrow> u64 \<Rightarrow> kstate \<Rightarrow> (kstate, u64) res" where
  "walk_create pt va = walk_create_loop 2 pt va"

definition walk :: "u64 \<Rightarrow> u64 \<Rightarrow> bool \<Rightarrow> kstate \<Rightarrow> (kstate, u64) res" where
  "walk pagetable va alloc =
     bindM (if alloc then walk_create pagetable va else readM (\<lambda>s. walk_lookup pagetable va (k_mem s)))
       (\<lambda>pte. if pte = 0 then fail (Panic ''walk'') else ret pte)"

definition map_page :: "u64 \<Rightarrow> u64 \<Rightarrow> u64 \<Rightarrow> i32 \<Rightarrow> kstate \<Rightarrow> (kstate, int) res" where
  "map_page pt va pa perm =
     (if va mod PGSIZE \<noteq> 0 \<or> pa mod PGSIZE \<noteq> 0 then ret (-1) else
      bindM (walk_create pt va) (\<lambda>pte.
      if pte = 0 then ret (-1) else
      bindM (readM (\<lambda>s. load64 (k_mem s) pte)) (\<lambda>e.
      if e AND PTE_V \<noteq> 0 then fail (Panic ''remap'') else
      seqM (mem_write (\<lambda>m. store64 m pte (PA2PTE pa OR scast perm OR PTE_V))) (ret 0))))"

definition create_pagetable :: "kstate \<Rightarrow> (kstate, u64) res" where
  "create_pagetable =
     bindM alloc_page (\<lambda>pt.
     if pt = 0 then ret 0 else
     seqM (mem_write (memset pt 0 4096)) (ret pt))"

text \<open>\<open>destroy_pagetable\<close> recurses without a bound; the fuel is the recursion depth.\<close>

fun destroy_pagetable :: "nat \<Rightarrow> u64 \<Rightarrow> kstate \<Rightarrow> (kstate, unit) res" where
  "destroy_pagetable 0 pt s = Err OutOfFuel s"
| "destroy_pagetable (Suc fuel) pt s =
     seqM (forM [0..<512] (\<lambda>i.
       bindM (readM (\<lambda>s. load64 (k_mem s) (slot pt (of_nat i)))) (\<lambda>pte.
       if pte AND PTE_V \<noteq> 0 \<and> pte AND (PTE_R OR PTE_W OR PTE_X) = 0
       then destroy_pagetable fuel (PTE2PA pte)
       else if pte AND PTE_V \<noteq> 0 then free_page (PTE2PA pte)
       else ret ())))
     (free_page pt) s"

fun dump_pagetable :: "nat \<Rightarrow> u64 \<Rightarrow> int \<Rightarrow> kstate \<Rightarrow> (kstate, unit) res" where
  "dump_pagetable 0 pt level s = Err OutOfFuel s"
| "dump_pagetable (Suc fuel) pt level s =
     forM [0..<512] (\<lambda>i.
       bindM (readM (\<lambda>s. load64 (k_mem s) (slot pt (of_nat i)))) (\<lambda>pte.
       if pte AND PTE_V \<noteq> 0 then
         seqM (forM [0..<nat level] (\<lambda>_. seqM (printf ''  '' []) (ret ())))
        (if 12 + 9 * level < 0 \<or> 64 \<le> 12 + 9 * level then fail Fault else
         seqM (printf ''VA: 0x%lx -> PTE: 0x%lx\<newline>''
                 [VWord (push_bit (nat (12 + 9 * level)) (of_nat i)), VWord pte])
        (if pte AND (PTE_R OR PTE_W OR PTE_X) = 0
         then dump_pagetable fuel (PTE2PA pte) (level - 1)
         else ret ()))
       else ret ())) s"

text \<open>The endless loop of \<open>kvmmap\<close>, left when \<open>a == last\<close>. From a distance that is no multiple of
  the page size \<open>last\<close> is never met (\<open>Spin\<close>).\<close>

function kvmmap_loop :: "u64 \<Rightarrow> u64 \<Rightarrow> u64 \<Rightarrow> u64 \<Rightarrow> i32 \<Rightarrow> kstate \<Rightarrow> (kstate, unit) res" where
  "kvmmap_loop kpgtbl a pa lst perm s =
     (case map_page kpgtbl a pa perm s of
        Err e s' \<Rightarrow> Err e s'
      | Ok r s' \<Rightarrow>
          if r \<noteq> 0 then Err (Panic ''kvmmap'') s'
          else if a = lst then Ok () s'
          else if lst - a < PGSIZE then Err Spin s'
          else kvmmap_loop kpgtbl (a + PGSIZE) (pa + PGSIZE) lst perm s')"
  by pat_completeness auto
termination
proof (relation "measure (\<lambda>(kpgtbl, a, pa, lst, perm, s). unat (lst - a))", goal_cases)
  case 1
  then show ?case by simp
next
  case (2 kpgtbl a pa lst perm s r s')
  then have "PGSIZE \<le> lst - a" by simp
  then have "unat (lst - a - PGSIZE) = unat (lst - a) - 4096" and "4096 \<le> unat (lst - a)"
    by (simp_all add: unat_sub PGSIZE_def word_le_nat_alt)
  then show ?case by (simp add: diff_diff_eq)
qed

definition kvmmap :: "u64 \<Rightarrow> u64 \<Rightarrow> u64 \<Rightarrow> u64 \<Rightarrow> i32 \<Rightarrow> kstate \<Rightarrow> (kstate, unit) res" where
  "kvmmap kpgtbl va pa sz perm =
     (if sz = 0 then ret ()
      else kvmmap_loop kpgtbl (PGROUNDDOWN va) pa (PGROUNDDOWN (va + sz - 1)) perm)"

definition unmap_page :: "u64 \<Rightarrow> u64 \<Rightarrow> kstate \<Rightarrow> (kstate, unit) res" where
  "unmap_page pt va =
     bindM (readM (\<lambda>s. walk_lookup pt va (k_mem s))) (\<lambda>pte.
     if pte = 0 then fail (Panic ''unmap_page: address not mapped'') else
     bindM (readM (\<lambda>s. load64 (k_mem s) pte)) (\<lambda>e.
     if e AND PTE_V = 0 then fail (Panic ''unmap_page: not mapped'') else
     mem_write (\<lambda>m. store64 m pte 0)))"

definition kvminithart :: "kstate \<Rightarrow> (kstate, unit) res" where
  "kvminithart =
     bindM (readM k_pagetable) (\<lambda>pt. csr_write (w_satp (MAKE_SATP pt)))"

definition kvminit :: "kstate \<Rightarrow> (kstate, unit) res" where
  "kvminit =
     bindM create_pagetable (\<lambda>pt.
     seqM (modifyM (\<lambda>s. s\<lparr>k_pagetable := pt\<rparr>))
    (bindM (readM (\<lambda>s. l_etext (k_link s))) (\<lambda>etext.
     seqM (kvmmap pt KERNBASE KERNBASE (etext - KERNBASE) (ucast (PTE_R OR PTE_X)))
    (seqM (kvmmap pt etext etext (PHYSTOP - etext) (ucast (PTE_R OR PTE_W)))
          (kvmmap pt UART0 UART0 PGSIZE (ucast (PTE_R OR PTE_W)))))))"

definition test_pagetable :: "kstate \<Rightarrow> (kstate, unit) res" where
  "test_pagetable =
     bindM create_pagetable (\<lambda>pt.
     bindM alloc_page (\<lambda>pa.
     bindM (map_page pt 0x1000000 pa (ucast (PTE_R OR PTE_W))) (\<lambda>r.
     seqM (kassert (r = 0))
    (bindM (readM (\<lambda>s. walk_lookup pt 0x1000000 (k_mem s))) (\<lambda>pte.
     bindM (readM (\<lambda>s. load64 (k_mem s) pte)) (\<lambda>e.
     seqM (kassert (pte \<noteq> 0 \<and> e AND PTE_V \<noteq> 0))
    (seqM (kassert (PTE2PA e = pa))
    (seqM (kassert (e AND PTE_R \<noteq> 0))
    (seqM (kassert (e AND PTE_W \<noteq> 0))
          (kassert (e AND PTE_X = 0)))))))))))"

definition kprint :: "string \<Rightarrow> vararg list \<Rightarrow> kstate \<Rightarrow> (kstate, unit) res" where
  "kprint fmt args = seqM (printf fmt args) (ret ())"

definition test_virtual_memory :: "kstate \<Rightarrow> (kstate, unit) res" where
  "test_virtual_memory =
     seqM (kprint ''--- Starting test_virtual_memory ---\<newline>'' [])
    (bindM (readM k_testdata) (\<lambda>d.
     seqM (kprint ''Value before enabling paging: 0x%x\<newline>'' [VWord (scast d)])
    (seqM (kprint ''Calling printf before paging works.\<newline>'' [])
    (seqM (kprint ''Enabling virtual memory...\<newline>'' [])
    (seqM kvminit
    (seqM kvminithart
    (seqM (kprint ''Virtual memory enabled.\<newline>'' [])
    (seqM (kprint ''Kernel code execution test: PASSED (still running after kvminithart)\<newline>'' [])
    (bindM (readM k_testdata) (\<lambda>d.
     seqM (if d = 0xDEADBEEF
           then kprint ''Kernel data access test: PASSED (value is 0x%x)\<newline>'' [VWord (scast d)]
           else seqM (kprint ''Kernel data access test: FAILED\<newline>'' [])
                     (fail (Panic ''Data integrity check failed after paging.'')))
    (seqM (modifyM (\<lambda>s. s\<lparr>k_testdata := 0x12345678\<rparr>))
    (bindM (readM k_testdata) (\<lambda>d.
     seqM (if d = 0x12345678
           then kprint ''Kernel data write test: PASSED (new value is 0x%x)\<newline>'' [VWord (scast d)]
           else seqM (kprint ''Kernel data write test: FAILED\<newline>'' [])
                     (fail (Panic ''Data write failed after paging.'')))
    (seqM (kprint ''Device access test (UART): PASSED (printf with %%d and %%s works: %d, %s)\<newline>''
             [VWord 100, VStr (Some (cstr ''OK''))])
          (kprint ''--- test_virtual_memory finished successfully ---\<newline>\<newline>'' [])))))))))))))))"

section \<open>The abstraction: a translation function and a tree of table pages\<close>

definition pte_valid :: "u64 \<Rightarrow> bool" where
  "pte_valid e \<longleftrightarrow> e AND PTE_V \<noteq> 0"

definition pte_table :: "u64 \<Rightarrow> bool" where
  "pte_table e \<longleftrightarrow> e AND (PTE_R OR PTE_W OR PTE_X) = 0"

text \<open>The child table that entry \<open>i\<close> of \<open>pt\<close> points to.\<close>

definition child :: "memory \<Rightarrow> u64 \<Rightarrow> u64 \<Rightarrow> u64" where
  "child m pt i = PTE2PA (load64 m (slot pt i))"

definition has_child :: "memory \<Rightarrow> u64 \<Rightarrow> u64 \<Rightarrow> bool" where
  "has_child m pt i \<longleftrightarrow> unat i < 512 \<and> pte_valid (load64 m (slot pt i))"

fun pt_entry :: "memory \<Rightarrow> nat \<Rightarrow> u64 \<Rightarrow> u64 \<Rightarrow> u64" where
  "pt_entry m 0 pt va = load64 m (slot pt (VPN_MASK va 0))"
| "pt_entry m (Suc l) pt va =
     (if has_child m pt (VPN_MASK va (Suc l)) then pt_entry m l (child m pt (VPN_MASK va (Suc l))) va else 0)"

fun pt_set :: "memory \<Rightarrow> nat \<Rightarrow> u64 \<Rightarrow> u64 set" where
  "pt_set m 0 pt = {pt}"
| "pt_set m (Suc l) pt = insert pt (\<Union>i \<in> {i. has_child m pt i}. pt_set m l (child m pt i))"

fun pt_wf :: "linkmap \<Rightarrow> memory \<Rightarrow> nat \<Rightarrow> u64 \<Rightarrow> bool" where
  "pt_wf lm m 0 pt \<longleftrightarrow> page_ok lm pt"
| "pt_wf lm m (Suc l) pt \<longleftrightarrow> page_ok lm pt
     \<and> (\<forall>i. has_child m pt i \<longrightarrow> pte_table (load64 m (slot pt i))
          \<and> pt_wf lm m l (child m pt i) \<and> pt \<notin> pt_set m l (child m pt i))
     \<and> (\<forall>i j. has_child m pt i \<longrightarrow> has_child m pt j \<longrightarrow> i \<noteq> j \<longrightarrow>
          pt_set m l (child m pt i) \<inter> pt_set m l (child m pt j) = {})"

text \<open>How many tables are missing on the path of an address.\<close>

fun missing :: "memory \<Rightarrow> nat \<Rightarrow> u64 \<Rightarrow> u64 \<Rightarrow> nat" where
  "missing m 0 pt va = 0"
| "missing m (Suc l) pt va =
     (if has_child m pt (VPN_MASK va (Suc l)) then missing m l (child m pt (VPN_MASK va (Suc l))) va
      else Suc l)"

text \<open>Two addresses with the same indices down from level \<open>l\<close>.\<close>

definition same_vpn :: "nat \<Rightarrow> u64 \<Rightarrow> u64 \<Rightarrow> bool" where
  "same_vpn l va va' \<longleftrightarrow> (\<forall>k \<le> l. VPN_MASK va k = VPN_MASK va' k)"

text \<open>Only memory and the free list have changed (up to the saved interrupt flag).\<close>

definition mem_only :: "kstate \<Rightarrow> kstate \<Rightarrow> bool" where
  "mem_only s s' \<longleftrightarrow> s' = s\<lparr>k_mem := k_mem s', k_freelist := k_freelist s'\<rparr>
     \<or> s' = (settle s)\<lparr>k_mem := k_mem s', k_freelist := k_freelist s'\<rparr>"

section \<open>Frame laws of page tables\<close>

lemma pt_wf_page_ok: "pt_wf lm m l pt \<Longrightarrow> page_ok lm pt"
  by (cases l) auto

lemma pt_in_pt_set [simp]: "pt \<in> pt_set m l pt"
  by (cases l) auto

lemma pt_set_page_ok: "pt_wf lm m l pt \<Longrightarrow> p \<in> pt_set m l pt \<Longrightarrow> page_ok lm p"
  by (induction l arbitrary: pt) auto

lemma child_subset: "has_child m pt i \<Longrightarrow> pt_set m l (child m pt i) \<subseteq> pt_set m (Suc l) pt"
  by auto

lemma has_child_VPN: "has_child m pt (VPN_MASK va l) \<longleftrightarrow> load64 m (slot pt (VPN_MASK va l)) AND PTE_V \<noteq> 0"
  by (simp add: has_child_def pte_valid_def VPN_MASK_less)

lemma entries_same:
  assumes "page_ok lm pt" and "same_page m m' pt" and "unat i < 512"
  shows "load64 m' (slot pt i) = load64 m (slot pt i)"
  using load64_same_page [OF assms(2) page_ok_aligned [OF assms(1)] assms(3)] by simp

lemma has_child_same:
  assumes "page_ok lm pt" and "same_page m m' pt"
  shows "has_child m' pt = has_child m pt" and "has_child m pt i \<Longrightarrow> child m' pt i = child m pt i"
  using entries_same [OF assms] by (auto simp: has_child_def child_def fun_eq_iff)

text \<open>A table, its well-formedness and its translations depend only on its own pages.\<close>

lemma pt_frame:
  assumes "pt_wf lm m l pt" and "\<And>p. p \<in> pt_set m l pt \<Longrightarrow> same_page m m' p"
  shows "pt_set m' l pt = pt_set m l pt \<and> pt_wf lm m' l pt \<and> (\<forall>va. pt_entry m' l pt va = pt_entry m l pt va)"
  using assms
proof (induction l arbitrary: pt)
  case 0
  then show ?case
    using entries_same [of lm pt m m'] VPN_MASK_less by simp
next
  case (Suc l)
  have ok: "page_ok lm pt" and sp: "same_page m m' pt"
    using Suc.prems pt_wf_page_ok by auto
  note hc = has_child_same [OF ok sp]
  have tab: "load64 m' (slot pt i) = load64 m (slot pt i)" if "has_child m pt i" for i
    using entries_same [OF ok sp] that by (simp add: has_child_def)
  have IH: "pt_set m' l (child m pt i) = pt_set m l (child m pt i)
      \<and> pt_wf lm m' l (child m pt i) \<and> (\<forall>va. pt_entry m' l (child m pt i) va = pt_entry m l (child m pt i) va)"
    if "has_child m pt i" for i
    using that Suc.prems child_subset [OF that, of l] by (intro Suc.IH) auto
  have s: "pt_set m' (Suc l) pt = pt_set m (Suc l) pt"
    using hc IH by auto
  moreover have "pt_wf lm m' (Suc l) pt"
    using Suc.prems(1) hc IH tab by simp
  moreover have "pt_entry m' (Suc l) pt va = pt_entry m (Suc l) pt va" for va
    using hc IH by simp
  ultimately show ?case by blast
qed

text \<open>Replacing what lies below one entry: the other subtrees and the table page itself are
  unchanged, the new subtree may own new pages \<open>N\<close>.\<close>

lemma pt_replace_child:
  assumes wf: "pt_wf lm m (Suc l) pt" and i: "has_child m pt i"
    and same: "\<And>p. p \<in> pt_set m (Suc l) pt \<Longrightarrow> p \<notin> pt_set m l (child m pt i) \<Longrightarrow> same_page m m' p"
    and new: "pt_wf lm m' l (child m pt i)" "pt_set m' l (child m pt i) = pt_set m l (child m pt i) \<union> N"
    and N: "N \<inter> pt_set m (Suc l) pt = {}"
  shows "pt_wf lm m' (Suc l) pt" and "pt_set m' (Suc l) pt = pt_set m (Suc l) pt \<union> N"
    and "pt_entry m' (Suc l) pt va =
      (if VPN_MASK va (Suc l) = i then pt_entry m' l (child m pt i) va else pt_entry m (Suc l) pt va)"
proof -
  let ?c = "child m pt"
  have ok: "page_ok lm pt" using wf by simp
  have out: "pt \<notin> pt_set m l (?c i)" using wf i by simp
  then have sp: "same_page m m' pt" by (rule same [OF pt_in_pt_set])
  note hc = has_child_same [OF ok sp]
  have tab: "load64 m' (slot pt j) = load64 m (slot pt j)" if "has_child m pt j" for j
    using entries_same [OF ok sp] that by (simp add: has_child_def)
  have other: "pt_set m' l (?c j) = pt_set m l (?c j) \<and> pt_wf lm m' l (?c j)
      \<and> (\<forall>va. pt_entry m' l (?c j) va = pt_entry m l (?c j) va)" if j: "has_child m pt j" "j \<noteq> i" for j
  proof (rule pt_frame)
    show "pt_wf lm m l (?c j)" using wf j by simp
    fix p
    assume p: "p \<in> pt_set m l (?c j)"
    have "pt_set m l (?c j) \<inter> pt_set m l (?c i) = {}" using wf i j by simp
    with p show "same_page m m' p"
      using child_subset [OF j(1), of l] by (intro same) auto
  qed
  have sets: "pt_set m' l (?c j) = pt_set m l (?c j) \<union> (if j = i then N else {})" if "has_child m pt j" for j
    using other [OF that] new(2) by auto
  have Nj: "N \<inter> pt_set m l (?c j) = {}" if "has_child m pt j" for j
    using N child_subset [OF that, of l] by blast
  show "pt_set m' (Suc l) pt = pt_set m (Suc l) pt \<union> N"
    using hc sets i by (auto split: if_splits)
  have ptN: "pt \<notin> N" using N by auto
  have old: "pte_table (load64 m (slot pt j)) \<and> pt_wf lm m l (?c j) \<and> pt \<notin> pt_set m l (?c j)"
    if "has_child m pt j" for j
    using wf that by simp
  show "pt_wf lm m' (Suc l) pt"
    unfolding pt_wf.simps
  proof (intro conjI allI impI)
    show "page_ok lm pt" by (rule ok)
    fix j
    assume "has_child m' pt j"
    then have j: "has_child m pt j" "child m' pt j = ?c j" using hc by simp_all
    show "pte_table (load64 m' (slot pt j))" using tab old j by simp
    show "pt_wf lm m' l (child m' pt j)" using j new(1) other by (cases "j = i") simp_all
    show "pt \<notin> pt_set m' l (child m' pt j)" using j sets old ptN by simp
  next
    fix j k
    assume "has_child m' pt j" "has_child m' pt k" and jk: "j \<noteq> k"
    then have j: "has_child m pt j" "child m' pt j = ?c j" and k: "has_child m pt k" "child m' pt k = ?c k"
      using hc by simp_all
    have "pt_set m l (?c j) \<inter> pt_set m l (?c k) = {}" using wf j(1) k(1) jk by simp
    then show "pt_set m' l (child m' pt j) \<inter> pt_set m' l (child m' pt k) = {}"
      using j k jk sets [OF j(1)] sets [OF k(1)] Nj [OF j(1)] Nj [OF k(1)] by auto
  qed
  show "pt_entry m' (Suc l) pt va =
      (if VPN_MASK va (Suc l) = i then pt_entry m' l (?c i) va else pt_entry m (Suc l) pt va)"
    using hc other i by simp
qed

section \<open>Installing an empty table\<close>

lemma pt_empty:
  assumes "page_ok lm q" and "\<And>i. unat i < 512 \<Longrightarrow> load64 m (slot q i) = 0"
  shows "pt_set m l q = {q}" and "pt_wf lm m l q" and "pt_entry m l q va = 0"
proof -
  have none: "\<not> has_child m q i" for i using assms(2) by (auto simp: has_child_def pte_valid_def)
  then have "{i. has_child m q i} = {}" by blast
  then show "pt_set m l q = {q}" by (cases l) (simp_all only: pt_set.simps UN_empty)
  show "pt_wf lm m l q" using none assms(1) by (cases l) simp_all
  show "pt_entry m l q va = 0" using none assms(2) VPN_MASK_less by (cases l) simp_all
qed

lemma table_pte:
  assumes "pg_aligned q"
  shows "PTE2PA (PA2PTE q OR PTE_V) = q" and "pte_valid (PA2PTE q OR PTE_V)" and "pte_table (PA2PTE q OR PTE_V)"
proof -
  show "PTE2PA (PA2PTE q OR PTE_V) = q"
    using PTE2PA_flags [of PTE_V q] assms by (simp add: PTE_V_def pg_aligned_iff)
  have "(PA2PTE q OR PTE_V) AND PTE_V = PTE_V"
    by (rule bit_word_eqI) (auto simp: bit_simps)
  then show "pte_valid (PA2PTE q OR PTE_V)" by (simp add: pte_valid_def PTE_V_def)
  have seven: "(7 :: u64) = mask 3" by (simp add: mask_eq_exp_minus_1)
  have flags: "PTE_R OR PTE_W OR PTE_X = push_bit 1 (mask 3)" by (simp add: pte_bits flip: seven)
  have "bit (push_bit 1 (mask 3) :: u64) n \<longleftrightarrow> 1 \<le> n \<and> n < 4" for n
    by (auto simp: bit_push_bit_iff bit_mask_iff simp del: push_bit_mask_eq push_bit_Suc push_bit_of_1
        One_nat_def)
  then have "(PA2PTE q OR PTE_V) AND push_bit 1 (mask 3) = 0"
    unfolding PA2PTE_def PTE_V_def by (intro bit_word_eqI) (auto simp: bit_and_iff bit_or_iff bit_push_bit_iff bit_1_iff simp del: push_bit_mask_eq)
  then show "pte_table (PA2PTE q OR PTE_V)" by (simp only: pte_table_def flags)
qed

lemma pt_install:
  assumes wf: "pt_wf lm m (Suc l) pt" and i: "unat i < 512" "\<not> has_child m pt i"
    and q: "page_ok lm q" "q \<notin> pt_set m (Suc l) pt"
    and same: "\<And>p. p \<in> pt_set m (Suc l) pt \<Longrightarrow> p \<noteq> pt \<Longrightarrow> same_page m m' p"
    and pti: "load64 m' (slot pt i) = PA2PTE q OR PTE_V"
    and ptj: "\<And>j. unat j < 512 \<Longrightarrow> j \<noteq> i \<Longrightarrow> load64 m' (slot pt j) = load64 m (slot pt j)"
    and zero: "\<And>j. unat j < 512 \<Longrightarrow> load64 m' (slot q j) = 0"
  shows "pt_wf lm m' (Suc l) pt" and "pt_set m' (Suc l) pt = insert q (pt_set m (Suc l) pt)"
    and "pt_entry m' (Suc l) pt va = pt_entry m (Suc l) pt va"
    and "has_child m' pt i" and "child m' pt i = q"
proof -
  note tp = table_pte [OF page_ok_aligned [OF q(1)]]
  note em = pt_empty [OF q(1) zero]
  show ci: "child m' pt i = q" using pti tp by (simp add: child_def)
  show hi: "has_child m' pt i" using pti tp i by (simp add: has_child_def)
  have hc: "has_child m' pt j \<longleftrightarrow> j = i \<or> has_child m pt j" for j
    using ptj [of j] hi by (cases "j = i") (auto simp: has_child_def)
  have cj: "child m' pt j = child m pt j" if "has_child m pt j" for j
    using ptj [of j] that i(2) by (cases "j = i") (simp_all add: child_def has_child_def)
  have old: "pte_table (load64 m (slot pt j)) \<and> pt_wf lm m l (child m pt j) \<and> pt \<notin> pt_set m l (child m pt j)"
    if "has_child m pt j" for j
    using wf that by simp
  have sub: "pt_set m' l (child m pt j) = pt_set m l (child m pt j) \<and> pt_wf lm m' l (child m pt j)
      \<and> (\<forall>va. pt_entry m' l (child m pt j) va = pt_entry m l (child m pt j) va)" if "has_child m pt j" for j
  proof (rule pt_frame)
    show "pt_wf lm m l (child m pt j)" using old [OF that] by simp
    fix p
    assume "p \<in> pt_set m l (child m pt j)"
    with old [OF that] child_subset [OF that, of l] show "same_page m m' p" by (intro same) auto
  qed
  have qj: "q \<notin> pt_set m l (child m pt j)" if "has_child m pt j" for j
    using q(2) child_subset [OF that, of l] by auto
  show "pt_set m' (Suc l) pt = insert q (pt_set m (Suc l) pt)"
    using hc cj sub ci em(1) by auto
  show "pt_entry m' (Suc l) pt va = pt_entry m (Suc l) pt va"
    using hc cj sub ci em(3) i(2) by (cases "VPN_MASK va (Suc l) = i") simp_all
  show "pt_wf lm m' (Suc l) pt"
    unfolding pt_wf.simps
  proof (intro conjI allI impI)
    show "page_ok lm pt" using wf by simp
    fix j
    assume j: "has_child m' pt j"
    have tabj: "load64 m' (slot pt j) = load64 m (slot pt j)" if "j \<noteq> i"
      using ptj [of j] that j by (simp add: has_child_def)
    show "pte_table (load64 m' (slot pt j))"
      using j hc old tabj pti tp by (cases "j = i") auto
    show "pt_wf lm m' l (child m' pt j)"
      using j hc cj sub ci em(2) by (cases "j = i") auto
    show "pt \<notin> pt_set m' l (child m' pt j)"
      using j hc cj sub ci em(1) old q(2) by (cases "j = i") auto
  next
    fix j k
    assume j: "has_child m' pt j" and k: "has_child m' pt k" and jk: "j \<noteq> k"
    have set': "pt_set m' l (child m' pt n) = (if n = i then {q} else pt_set m l (child m pt n))"
      if "has_child m' pt n" for n
      using that hc cj sub ci em(1) by auto
    have "pt_set m l (child m pt j) \<inter> pt_set m l (child m pt k) = {}"
      if "has_child m pt j" "has_child m pt k"
      using wf that jk by simp
    then show "pt_set m' l (child m' pt j) \<inter> pt_set m' l (child m' pt k) = {}"
      unfolding set' [OF j] set' [OF k] using j k jk hc qj by (auto split: if_splits)
  qed
qed

section \<open>Walks\<close>

lemma walk_lookup_missing: "missing m l pt va \<noteq> 0 \<Longrightarrow> walk_lookup_loop l pt va m = 0 \<and> pt_entry m l pt va = 0"
  by (induction l arbitrary: pt) (auto simp: has_child_VPN child_def Let_def split: if_splits)

lemma walk_lookup_leaf:
  assumes "pt_wf lm m l pt" and "missing m l pt va = 0"
  shows "\<exists>p \<in> pt_set m l pt. walk_lookup_loop l pt va m = slot p (VPN_MASK va 0)
     \<and> load64 m (slot p (VPN_MASK va 0)) = pt_entry m l pt va"
  using assms
proof (induction l arbitrary: pt)
  case 0
  then show ?case by simp
next
  case (Suc l)
  let ?i = "VPN_MASK va (Suc l)"
  have i: "has_child m pt ?i" using Suc.prems(2) by (simp split: if_splits)
  then have "\<exists>p \<in> pt_set m l (child m pt ?i). walk_lookup_loop l (child m pt ?i) va m = slot p (VPN_MASK va 0)
     \<and> load64 m (slot p (VPN_MASK va 0)) = pt_entry m l (child m pt ?i) va"
    using Suc.prems by (intro Suc.IH) auto
  moreover have "walk_lookup_loop (Suc l) pt va m = walk_lookup_loop l (child m pt ?i) va m"
    using i by (simp add: has_child_VPN child_def Let_def)
  ultimately show ?case using i child_subset [OF i, of l] by auto
qed

lemma slot_nonzero: "link_wf lm \<Longrightarrow> page_ok lm p \<Longrightarrow> unat i < 512 \<Longrightarrow> slot p i \<noteq> 0"
proof
  assume a: "link_wf lm" "page_ok lm p" "unat i < 512" and z: "slot p i = 0"
  have "PGROUNDDOWN 0 = p" using slot_page [OF page_ok_aligned [OF a(2)] a(3)] by (simp only: z)
  then have "p = 0" by (simp add: PGROUNDDOWN_def)
  then show False using page_ok_nonzero a by blast
qed

text \<open>Writing the leaf entry that a walk finds changes that one translation.\<close>

lemma pt_write_leaf:
  assumes "pt_wf lm m l pt" and "missing m l pt va = 0" and "m' = store64 m (walk_lookup_loop l pt va m) v"
  shows "pt_wf lm m' l pt \<and> pt_set m' l pt = pt_set m l pt
    \<and> (\<forall>va'. pt_entry m' l pt va' = (if same_vpn l va va' then v else pt_entry m l pt va'))"
  using assms(1,2,3)
proof (induction l arbitrary: pt)
  case 0
  have al: "pg_aligned pt" using 0 by (simp add: page_ok_aligned)
  have "load64 m' (slot pt (VPN_MASK va' 0)) =
      (if VPN_MASK va 0 = VPN_MASK va' 0 then v else load64 m (slot pt (VPN_MASK va' 0)))" for va'
    using 0(3) load64_store64_other [OF al VPN_MASK_less VPN_MASK_less] by simp
  with 0 show ?case by (simp add: same_vpn_def)
next
  case (Suc l)
  let ?i = "VPN_MASK va (Suc l)"
  have i: "has_child m pt ?i" and mis: "missing m l (child m pt ?i) va = 0"
    using Suc.prems(2) by (simp_all split: if_splits)
  have wl: "walk_lookup_loop (Suc l) pt va m = walk_lookup_loop l (child m pt ?i) va m"
    using i by (simp add: has_child_VPN child_def Let_def)
  have cwf: "pt_wf lm m l (child m pt ?i)" using Suc.prems(1) i by simp
  have IH: "pt_wf lm m' l (child m pt ?i)" "pt_set m' l (child m pt ?i) = pt_set m l (child m pt ?i) \<union> {}"
    "\<And>va'. pt_entry m' l (child m pt ?i) va' =
      (if same_vpn l va va' then v else pt_entry m l (child m pt ?i) va')"
    using Suc.IH [OF cwf mis] Suc.prems(3) wl by simp_all
  obtain p where p: "p \<in> pt_set m l (child m pt ?i)" "walk_lookup_loop l (child m pt ?i) va m = slot p (VPN_MASK va 0)"
    using walk_lookup_leaf [OF cwf mis] by blast
  have pal: "pg_aligned p" using pt_set_page_ok [OF cwf p(1)] by (rule page_ok_aligned)
  have same: "same_page m m' r" if "r \<notin> pt_set m l (child m pt ?i)" for r
  proof -
    have "r \<noteq> p" using that p(1) by blast
    then show ?thesis
      unfolding Suc.prems(3) wl p(2)
      by (intro same_page_sym [OF same_page_store [OF pal VPN_MASK_less]])
  qed
  note rep = pt_replace_child [OF Suc.prems(1) i same IH(1,2)]
  have "same_vpn (Suc l) va va' \<longleftrightarrow> VPN_MASK va' (Suc l) = ?i \<and> same_vpn l va va'" for va'
    by (auto simp: same_vpn_def le_Suc_eq)
  then show ?case
    using rep(1,2) rep(3) IH(3) i by auto
qed

section \<open>Creating the tables on a path\<close>

lemma mem_only_iff:
  "mem_only s s' \<longleftrightarrow> (\<exists>m f. s' = s\<lparr>k_mem := m, k_freelist := f\<rparr> \<or> s' = (settle s)\<lparr>k_mem := m, k_freelist := f\<rparr>)"
  by (auto simp: mem_only_def)

lemma mem_only_refl [simp]: "mem_only s s"
  by (simp add: mem_only_def)

lemma mem_only_frame:
  assumes "mem_only s s'"
  shows "k_link s' = k_link s" and "k_procs s' = k_procs s" and "k_locks s' = k_locks s"
    and "k_csr s' = k_csr s" and "k_pagetable s' = k_pagetable s" and "cpu_wf s \<Longrightarrow> cpu_wf s'"
    and "lock_free s' lk \<longleftrightarrow> lock_free s lk" and "settle s' = (settle s)\<lparr>k_mem := k_mem s', k_freelist := k_freelist s'\<rparr>"
  using assms unfolding mem_only_iff by auto

lemma mem_only_trans: "mem_only s s' \<Longrightarrow> mem_only s' s'' \<Longrightarrow> mem_only s s''"
  unfolding mem_only_iff by (elim exE disjE; simp; blast)

lemma mem_only_mem [simp]: "mem_only s (s\<lparr>k_mem := m\<rparr>)"
  by (simp add: mem_only_def)

lemma mem_only_settle: "mem_only s (settle s)"
  by (simp add: mem_only_def)

lemma mem_only_allocated: "mem_only s ((allocated p s)\<lparr>k_mem := m\<rparr>)" "mem_only s (allocated p s)"
  by (simp_all add: mem_only_def allocated_def)

lemma mem_only_freed: "mem_only s (freed p s)"
  by (simp add: mem_only_def freed_def)

text \<open>\<open>grows l pt ns ys s s'\<close>: the pages \<open>ns\<close> have moved from the pool, which now holds \<open>ys\<close>, into
  the table \<open>pt\<close>; no translation and no other page has changed.\<close>

definition grows :: "nat \<Rightarrow> u64 \<Rightarrow> u64 list \<Rightarrow> u64 list \<Rightarrow> kstate \<Rightarrow> kstate \<Rightarrow> bool" where
  "grows l pt ns ys s s' \<longleftrightarrow> kmem_rep s' ys \<and> mem_only s s'
     \<and> pt_wf (k_link s) (k_mem s') l pt \<and> pt_set (k_mem s') l pt = pt_set (k_mem s) l pt \<union> set ns
     \<and> (\<forall>va. pt_entry (k_mem s') l pt va = pt_entry (k_mem s) l pt va)
     \<and> (\<forall>p. p \<notin> pt_set (k_mem s) l pt \<longrightarrow> p \<notin> set ns \<longrightarrow> same_page (k_mem s) (k_mem s') p)"

lemma grows_trans:
  assumes "grows l pt ns ys s s'" and "grows l pt ns' zs s' s''"
  shows "grows l pt (ns @ ns') zs s s''"
proof -
  have "k_link s' = k_link s" using assms(1) by (simp add: grows_def mem_only_frame)
  moreover have "same_page (k_mem s) (k_mem s'') p"
    if "p \<notin> pt_set (k_mem s) l pt" "p \<notin> set ns" "p \<notin> set ns'" for p
    by (rule same_page_trans [of _ "k_mem s'"]) (use assms that in \<open>auto simp: grows_def\<close>)
  ultimately show ?thesis
    using assms unfolding grows_def by (auto intro: mem_only_trans)
qed

text \<open>One level down: growing the subtable grows the table.\<close>

lemma grows_child:
  assumes wf: "pt_wf (k_link s) (k_mem s) (Suc l) pt" and i: "has_child (k_mem s) pt i"
    and g: "grows l (child (k_mem s) pt i) ns ys s s'"
    and N: "set ns \<inter> pt_set (k_mem s) (Suc l) pt = {}"
  shows "grows (Suc l) pt ns ys s s'" and "has_child (k_mem s') pt i \<and> child (k_mem s') pt i = child (k_mem s) pt i"
proof -
  let ?c = "child (k_mem s) pt i"
  have same: "same_page (k_mem s) (k_mem s') p"
    if "p \<in> pt_set (k_mem s) (Suc l) pt" "p \<notin> pt_set (k_mem s) l ?c" for p
    using g that N unfolding grows_def by blast
  have new: "pt_wf (k_link s) (k_mem s') l ?c" "pt_set (k_mem s') l ?c = pt_set (k_mem s) l ?c \<union> set ns"
    and ent: "\<And>va. pt_entry (k_mem s') l ?c va = pt_entry (k_mem s) l ?c va"
    using g by (simp_all add: grows_def)
  note rep = pt_replace_child [OF wf i same new N]
  have "pt_entry (k_mem s') (Suc l) pt va = pt_entry (k_mem s) (Suc l) pt va" for va
    using rep(3) [of va] ent i by simp
  moreover have "same_page (k_mem s) (k_mem s') p" if "p \<notin> pt_set (k_mem s) (Suc l) pt" "p \<notin> set ns" for p
    using g that child_subset [OF i, of l] unfolding grows_def by blast
  ultimately show "grows (Suc l) pt ns ys s s'"
    using g rep(1,2) unfolding grows_def by blast
  have "same_page (k_mem s) (k_mem s') pt" using wf i by (intro same) auto
  then show "has_child (k_mem s') pt i \<and> child (k_mem s') pt i = ?c"
    using has_child_same [of "k_link s" pt "k_mem s" "k_mem s'"] wf i by simp
qed

text \<open>The step that installs a fresh table page.\<close>

lemma install_step:
  assumes rep: "kmem_rep s (q # ys)" and wf: "pt_wf (k_link s) (k_mem s) (Suc l) pt"
    and dis: "q \<notin> pt_set (k_mem s) (Suc l) pt" "pt \<notin> set ys"
    and i: "unat i < 512" "\<not> has_child (k_mem s) pt i"
    and s2: "s2 = (allocated q s)\<lparr>k_mem := store64 (memset q 0 4096 (k_mem (allocated q s))) (slot pt i) (PA2PTE q OR PTE_V)\<rparr>"
  shows "grows (Suc l) pt [q] ys s s2" and "has_child (k_mem s2) pt i" and "child (k_mem s2) pt i = q"
    and "\<And>j. \<not> has_child (k_mem s2) q j"
proof -
  let ?m = "k_mem s" and ?m1 = "memset q 0 4096 (k_mem (allocated q s))" and ?m2 = "k_mem s2"
  have ok: "page_ok (k_link s) q" "page_ok (k_link s) pt" using rep wf by (auto simp: kmem_rep_def)
  note al = ok [THEN page_ok_aligned]
  have neq: "pt \<noteq> q" using dis by auto
  have m2: "?m2 = store64 ?m1 (slot pt i) (PA2PTE q OR PTE_V)" by (simp add: s2)
  have same1: "same_page ?m ?m1 p" if "p \<noteq> q" for p
  proof -
    have "same_page ?m1 (memset q 5 4096 ?m) p"
      using same_page_memset [OF al(1) that] by (simp add: allocated_def)
    then show ?thesis using same_page_memset [OF al(1) that] by (meson same_page_sym same_page_trans)
  qed
  have same2: "same_page ?m1 ?m2 p" if "p \<noteq> pt" for p
    unfolding m2 by (rule same_page_sym [OF same_page_store [OF al(2) i(1) that]])
  have same: "same_page ?m ?m2 p" if "p \<noteq> q" "p \<noteq> pt" for p
    using same1 same2 that by (meson same_page_trans)
  have zero: "load64 ?m2 (slot q j) = 0" if "unat j < 512" for j
  proof -
    have "load64 ?m1 (slot q j) = load64 ?m2 (slot q j)"
      using neq by (intro load64_same_page [OF same2 al(1) that]) simp
    then show ?thesis using load64_memset_0 [OF al(1) that] by simp
  qed
  have pti: "load64 ?m2 (slot pt i) = PA2PTE q OR PTE_V" by (simp add: m2)
  have ptj: "load64 ?m2 (slot pt j) = load64 ?m (slot pt j)" if "unat j < 512" "j \<noteq> i" for j
  proof -
    have "load64 ?m2 (slot pt j) = load64 ?m1 (slot pt j)"
      unfolding m2 using that i al(2) by (intro load64_store64_other) auto
    then show ?thesis using load64_same_page [OF same1 [OF neq] al(2) that(1)] by simp
  qed
  note ins = pt_install [OF wf i ok(1) dis(1) _ pti ptj zero]
  have sp: "same_page ?m ?m2 p" if "p \<in> pt_set ?m (Suc l) pt" "p \<noteq> pt" for p
    using same dis(1) that by (cases "p = q") simp_all
  show "has_child ?m2 pt i" "child ?m2 pt i = q" using ins(4,5) sp by blast+
  show "\<not> has_child ?m2 q j" for j using zero by (auto simp: has_child_def pte_valid_def)
  have "kmem_rep s2 ys"
  proof (rule kmem_rep_same [OF alloc_page_run(2) [OF rep]])
    fix p
    assume p: "p \<in> set ys"
    then have "p \<noteq> q" "p \<noteq> pt" using rep dis(2) by (auto simp: kmem_rep_def)
    then have "same_page (k_mem (allocated q s)) ?m p"
      using same_page_memset [OF al(1)] by (simp add: allocated_def)
    then show "same_page (k_mem (allocated q s)) ?m2 p"
      using same \<open>p \<noteq> q\<close> \<open>p \<noteq> pt\<close> by (meson same_page_trans)
  qed (use rep in \<open>simp_all add: s2 allocated_def kmem_rep_def\<close>)
  moreover have "mem_only s s2" unfolding s2 by (rule mem_only_allocated)
  moreover have "same_page ?m ?m2 p" if "p \<notin> pt_set ?m (Suc l) pt" "p \<notin> set [q]" for p
    using that by (intro same) auto
  ultimately show "grows (Suc l) pt [q] ys s s2"
    using ins(1,2,3) sp unfolding grows_def by auto
qed

lemma walk_create_loop_child:
  "has_child (k_mem s) pt (VPN_MASK va (Suc l)) \<Longrightarrow>
   walk_create_loop (Suc l) pt va s = walk_create_loop l (child (k_mem s) pt (VPN_MASK va (Suc l))) va s"
  by (simp add: has_child_VPN child_def Let_def)

lemma walk_create_loop_install:
  assumes "kmem_rep s (q # ys)" and "\<not> has_child (k_mem s) pt (VPN_MASK va (Suc l))"
  shows "walk_create_loop (Suc l) pt va s = walk_create_loop l q va
    ((allocated q s)\<lparr>k_mem := store64 (memset q 0 4096 (k_mem (allocated q s))) (slot pt (VPN_MASK va (Suc l))) (PA2PTE q OR PTE_V)\<rparr>)"
proof -
  have q: "q \<noteq> 0" "pg_aligned q"
    using assms(1) by (auto simp: kmem_rep_def page_ok_aligned)
  show ?thesis
    using assms(2) alloc_page_run(1) [OF assms(1)] q table_pte(1) [OF q(2)]
    by (simp add: has_child_VPN Let_def exec_simps mem_write_def)
qed

lemma walk_create_loop_run:
  assumes "kmem_rep s xs" and "pt_wf (k_link s) (k_mem s) l pt" and "pt_set (k_mem s) l pt \<inter> set xs = {}"
    and "missing (k_mem s) l pt va \<le> length xs"
  shows "\<exists>s'. walk_create_loop l pt va s = Ok (walk_lookup_loop l pt va (k_mem s')) s'
    \<and> grows l pt (take (missing (k_mem s) l pt va) xs) (drop (missing (k_mem s) l pt va) xs) s s'
    \<and> missing (k_mem s') l pt va = 0"
  using assms
proof (induction l arbitrary: pt s xs)
  case 0
  then show ?case by (simp add: grows_def)
next
  case (Suc l)
  let ?i = "VPN_MASK va (Suc l)"
  have down: "\<exists>s'. walk_create_loop (Suc l) pt va s = Ok (walk_lookup_loop (Suc l) pt va (k_mem s')) s'
    \<and> grows (Suc l) pt (take (missing (k_mem s) (Suc l) pt va) xs) (drop (missing (k_mem s) (Suc l) pt va) xs) s s'
    \<and> missing (k_mem s') (Suc l) pt va = 0"
    if "kmem_rep s xs" and wf: "pt_wf (k_link s) (k_mem s) (Suc l) pt"
      and dis: "pt_set (k_mem s) (Suc l) pt \<inter> set xs = {}"
      and "missing (k_mem s) (Suc l) pt va \<le> length xs" and i: "has_child (k_mem s) pt ?i" for s xs
  proof -
    let ?c = "child (k_mem s) pt ?i" and ?n = "missing (k_mem s) l (child (k_mem s) pt ?i) va"
    have "\<exists>s'. walk_create_loop l ?c va s = Ok (walk_lookup_loop l ?c va (k_mem s')) s'
      \<and> grows l ?c (take ?n xs) (drop ?n xs) s s' \<and> missing (k_mem s') l ?c va = 0"
      using that child_subset [OF i, of l] by (intro Suc.IH) auto
    then obtain s' where s': "walk_create_loop l ?c va s = Ok (walk_lookup_loop l ?c va (k_mem s')) s'"
        "grows l ?c (take ?n xs) (drop ?n xs) s s'" "missing (k_mem s') l ?c va = 0" by blast
    have "set (take ?n xs) \<inter> pt_set (k_mem s) (Suc l) pt = {}" using dis set_take_subset [of ?n xs] by blast
    note g = grows_child [OF wf i s'(2) this]
    have "walk_lookup_loop (Suc l) pt va (k_mem s') = walk_lookup_loop l ?c va (k_mem s')"
      using g(2) by (auto simp: has_child_VPN child_def Let_def)
    then show ?thesis
      using s' g i
      by (intro exI [of _ s']) (simp add: walk_create_loop_child del: walk_create_loop.simps walk_lookup_loop.simps)
  qed
  show ?case
  proof (cases "has_child (k_mem s) pt ?i")
    case True
    with Suc.prems show ?thesis by (intro down)
  next
    case False
    then have n: "missing (k_mem s) (Suc l) pt va = Suc l" by simp
    with Suc.prems(4) obtain q ys where xs: "xs = q # ys" and len: "l \<le> length ys" by (cases xs) auto
    define s2 where "s2 = (allocated q s)\<lparr>k_mem := store64 (memset q 0 4096 (k_mem (allocated q s))) (slot pt ?i) (PA2PTE q OR PTE_V)\<rparr>"
    have dis: "q \<notin> pt_set (k_mem s) (Suc l) pt" "pt \<notin> set ys" using Suc.prems(3) xs by auto
    note ins = install_step [OF Suc.prems(1) [unfolded xs] Suc.prems(2) dis VPN_MASK_less False s2_def]
    note g = ins(1) [unfolded grows_def]
    have n2: "missing (k_mem s2) (Suc l) pt va = l" using ins(2,3,4) by (cases l) simp_all
    have "k_link s2 = k_link s" using g by (simp add: mem_only_frame)
    moreover have "pt_set (k_mem s2) (Suc l) pt \<inter> set ys = {}"
      using g Suc.prems(1,3) xs by (auto simp: kmem_rep_def)
    ultimately obtain s' where s': "walk_create_loop (Suc l) pt va s2 = Ok (walk_lookup_loop (Suc l) pt va (k_mem s')) s'"
        "grows (Suc l) pt (take l ys) (drop l ys) s2 s'" "missing (k_mem s') (Suc l) pt va = 0"
      using down [of s2 ys] g ins(2) n2 len by metis
    have "walk_create_loop (Suc l) pt va s = walk_create_loop (Suc l) pt va s2"
      using walk_create_loop_install [OF Suc.prems(1) [unfolded xs] False] walk_create_loop_child [OF ins(2)] ins(3)
      by (simp only: s2_def)
    then show ?thesis
      using s' grows_trans [OF ins(1) s'(2)] n xs
      by (intro exI [of _ s']) (simp del: walk_create_loop.simps walk_lookup_loop.simps missing.simps)
  qed
qed

text \<open>With too few pages in the pool, the walk ends in the allocator's panic.\<close>

lemma walk_create_loop_exhausted:
  assumes "kmem_rep s xs" and "pt_wf (k_link s) (k_mem s) l pt" and "pt_set (k_mem s) l pt \<inter> set xs = {}"
    and "length xs < missing (k_mem s) l pt va"
  shows "\<exists>s'. walk_create_loop l pt va s = Err (Panic ''alloc_page'') s'"
  using assms
proof (induction l arbitrary: pt s xs)
  case 0
  then show ?case by simp
next
  case (Suc l)
  let ?i = "VPN_MASK va (Suc l)"
  show ?case
  proof (cases "has_child (k_mem s) pt ?i")
    case True
    have "\<exists>s'. walk_create_loop l (child (k_mem s) pt ?i) va s = Err (Panic ''alloc_page'') s'"
      using Suc.prems True child_subset [OF True, of l] by (intro Suc.IH [of s xs]) auto
    then show ?thesis by (simp only: walk_create_loop_child [OF True])
  next
    case no: False
    show ?thesis
    proof (cases xs)
      case Nil
      then have "alloc_page s = Err (Panic ''alloc_page'') (settle s)" using Suc.prems(1) by (simp add: alloc_page_empty)
      then show ?thesis using no by (simp add: has_child_VPN Let_def)
    next
      case (Cons q ys)
      define s2 where "s2 = (allocated q s)\<lparr>k_mem := store64 (memset q 0 4096 (k_mem (allocated q s))) (slot pt ?i) (PA2PTE q OR PTE_V)\<rparr>"
      have dis: "q \<notin> pt_set (k_mem s) (Suc l) pt" "pt \<notin> set ys" using Suc.prems(3) Cons by auto
      note rep = Suc.prems(1) [unfolded Cons]
      note ins = install_step [OF rep Suc.prems(2) dis VPN_MASK_less no s2_def]
      note g = ins(1) [unfolded grows_def]
      have l: "k_link s2 = k_link s" using g by (simp add: mem_only_frame)
      have n2: "missing (k_mem s2) l q va = l" using ins(4) by (cases l) simp_all
      have q: "pt_wf (k_link s) (k_mem s2) l q" "q \<in> pt_set (k_mem s2) (Suc l) pt"
        "pt_set (k_mem s2) l q \<subseteq> pt_set (k_mem s2) (Suc l) pt"
        using g ins(2,3) child_subset [OF ins(2), of l] by auto
      have "\<exists>s'. walk_create_loop l q va s2 = Err (Panic ''alloc_page'') s'"
      proof (rule Suc.IH [of _ ys])
        show "kmem_rep s2 ys" using g by simp
        show "pt_wf (k_link s2) (k_mem s2) l q" using q l by simp
        show "pt_set (k_mem s2) l q \<inter> set ys = {}" using q(3) g Suc.prems(1,3) Cons by (auto simp: kmem_rep_def)
        show "length ys < missing (k_mem s2) l q va" using n2 Suc.prems(4) no Cons by simp
      qed
      then show ?thesis using walk_create_loop_install [OF rep no] by (simp only: s2_def)
    qed
  qed
qed

section \<open>Address spaces\<close>

definition vm_rep :: "kstate \<Rightarrow> u64 \<Rightarrow> u64 list \<Rightarrow> bool" where
  "vm_rep s pt xs \<longleftrightarrow> kmem_rep s xs \<and> pt_wf (k_link s) (k_mem s) 2 pt \<and> pt_set (k_mem s) 2 pt \<inter> set xs = {}"

definition tables :: "kstate \<Rightarrow> u64 \<Rightarrow> u64 set" where
  "tables s pt = pt_set (k_mem s) 2 pt"

definition translate :: "kstate \<Rightarrow> u64 \<Rightarrow> u64 \<Rightarrow> u64" where
  "translate s pt va = pt_entry (k_mem s) 2 pt va"

definition absent :: "kstate \<Rightarrow> u64 \<Rightarrow> u64 \<Rightarrow> nat" where
  "absent s pt va = missing (k_mem s) 2 pt va"

text \<open>An update of an address space: the translation becomes \<open>tr\<close>, the pages \<open>ns\<close> come from the
  pool, which now holds \<open>ys\<close>, and no page outside the tables changes.\<close>

definition vm_update :: "u64 \<Rightarrow> u64 list \<Rightarrow> u64 list \<Rightarrow> (u64 \<Rightarrow> u64) \<Rightarrow> kstate \<Rightarrow> kstate \<Rightarrow> bool" where
  "vm_update pt ns ys tr s s' \<longleftrightarrow> vm_rep s' pt ys \<and> mem_only s s' \<and> tables s' pt = tables s pt \<union> set ns
     \<and> translate s' pt = tr \<and> (\<forall>p. p \<notin> tables s' pt \<longrightarrow> same_page (k_mem s) (k_mem s') p)"

lemma vm_repD:
  assumes "vm_rep s pt xs"
  shows "kmem_rep s xs" and "pt_wf (k_link s) (k_mem s) 2 pt" and "pt_set (k_mem s) 2 pt \<inter> set xs = {}"
    and "link_wf (k_link s)" and "cpu_wf s" and "distinct xs" and "page_ok (k_link s) pt"
  using assms by (auto simp: vm_rep_def kmem_rep_def dest: pt_wf_page_ok)

lemma leaf_address:
  assumes wf: "pt_wf lm m l pt" and mis: "missing m l pt va = 0" and lw: "link_wf lm"
  shows "walk_lookup_loop l pt va m \<noteq> 0" and "load64 m (walk_lookup_loop l pt va m) = pt_entry m l pt va"
    and "p \<notin> pt_set m l pt \<Longrightarrow> same_page m (store64 m (walk_lookup_loop l pt va m) v) p"
proof -
  obtain q where q: "q \<in> pt_set m l pt" "walk_lookup_loop l pt va m = slot q (VPN_MASK va 0)"
      "load64 m (slot q (VPN_MASK va 0)) = pt_entry m l pt va"
    using walk_lookup_leaf [OF wf mis] by blast
  have ok: "page_ok lm q" using pt_set_page_ok [OF wf q(1)] .
  show "walk_lookup_loop l pt va m \<noteq> 0" using slot_nonzero [OF lw ok VPN_MASK_less] q(2) by simp
  show "load64 m (walk_lookup_loop l pt va m) = pt_entry m l pt va" using q by simp
  assume "p \<notin> pt_set m l pt"
  with q(1) have "p \<noteq> q" by blast
  then show "same_page m (store64 m (walk_lookup_loop l pt va m) v) p"
    unfolding q(2) by (rule same_page_sym [OF same_page_store [OF page_ok_aligned [OF ok] VPN_MASK_less]])
qed

text \<open>Writing the leaf that a walk finds.\<close>

lemma vm_write_leaf:
  assumes rep: "vm_rep s pt xs" and mis: "absent s pt va = 0"
    and s': "s' = s\<lparr>k_mem := store64 (k_mem s) (walk_lookup pt va (k_mem s)) v\<rparr>"
  shows "vm_update pt [] xs (\<lambda>va'. if same_vpn 2 va va' then v else translate s pt va') s s'"
proof -
  note r = vm_repD [OF rep]
  note leaf = leaf_address [OF r(2) mis [unfolded absent_def] r(4), folded walk_lookup_def]
  have m: "k_mem s' = store64 (k_mem s) (walk_lookup_loop 2 pt va (k_mem s)) v" by (simp add: s' walk_lookup_def)
  have same: "same_page (k_mem s) (k_mem s') p" if "p \<notin> pt_set (k_mem s) 2 pt" for p
    using leaf(3) [OF that] by (simp add: s')
  note w = pt_write_leaf [OF r(2) mis [unfolded absent_def] m]
  have "kmem_rep s' xs"
  proof (rule kmem_rep_same [OF r(1)])
    show "\<And>p. p \<in> set xs \<Longrightarrow> same_page (k_mem s) (k_mem s') p" using same r(3) by blast
  qed (use r(1) in \<open>simp_all add: s' kmem_rep_def\<close>)
  moreover have "mem_only s s'" by (simp add: s')
  moreover have "k_link s' = k_link s" by (simp add: s')
  ultimately show ?thesis
    using w r(3) same by (auto simp: vm_update_def vm_rep_def tables_def translate_def)
qed

lemma vm_update_trans:
  assumes "vm_update pt ns ys tr s s'" and "vm_update pt ns' zs tr' s' s''"
  shows "vm_update pt (ns @ ns') zs tr' s s''"
proof -
  have "same_page (k_mem s) (k_mem s'') p" if "p \<notin> tables s'' pt" for p
    by (rule same_page_trans [of _ "k_mem s'"]) (use assms that in \<open>auto simp: vm_update_def\<close>)
  then show ?thesis using assms unfolding vm_update_def by (auto intro: mem_only_trans)
qed

lemma walk_create_run:
  assumes rep: "vm_rep s pt xs" and n: "n = absent s pt va" and "n \<le> length xs"
  shows "\<exists>s'. walk_create pt va s = Ok (walk_lookup pt va (k_mem s')) s'
    \<and> vm_update pt (take n xs) (drop n xs) (translate s pt) s s' \<and> absent s' pt va = 0"
proof -
  note r = vm_repD [OF rep]
  obtain s' where s': "walk_create_loop 2 pt va s = Ok (walk_lookup_loop 2 pt va (k_mem s')) s'"
      "grows 2 pt (take n xs) (drop n xs) s s'" "missing (k_mem s') 2 pt va = 0"
    using walk_create_loop_run [OF r(1,2,3)] assms(3) unfolding n absent_def by blast
  have "set (take n xs) \<inter> set (drop n xs) = {}" using r(6) by (simp add: set_take_disj_set_drop_if_distinct)
  moreover have "set (drop n xs) \<subseteq> set xs" by (rule set_drop_subset)
  ultimately have "pt_set (k_mem s') 2 pt \<inter> set (drop n xs) = {}"
    using s'(2) r(3) unfolding grows_def by blast
  moreover have "k_link s' = k_link s" using s'(2) by (simp add: grows_def mem_only_frame)
  ultimately have "vm_update pt (take n xs) (drop n xs) (translate s pt) s s'"
    using s'(2) by (auto simp: vm_update_def vm_rep_def grows_def tables_def translate_def fun_eq_iff)
  then show ?thesis using s' by (auto simp: walk_create_def walk_lookup_def absent_def)
qed

lemma walk_create_exhausted:
  assumes "vm_rep s pt xs" and "length xs < absent s pt va"
  shows "\<exists>s'. walk_create pt va s = Err (Panic ''alloc_page'') s'"
  using walk_create_loop_exhausted [OF vm_repD(1-3) [OF assms(1)]] assms(2)
  by (simp add: walk_create_def absent_def)

lemma translate_absent: "absent s pt va \<noteq> 0 \<Longrightarrow> translate s pt va = 0 \<and> walk_lookup pt va (k_mem s) = 0"
  unfolding absent_def translate_def walk_lookup_def using walk_lookup_missing by blast

lemma map_page_run:
  assumes rep: "vm_rep s pt xs" and al: "pg_aligned va" "pg_aligned pa"
    and n: "n = absent s pt va" "n \<le> length xs" and free: "\<not> pte_valid (translate s pt va)"
  shows "\<exists>s'. map_page pt va pa perm s = Ok 0 s'
    \<and> vm_update pt (take n xs) (drop n xs)
        (\<lambda>va'. if same_vpn 2 va va' then PA2PTE pa OR scast perm OR PTE_V else translate s pt va') s s'"
proof -
  obtain s1 where s1: "walk_create pt va s = Ok (walk_lookup pt va (k_mem s1)) s1"
      "vm_update pt (take n xs) (drop n xs) (translate s pt) s s1" "absent s1 pt va = 0"
    using walk_create_run [OF rep n] by blast
  then have rep1: "vm_rep s1 pt (drop n xs)" and tr: "translate s1 pt = translate s pt" by (simp_all add: vm_update_def)
  note r1 = vm_repD [OF rep1]
  note leaf = leaf_address [OF r1(2) s1(3) [unfolded absent_def] r1(4), folded walk_lookup_def translate_def]
  define s2 where "s2 = s1\<lparr>k_mem := store64 (k_mem s1) (walk_lookup pt va (k_mem s1)) (PA2PTE pa OR scast perm OR PTE_V)\<rparr>"
  have "map_page pt va pa perm s = Ok 0 s2"
    using al leaf(1,2) s1(1) free tr
    by (simp add: map_page_def pg_aligned_def exec_simps mem_write_def pte_valid_def s2_def)
  then show ?thesis
    using vm_update_trans [OF s1(2) vm_write_leaf [OF rep1 s1(3) s2_def]]
    unfolding tr append_Nil2 by blast
qed

lemma map_page_unaligned: "\<not> pg_aligned va \<or> \<not> pg_aligned pa \<Longrightarrow> map_page pt va pa perm s = Ok (-1) s"
  by (auto simp: map_page_def pg_aligned_def ret_def)

lemma map_page_remap:
  assumes rep: "vm_rep s pt xs" and al: "pg_aligned va" "pg_aligned pa" and v: "pte_valid (translate s pt va)"
  shows "\<exists>s'. map_page pt va pa perm s = Err (Panic ''remap'') s' \<and> translate s' pt = translate s pt"
proof -
  have mis: "absent s pt va = 0" using v translate_absent by (force simp: pte_valid_def)
  obtain s1 where s1: "walk_create pt va s = Ok (walk_lookup pt va (k_mem s1)) s1"
      "vm_update pt [] xs (translate s pt) s s1" "absent s1 pt va = 0"
    using walk_create_run [OF rep refl, of va] mis by auto
  then have rep1: "vm_rep s1 pt xs" and tr: "translate s1 pt = translate s pt" by (simp_all add: vm_update_def)
  note r1 = vm_repD [OF rep1]
  note leaf = leaf_address [OF r1(2) s1(3) [unfolded absent_def] r1(4), folded walk_lookup_def translate_def]
  show ?thesis
    using al leaf(1,2) s1(1) v tr by (simp add: map_page_def pg_aligned_def exec_simps pte_valid_def)
qed

lemma map_page_exhausted:
  assumes "vm_rep s pt xs" and "pg_aligned va" "pg_aligned pa" and "length xs < absent s pt va"
  shows "\<exists>s'. map_page pt va pa perm s = Err (Panic ''alloc_page'') s'"
  using walk_create_exhausted [OF assms(1,4)] assms(2,3) by (auto simp: map_page_def pg_aligned_def)

lemma unmap_page_run:
  assumes rep: "vm_rep s pt xs" and v: "pte_valid (translate s pt va)"
  shows "\<exists>s'. unmap_page pt va s = Ok () s'
    \<and> vm_update pt [] xs (\<lambda>va'. if same_vpn 2 va va' then 0 else translate s pt va') s s'"
proof -
  have mis: "absent s pt va = 0" using v translate_absent by (force simp: pte_valid_def)
  note r = vm_repD [OF rep]
  note leaf = leaf_address [OF r(2) mis [unfolded absent_def] r(4), folded walk_lookup_def translate_def]
  define s2 where "s2 = s\<lparr>k_mem := store64 (k_mem s) (walk_lookup pt va (k_mem s)) 0\<rparr>"
  have "unmap_page pt va s = Ok () s2"
    using leaf(1,2) v by (simp add: unmap_page_def exec_simps mem_write_def pte_valid_def s2_def)
  then show ?thesis using vm_write_leaf [OF rep mis s2_def] by blast
qed

lemma unmap_page_errors:
  assumes rep: "vm_rep s pt xs" and v: "\<not> pte_valid (translate s pt va)"
  shows "unmap_page pt va s = Err (Panic (if absent s pt va = 0 then ''unmap_page: not mapped''
    else ''unmap_page: address not mapped'')) s"
proof (cases "absent s pt va = 0")
  case True
  note r = vm_repD [OF rep]
  note leaf = leaf_address [OF r(2) True [unfolded absent_def] r(4), folded walk_lookup_def translate_def]
  show ?thesis using True leaf(1,2) v by (simp add: unmap_page_def exec_simps pte_valid_def)
next
  case False
  with translate_absent show ?thesis by (simp add: unmap_page_def exec_simps)
qed

lemma create_pagetable_run:
  assumes "kmem_rep s (p # xs)"
  shows "\<exists>s'. create_pagetable s = Ok p s' \<and> vm_rep s' p xs \<and> mem_only s s' \<and> tables s' p = {p}
    \<and> (\<forall>va. translate s' p va = 0) \<and> (\<forall>q. q \<noteq> p \<longrightarrow> same_page (k_mem s) (k_mem s') q)"
proof -
  have ok: "page_ok (k_link s) p" "link_wf (k_link s)" "p \<notin> set xs" using assms by (auto simp: kmem_rep_def)
  note al = page_ok_aligned [OF ok(1)] and nz = page_ok_nonzero [OF ok(2,1)]
  note a = alloc_page_run [OF assms]
  define s2 where "s2 = (allocated p s)\<lparr>k_mem := memset p 0 4096 (k_mem (allocated p s))\<rparr>"
  have c: "create_pagetable s = Ok p s2"
    using a(1) nz by (simp add: create_pagetable_def exec_simps mem_write_def s2_def)
  have l: "k_link s2 = k_link s" by (simp add: s2_def valid_allocated allocated_def)
  have "load64 (k_mem s2) (slot p i) = 0" if "unat i < 512" for i
    using load64_memset_0 [OF al that] by (simp add: s2_def)
  note e = pt_empty [OF ok(1) this]
  have same2: "same_page (k_mem (allocated p s)) (k_mem s2) q" if "q \<noteq> p" for q
    using same_page_sym [OF same_page_memset [OF al that]] by (simp add: s2_def)
  have "kmem_rep s2 xs"
  proof (rule kmem_rep_same [OF a(2)])
    show "\<And>q. q \<in> set xs \<Longrightarrow> same_page (k_mem (allocated p s)) (k_mem s2) q" using same2 ok(3) by metis
  qed (use a(2) in \<open>simp_all add: s2_def kmem_rep_def\<close>)
  then have "vm_rep s2 p xs" using e(1,2) ok(3) l by (simp add: vm_rep_def)
  moreover have "same_page (k_mem s) (k_mem s2) q" if "q \<noteq> p" for q
    by (rule same_page_trans [OF _ same2 [OF that]])
       (use same_page_sym [OF same_page_memset [OF al that]] in \<open>simp add: allocated_def\<close>)
  moreover have "mem_only s s2" unfolding s2_def by (rule mem_only_allocated)
  ultimately show ?thesis using c e by (auto simp: tables_def translate_def)
qed

lemma create_pagetable_exhausted:
  "kmem_rep s [] \<Longrightarrow> create_pagetable s = Err (Panic ''alloc_page'') (settle s)"
  using alloc_page_empty [of s] by (simp add: create_pagetable_def)

end
