(* ===== verification/Kvm.thy ===== *)
theory Kvm
  imports Vm
begin

text \<open>
  What \<open>kernel/mm/vm.c\<close> builds out of single mappings: \<open>kvmmap\<close> maps a range of pages,
  \<open>kvminit\<close> the kernel's direct map, and \<open>destroy_pagetable\<close> takes a whole address space down.

  The lemmas: \<open>kvmmap\<close> returns and maps every page of the range to its physical page and no
  other, with a bound on the table pages it takes from the pool; the direct map covers the
  kernel's text, its data with the free memory, and the UART, and nothing else; tearing a table
  down gives back exactly its table pages and the pages it maps.
\<close>

section \<open>Mapping a range of pages\<close>

definition vpn :: "u64 \<Rightarrow> nat" where
  "vpn va = unat va div 4096 mod 134217728"

text \<open>How many tables a walk along \<open>n\<close> more pages can run into: one at every 2 MB boundary and
  another at every 1 GB boundary.\<close>

definition range_cost :: "u64 \<Rightarrow> nat \<Rightarrow> nat" where
  "range_cost a n = ((unat a + 4096 * n) div 2097152 - unat a div 2097152)
     + ((unat a + 4096 * n) div 1073741824 - unat a div 1073741824)"

lemma unat_VPN_MASK: "unat (VPN_MASK va l) = unat va div 2 ^ (12 + 9 * l) mod 512"
proof -
  have "unat (drop_bit (12 + 9 * l) va AND mask 9) = unat (drop_bit (12 + 9 * l) va) mod 2 ^ 9"
    by (simp only: take_bit_eq_mask [symmetric] unsigned_take_bit_eq) (simp only: take_bit_eq_mod)
  then show ?thesis by (simp add: VPN_MASK_def VPN_SHIFT_def mask9 unat_drop_bit)
qed

lemma digits: "x mod 134217728 = x mod 512 + 512 * (x div 512 mod 512) + 262144 * (x div 262144 mod 512)" for x :: nat
  using mod_mult2_eq [of x 262144 512] mod_mult2_eq [of x 512 512] by simp

lemma unat_VPN_levels:
  "unat (VPN_MASK va 0) = unat va div 4096 mod 512"
  "unat (VPN_MASK va (Suc 0)) = unat va div 4096 div 512 mod 512"
  "unat (VPN_MASK va 2) = unat va div 4096 div 262144 mod 512"
  by (simp_all add: unat_VPN_MASK div_mult2_eq [symmetric])

lemma same_vpn_iff: "same_vpn 2 va va' \<longleftrightarrow> vpn va = vpn va'"
proof -
  have "(\<forall>k \<le> 2. P k) \<longleftrightarrow> P 0 \<and> P (Suc 0) \<and> P (2 :: nat)" for P
    by (auto simp: numeral_2_eq_2 le_Suc_eq)
  then have "same_vpn 2 va va' \<longleftrightarrow> unat (VPN_MASK va 0) = unat (VPN_MASK va' 0)
      \<and> unat (VPN_MASK va (Suc 0)) = unat (VPN_MASK va' (Suc 0)) \<and> unat (VPN_MASK va 2) = unat (VPN_MASK va' 2)"
    by (simp add: same_vpn_def word_unat_eq_iff)
  also have "\<dots> \<longleftrightarrow> vpn va = vpn va'"
  proof -
    define x y where "x = unat va div 4096" and "y = unat va' div 4096"
    have 1: "x mod 512 = x mod 134217728 mod 512" "y mod 512 = y mod 134217728 mod 512"
      by (simp_all add: mod_mod_cancel)
    have 2: "x div 512 mod 512 = x mod 134217728 div 512 mod 512" "y div 512 mod 512 = y mod 134217728 div 512 mod 512"
      using mod_mult2_eq [of x 512 262144] mod_mult2_eq [of y 512 262144]
      by (simp_all add: mod_mod_cancel)
    have 3: "x div 262144 mod 512 = x mod 134217728 div 262144" "y div 262144 mod 512 = y mod 134217728 div 262144"
      using mod_mult2_eq [of x 262144 512] mod_mult2_eq [of y 262144 512] by simp_all
    show ?thesis
      unfolding unat_VPN_levels vpn_def x_def [symmetric] y_def [symmetric]
      using 1 2 3 digits [of x] digits [of y] by metis
  qed
  finally show ?thesis .
qed

lemma vpn_next: "vpn a + 1 < 134217728 \<Longrightarrow> vpn (a + 4096) = vpn a + 1"
proof -
  assume a: "vpn a + 1 < 134217728"
  have "unat (a + 4096) div 4096 = (unat a + 4096) mod (4096 * 4503599627370496) div 4096"
    by (simp add: unat_add_u64_mod)
  also have "\<dots> = (unat a + 4096) div 4096 mod 4503599627370496"
    by (subst mod_mult2_eq) simp
  also have "(unat a + 4096) div 4096 = unat a div 4096 + 1" by linarith
  finally have "vpn (a + 4096) = (unat a div 4096 + 1) mod 4503599627370496 mod 134217728"
    by (simp add: vpn_def)
  also have "\<dots> = (unat a div 4096 + 1) mod 134217728" by (simp add: mod_mod_cancel)
  also have "\<dots> = vpn a + 1" using a unfolding vpn_def by (simp add: mod_Suc)
  finally show ?thesis .
qed

lemma vpn_low: "unat va < 549755813888 \<Longrightarrow> vpn va = unat va div 4096"
  by (simp add: vpn_def)

lemma absent_levels:
  "absent s pt va = (if has_child (k_mem s) pt (VPN_MASK va 2)
     then if has_child (k_mem s) (child (k_mem s) pt (VPN_MASK va 2)) (VPN_MASK va (Suc 0)) then 0 else 1 else 2)"
  by (simp add: absent_def numeral_2_eq_2)

lemma absent_next:
  assumes "absent s pt a = 0" and "pg_aligned a" and "unat a + 4096 < 18446744073709551616"
  shows "absent s pt (a + 4096) \<le> range_cost a 1"
proof -
  define x where "x = unat a div 4096"
  then have x: "unat a = 4096 * x" "unat (a + 4096) = 4096 * (x + 1)"
    using assms(2,3) by (auto simp: pg_aligned_unat unat_add_u64)
  have cost: "range_cost a 1 = ((x + 1) div 512 - x div 512) + ((x + 1) div 262144 - x div 262144)"
  proof -
    have d: "(4096 * y) div 2097152 = y div 512" "(4096 * y) div 1073741824 = y div 262144" for y :: nat
      using div_mult2_eq [of "4096 * y" 4096 512] div_mult2_eq [of "4096 * y" 4096 262144] by simp_all
    have "4096 * x + 4096 * 1 = 4096 * (x + 1)" by simp
    then show ?thesis by (simp only: range_cost_def x(1) d)
  qed
  have vx: "unat a div 4096 = x" "unat (a + 4096) div 4096 = x + 1" using x by simp_all
  have hi: "VPN_MASK (a + 4096) 2 = VPN_MASK a 2" if "(x + 1) div 262144 = x div 262144"
    using that by (simp only: word_unat_eq_iff unat_VPN_levels vx)
  have lo: "VPN_MASK (a + 4096) (Suc 0) = VPN_MASK a (Suc 0)" if "(x + 1) div 512 = x div 512"
    using that by (simp only: word_unat_eq_iff unat_VPN_levels vx)
  have mono: "x div 512 \<le> (x + 1) div 512" "x div 262144 \<le> (x + 1) div 262144" by (simp_all add: div_le_mono)
  have d: "(x + 1) div 512 \<noteq> x div 512" if "(x + 1) div 262144 \<noteq> x div 262144"
  proof
    assume "(x + 1) div 512 = x div 512"
    then have "(x + 1) div 512 div 512 = x div 512 div 512" by simp
    with that show False by (simp add: div_mult2_eq [symmetric])
  qed
  show ?thesis
  proof (cases "(x + 1) div 262144 = x div 262144")
    case True
    show ?thesis
    proof (cases "(x + 1) div 512 = x div 512")
      case T: True
      then have "absent s pt (a + 4096) = absent s pt a" by (simp only: absent_levels hi [OF True] lo [OF T])
      then show ?thesis using assms(1) by simp
    next
      case False
      then have "1 \<le> range_cost a 1" using mono cost by linarith
      moreover have "absent s pt (a + 4096) \<le> 1"
        using assms(1) hi [OF True] by (auto simp: absent_levels split: if_splits)
      ultimately show ?thesis by linarith
    qed
  next
    case False
    then have "2 \<le> range_cost a 1" using mono d cost by linarith
    moreover have "absent s pt (a + 4096) \<le> 2" by (simp add: absent_levels)
    ultimately show ?thesis by linarith
  qed
qed

lemma range_cost_add:
  assumes "unat a + 4096 * j < 18446744073709551616"
  shows "range_cost a (j + k) = range_cost a j + range_cost (a + 4096 * of_nat j) k"
proof -
  have "unat (4096 * of_nat j :: u64) = 4096 * j"
    using assms by (simp add: unat_mult_u64 unat_of_nat_u64)
  then have u: "unat (a + 4096 * of_nat j) = unat a + 4096 * j" using assms by (simp add: unat_add_u64)
  have split: "(x + y + z) div d - x div d = ((x + y) div d - x div d) + ((x + y + z) div d - (x + y) div d)"
    for x y z d :: nat
    using div_le_mono [of x "x + y" d] div_le_mono [of "x + y" "x + y + z" d] by simp
  have sum: "unat a + 4096 * (j + k) = unat a + 4096 * j + 4096 * k" by simp
  show ?thesis
    unfolding range_cost_def u sum split [of "unat a" "4096 * j" "4096 * k" 2097152]
      split [of "unat a" "4096 * j" "4096 * k" 1073741824]
    by (simp only: ac_simps)
qed

lemma valid_absent: "pte_valid (translate s pt va) \<Longrightarrow> absent s pt va = 0"
  using translate_absent by (force simp: pte_valid_def)

lemma pte_valid_flags [simp]: "pte_valid (x OR f OR PTE_V)"
proof -
  have "(x OR f OR PTE_V) AND PTE_V = PTE_V" by (rule bit_word_eqI) (auto simp: bit_simps)
  then show ?thesis by (simp add: pte_valid_def PTE_V_def)
qed

lemma kvmmap_loop_run:
  assumes "vm_rep s pt xs" and "pg_aligned a" and "pg_aligned pa" and "unat pa + 4096 * n < 18446744073709551616"
    and "unat a + 4096 * n < 18446744073709551616" and "vpn a + n < 134217728"
    and "absent s pt a + range_cost a n \<le> length xs"
    and "\<And>va. vpn a \<le> vpn va \<Longrightarrow> vpn va \<le> vpn a + n \<Longrightarrow> \<not> pte_valid (translate s pt va)"
  shows "\<exists>ns ys s'. kvmmap_loop pt a pa (a + 4096 * of_nat n) perm s = Ok () s' \<and> xs = ns @ ys
     \<and> length ns \<le> absent s pt a + range_cost a n
     \<and> vm_update pt ns ys (\<lambda>va. if vpn a \<le> vpn va \<and> vpn va \<le> vpn a + n
          then PA2PTE (pa + of_nat (4096 * (vpn va - vpn a))) OR scast perm OR PTE_V else translate s pt va) s s'"
  using assms
proof (induction n arbitrary: a pa s xs)
  case 0
  then obtain s' where "map_page pt a pa perm s = Ok 0 s'"
     and up: "vm_update pt (take (absent s pt a) xs) (drop (absent s pt a) xs)
          (\<lambda>va'. if same_vpn 2 a va' then PA2PTE pa OR scast perm OR PTE_V else translate s pt va') s s'"
    using map_page_run [OF 0(1,2,3) refl, of perm] by auto
  then have "kvmmap_loop pt a pa (a + 4096 * of_nat 0) perm s = Ok () s'" by (subst kvmmap_loop.simps) simp
  moreover have "(if same_vpn 2 a va then PA2PTE pa OR scast perm OR PTE_V else translate s pt va)
     = (if vpn a \<le> vpn va \<and> vpn va \<le> vpn a + 0
          then PA2PTE (pa + of_nat (4096 * (vpn va - vpn a))) OR scast perm OR PTE_V else translate s pt va)" for va
    by (auto simp: same_vpn_iff)
  ultimately show ?case
    using up by (intro exI [of _ "take (absent s pt a) xs"] exI [of _ "drop (absent s pt a) xs"] exI [of _ s']) simp
next
  case (Suc n)
  let ?k = "absent s pt a" and ?b = "a + 4096" and ?pb = "pa + 4096"
  let ?tr = "\<lambda>va'. if same_vpn 2 a va' then PA2PTE pa OR scast perm OR PTE_V else translate s pt va'"
  have "\<exists>s'. map_page pt a pa perm s = Ok 0 s' \<and> vm_update pt (take ?k xs) (drop ?k xs) ?tr s s'"
    using Suc.prems by (intro map_page_run) auto
  then obtain s1 where s1: "map_page pt a pa perm s = Ok 0 s1" and up1: "vm_update pt (take ?k xs) (drop ?k xs) ?tr s s1"
    by blast
  have rep1: "vm_rep s1 pt (drop ?k xs)" and tr1: "translate s1 pt = ?tr" using up1 by (simp_all add: vm_update_def)
  have b: "unat ?b = unat a + 4096" and pb: "unat ?pb = unat pa + 4096"
    using Suc.prems(4,5) by (simp_all add: unat_add_u64)
  have vb: "vpn ?b = vpn a + 1" using Suc.prems(6) by (intro vpn_next) simp
  have "absent s1 pt a = 0" by (rule valid_absent) (simp add: tr1 same_vpn_iff)
  then have ab: "absent s1 pt ?b \<le> range_cost a 1" using absent_next Suc.prems(2,5) by simp
  have cost: "range_cost a (Suc n) = range_cost a 1 + range_cost ?b n"
    using range_cost_add [of a 1 n] Suc.prems(5) by simp
  have "\<exists>ns ys s'. kvmmap_loop pt ?b ?pb (?b + 4096 * of_nat n) perm s1 = Ok () s' \<and> drop ?k xs = ns @ ys
     \<and> length ns \<le> absent s1 pt ?b + range_cost ?b n
     \<and> vm_update pt ns ys (\<lambda>va. if vpn ?b \<le> vpn va \<and> vpn va \<le> vpn ?b + n
          then PA2PTE (?pb + of_nat (4096 * (vpn va - vpn ?b))) OR scast perm OR PTE_V else translate s1 pt va) s1 s'"
  proof (rule Suc.IH [OF rep1])
    show "pg_aligned ?b" "pg_aligned ?pb" using Suc.prems(2,3) b pb by (simp_all add: pg_aligned_unat)
    show "unat ?pb + 4096 * n < 18446744073709551616" "unat ?b + 4096 * n < 18446744073709551616"
      using Suc.prems(4,5) b pb by simp_all
    show "vpn ?b + n < 134217728" using Suc.prems(6) vb by simp
    show "absent s1 pt ?b + range_cost ?b n \<le> length (drop ?k xs)" using ab cost Suc.prems(7) by simp
    fix va
    assume "vpn ?b \<le> vpn va" "vpn va \<le> vpn ?b + n"
    then show "\<not> pte_valid (translate s1 pt va)" using Suc.prems(8) [of va] vb tr1 by (simp add: same_vpn_iff)
  qed
  then obtain ns ys s' where s': "kvmmap_loop pt ?b ?pb (?b + 4096 * of_nat n) perm s1 = Ok () s'" "drop ?k xs = ns @ ys"
     "length ns \<le> absent s1 pt ?b + range_cost ?b n"
     "vm_update pt ns ys (\<lambda>va. if vpn ?b \<le> vpn va \<and> vpn va \<le> vpn ?b + n
          then PA2PTE (?pb + of_nat (4096 * (vpn va - vpn ?b))) OR scast perm OR PTE_V else translate s1 pt va) s1 s'"
    by blast
  have tr: "(if vpn ?b \<le> vpn va \<and> vpn va \<le> vpn ?b + n
          then PA2PTE (?pb + of_nat (4096 * (vpn va - vpn ?b))) OR scast perm OR PTE_V else translate s1 pt va)
      = (if vpn a \<le> vpn va \<and> vpn va \<le> vpn a + Suc n
          then PA2PTE (pa + of_nat (4096 * (vpn va - vpn a))) OR scast perm OR PTE_V else translate s pt va)" for va
  proof (cases "vpn va = vpn a")
    case True
    then show ?thesis by (simp add: vb tr1 same_vpn_iff)
  next
    case False
    have "?pb + of_nat (4096 * (vpn va - (vpn a + 1))) = pa + of_nat (4096 * (vpn va - vpn a))" if "vpn a < vpn va"
    proof -
      have "4096 * (vpn va - vpn a) = 4096 + 4096 * (vpn va - (vpn a + 1))" using that by simp
      then show ?thesis by (simp only: of_nat_add) simp
    qed
    with False show ?thesis by (auto simp: vb tr1 same_vpn_iff)
  qed
  have o: "unat (4096 * (1 + of_nat n) :: u64) = 4096 * Suc n"
    using unat_of_nat_u64 [of "4096 * Suc n"] Suc.prems(5) by simp
  have "4096 * (1 + of_nat n) \<noteq> (0 :: u64)" "\<not> 4096 * (1 + of_nat n) < (4096 :: u64)"
    using o by (auto simp: word_less_nat_alt simp del: unat_eq_0)
  then have "kvmmap_loop pt a pa (a + 4096 * of_nat (Suc n)) perm s = Ok () s'"
    using s1 s'(1) by (subst kvmmap_loop.simps) (simp add: PGSIZE_def algebra_simps)
  moreover have "xs = (take ?k xs @ ns) @ ys" using s'(2) by (metis append.assoc append_take_drop_id)
  moreover have "length (take ?k xs @ ns) \<le> ?k + range_cost a (Suc n)" using s'(3) ab cost by simp
  ultimately show ?case
    using vm_update_trans [OF up1 s'(4)] unfolding tr by blast
qed

lemma kvmmap_run:
  assumes rep: "vm_rep s pt xs" and pa: "pg_aligned pa" and sz: "0 < n" "unat sz = 4096 * n" and va: "pg_aligned va"
    and bounds: "unat pa + 4096 * n < 549755813888" "unat va + 4096 * n \<le> 549755813888"
    and pool: "absent s pt va + range_cost va (n - 1) \<le> length xs"
    and free: "\<And>v. vpn va \<le> vpn v \<Longrightarrow> vpn v < vpn va + n \<Longrightarrow> \<not> pte_valid (translate s pt v)"
  shows "\<exists>ns ys s'. kvmmap pt va pa sz perm s = Ok () s' \<and> xs = ns @ ys
     \<and> length ns \<le> absent s pt va + range_cost va (n - 1)
     \<and> vm_update pt ns ys (\<lambda>v. if vpn va \<le> vpn v \<and> vpn v < vpn va + n
          then PA2PTE (pa + of_nat (4096 * (vpn v - vpn va))) OR scast perm OR PTE_V else translate s pt v) s s'"
proof -
  obtain k where k: "n = Suc k" using sz(1) by (cases n) auto
  have sz0: "sz \<noteq> 0" using sz by auto
  have a: "PGROUNDDOWN va = va" using va by (simp add: pg_aligned_iff)
  define q where "q = unat va div 4096"
  have q: "unat va = 4096 * q" using va by (auto simp: q_def pg_aligned_unat)
  have "1 \<le> sz" using sz by (simp add: word_le_nat_alt)
  then have "unat (sz - 1) = 4096 * n - 1" using sz(2) by (simp add: unat_sub_u64)
  then have "unat (va + (sz - 1)) = 4096 * (q + k) + 4095"
    using bounds(2) q k by (simp add: unat_add_u64)
  moreover have "(4096 * x + 4095) div 4096 * 4096 = 4096 * x" for x :: nat
    using div_mult_self4 [of 4096 x 4095] by simp
  ultimately have "unat (PGROUNDDOWN (va + sz - 1)) = 4096 * (q + k)"
    by (simp only: unat_PGROUNDDOWN add_diff_eq)
  moreover have "unat (va + 4096 * of_nat k) = 4096 * (q + k)"
    using bounds(2) q k by (simp add: unat_add_u64 unat_mult_u64 unat_of_nat_u64)
  ultimately have lst: "PGROUNDDOWN (va + sz - 1) = va + 4096 * of_nat k" by (simp add: word_unat_eq_iff)
  have "vpn va = q" "q + n \<le> 134217728" using bounds(2) q sz(1) by (simp_all add: vpn_low)
  then have "vpn va + k < 134217728" using k by simp
  moreover have "\<not> pte_valid (translate s pt v)" if "vpn va \<le> vpn v" "vpn v \<le> vpn va + k" for v
    using free [of v] that k by simp
  ultimately have "\<exists>ns ys s'. kvmmap_loop pt va pa (va + 4096 * of_nat k) perm s = Ok () s' \<and> xs = ns @ ys
     \<and> length ns \<le> absent s pt va + range_cost va k
     \<and> vm_update pt ns ys (\<lambda>v. if vpn va \<le> vpn v \<and> vpn v \<le> vpn va + k
          then PA2PTE (pa + of_nat (4096 * (vpn v - vpn va))) OR scast perm OR PTE_V else translate s pt v) s s'"
    using bounds pool k by (intro kvmmap_loop_run [OF rep va pa]) simp_all
  then show ?thesis using sz0 k by (simp add: kvmmap_def a lst less_Suc_eq_le)
qed

text \<open>Two pages on a boundary: the last page of one range and the first of the next.\<close>

lemma absent_following:
  assumes "pg_aligned a" and "0 < n" and "unat a + 4096 * n < 549755813888"
    and "pte_valid (translate s pt (a + 4096 * of_nat (n - 1)))"
  shows "absent s pt (a + 4096 * of_nat n) + range_cost a (n - 1) + range_cost (a + 4096 * of_nat n) k
     \<le> range_cost a (n + k)"
proof -
  obtain j where j: "n = Suc j" using assms(2) by (cases n) auto
  let ?l = "a + 4096 * of_nat j"
  have l: "unat ?l = unat a + 4096 * j"
    using assms(3) j by (simp add: unat_add_u64 unat_mult_u64 unat_of_nat_u64)
  have e: "?l + 4096 = a + 4096 * of_nat n" using j by (simp add: algebra_simps)
  have "absent s pt (?l + 4096) \<le> range_cost ?l 1"
    using assms(1,3,4) l j by (intro absent_next valid_absent) (simp_all add: pg_aligned_unat)
  moreover have "range_cost a (j + 1) = range_cost a j + range_cost ?l 1"
    using assms(3) j by (intro range_cost_add) simp
  moreover have "range_cost a (n + k) = range_cost a n + range_cost (a + 4096 * of_nat n) k"
    using assms(3) by (intro range_cost_add) simp
  ultimately show ?thesis unfolding e using j by simp
qed

section \<open>The kernel's direct map\<close>

text \<open>The specification: every page of the kernel's text is mapped to itself, readable and executable;
  every page from the end of the text to \<open>PHYSTOP\<close>, and the page of the UART, readable and
  writable; nothing else is mapped.\<close>

definition direct_map :: "u64 \<Rightarrow> u64 \<Rightarrow> u64" where
  "direct_map etext va =
     (let pte = PA2PTE (of_nat (4096 * vpn va)) in
      if vpn KERNBASE \<le> vpn va \<and> vpn va < vpn etext then pte OR (PTE_R OR PTE_X) OR PTE_V
      else if vpn etext \<le> vpn va \<and> vpn va < vpn PHYSTOP then pte OR (PTE_R OR PTE_W) OR PTE_V
      else if vpn va = vpn UART0 then pte OR (PTE_R OR PTE_W) OR PTE_V
      else 0)"

lemma perm_casts:
  "scast (ucast (PTE_R OR PTE_X) :: i32) = PTE_R OR PTE_X"
  "scast (ucast (PTE_R OR PTE_W) :: i32) = PTE_R OR PTE_W"
  by (simp_all add: pte_bits)

lemma unat_layout: "unat KERNBASE = 2147483648" "unat PHYSTOP = 2281701376" "unat UART0 = 268435456" "unat PGSIZE = 4096"
  by (simp_all add: KERNBASE_def PHYSTOP_def UART0_def PGSIZE_def)

lemma vpn_layout: "vpn KERNBASE = 524288" "vpn PHYSTOP = 557056" "vpn UART0 = 65536"
  by (simp_all add: vpn_def unat_layout)

lemma vpn_page: "pg_aligned a \<Longrightarrow> unat a < 549755813888 \<Longrightarrow> unat a = 4096 * vpn a"
  by (auto simp: vpn_low pg_aligned_unat)

lemma page_of_vpn:
  assumes "pg_aligned a" and "unat a < 549755813888" and "vpn a \<le> v"
  shows "a + of_nat (4096 * (v - vpn a)) = of_nat (4096 * v)"
proof -
  have "of_nat (unat a) = a" by simp
  then have "a = of_nat (4096 * vpn a)" by (simp only: vpn_page [OF assms(1,2)])
  then have "a + of_nat (4096 * (v - vpn a)) = of_nat (4096 * vpn a + 4096 * (v - vpn a))" by (simp only: of_nat_add)
  also have "4096 * vpn a + 4096 * (v - vpn a) = 4096 * v" using assms(3) by simp
  finally show ?thesis .
qed

lemma vm_rep_pagetable [simp]: "vm_rep (s\<lparr>k_pagetable := p\<rparr>) pt xs = vm_rep s pt xs"
  by (simp add: vm_rep_def kmem_rep_def)

lemma vm_view_pagetable [simp]:
  "translate (s\<lparr>k_pagetable := p\<rparr>) = translate s" "tables (s\<lparr>k_pagetable := p\<rparr>) = tables s"
  by (simp_all add: translate_def tables_def fun_eq_iff)

lemma mem_only_pagetable: "mem_only s s' \<Longrightarrow> mem_only (s\<lparr>k_pagetable := p\<rparr>) (s'\<lparr>k_pagetable := p\<rparr>)"
proof -
  have c: "t\<lparr>k_mem := m, k_freelist := f\<rparr>\<lparr>k_pagetable := p\<rparr> = t\<lparr>k_pagetable := p\<rparr>\<lparr>k_mem := m, k_freelist := f\<rparr>" for t m f
    by (rule kstate.equality) simp_all
  assume "mem_only s s'"
  then obtain m f where "s' = s\<lparr>k_mem := m, k_freelist := f\<rparr> \<or> s' = (settle s)\<lparr>k_mem := m, k_freelist := f\<rparr>"
    unfolding mem_only_iff by blast
  then show ?thesis unfolding mem_only_iff settle_update using c by blast
qed

lemma range_cost_0 [simp]: "range_cost a 0 = 0"
  by (simp add: range_cost_def)

lemma absent_le: "absent s pt va \<le> 2"
  by (simp add: absent_levels)

text \<open>The translation after the three calls of \<open>kvminit\<close>.\<close>

lemma direct_map_eq:
  assumes "pg_aligned e" and "unat e < 549755813888" and "524288 \<le> vpn e"
  shows "direct_map e = (\<lambda>v.
     if vpn UART0 \<le> vpn v \<and> vpn v < vpn UART0 + 1
     then PA2PTE (UART0 + of_nat (4096 * (vpn v - vpn UART0))) OR (PTE_R OR PTE_W) OR PTE_V
     else if vpn e \<le> vpn v \<and> vpn v < vpn e + (557056 - vpn e)
     then PA2PTE (e + of_nat (4096 * (vpn v - vpn e))) OR (PTE_R OR PTE_W) OR PTE_V
     else if vpn KERNBASE \<le> vpn v \<and> vpn v < vpn KERNBASE + (vpn e - 524288)
     then PA2PTE (KERNBASE + of_nat (4096 * (vpn v - vpn KERNBASE))) OR (PTE_R OR PTE_X) OR PTE_V
     else 0)"
proof -
  have al: "pg_aligned KERNBASE" "pg_aligned UART0" by (simp_all add: pg_aligned_unat unat_layout)
  note pages = page_of_vpn [OF assms(1,2)] page_of_vpn [OF al(1), unfolded vpn_layout unat_layout]
  show ?thesis
    using assms(3) by (auto simp: fun_eq_iff direct_map_def vpn_layout pages UART0_def [symmetric] Let_def
        simp del: of_nat_mult of_nat_diff)
qed

lemma kvm_ranges:
  assumes rep: "vm_rep s p xs" and zero: "translate s p = (\<lambda>_. 0)" and pool: "67 \<le> length xs"
    and al: "pg_aligned e" and e: "2147483648 < unat e" "unat e < 2281701376"
  shows "\<exists>ns ys s'. seqM (kvmmap p KERNBASE KERNBASE (e - KERNBASE) (ucast (PTE_R OR PTE_X)))
      (seqM (kvmmap p e e (PHYSTOP - e) (ucast (PTE_R OR PTE_W)))
            (kvmmap p UART0 UART0 PGSIZE (ucast (PTE_R OR PTE_W)))) s = Ok () s'
     \<and> xs = ns @ ys \<and> length ns \<le> 67 \<and> vm_update p ns ys (direct_map e) s s'"
proof -
  have ve: "unat e = 4096 * vpn e" using e al by (intro vpn_page) simp_all
  define n1 n2 where "n1 = vpn e - 524288" and "n2 = 557056 - vpn e"
  have n: "0 < n1" "0 < n2" "vpn e = 524288 + n1" "n1 + n2 = 32768" "unat e = 2147483648 + 4096 * n1"
    using e ve by (simp_all add: n1_def n2_def)
  have eK: "KERNBASE + 4096 * of_nat n1 = e"
    using n by (simp add: word_unat_eq_iff unat_add_u64 unat_mult_u64 unat_of_nat_u64 unat_layout)
  have sz: "unat (e - KERNBASE) = 4096 * n1" "unat (PHYSTOP - e) = 4096 * n2" "unat PGSIZE = 4096 * 1"
    using e n by (simp_all add: unat_sub_u64 word_le_nat_alt unat_layout)
  have alK: "pg_aligned KERNBASE" "pg_aligned UART0" by (simp_all add: pg_aligned_unat unat_layout)
  have cost: "range_cost KERNBASE (n1 + (n2 - 1)) = 63" "range_cost KERNBASE (n1 - 1) \<le> 63"
  proof -
    have "n1 + (n2 - 1) = 32767" using n by simp
    then show "range_cost KERNBASE (n1 + (n2 - 1)) = 63" by (simp add: range_cost_def unat_layout)
    moreover have "n1 - 1 + n2 = n1 + (n2 - 1)" using n(1,2) by simp
    ultimately have "range_cost KERNBASE (n1 - 1 + n2) = 63" by simp
    moreover have "range_cost KERNBASE (n1 - 1 + n2)
        = range_cost KERNBASE (n1 - 1) + range_cost (KERNBASE + 4096 * of_nat (n1 - 1)) n2"
      using n(4) by (intro range_cost_add) (simp add: unat_layout)
    ultimately show "range_cost KERNBASE (n1 - 1) \<le> 63" by simp
  qed
  have free1: "\<not> pte_valid (translate s p v)" for v by (simp add: zero pte_valid_def)
  obtain ns1 ys1 s1 where 1: "kvmmap p KERNBASE KERNBASE (e - KERNBASE) (ucast (PTE_R OR PTE_X)) s = Ok () s1"
      "xs = ns1 @ ys1" "length ns1 \<le> 2 + range_cost KERNBASE (n1 - 1)"
    and u1: "vm_update p ns1 ys1 (\<lambda>v. if vpn KERNBASE \<le> vpn v \<and> vpn v < vpn KERNBASE + n1
       then PA2PTE (KERNBASE + of_nat (4096 * (vpn v - vpn KERNBASE))) OR (PTE_R OR PTE_X) OR PTE_V else 0) s s1"
    using kvmmap_run [OF rep alK(1) n(1) sz(1) alK(1) _ _ _ free1, of "ucast (PTE_R OR PTE_X)", unfolded perm_casts zero]
      absent_le [of s p KERNBASE] cost(2) pool n by (fastforce simp: unat_layout)
  then have r1: "vm_rep s1 p ys1" and t1: "translate s1 p = (\<lambda>v. if vpn KERNBASE \<le> vpn v \<and> vpn v < vpn KERNBASE + n1
       then PA2PTE (KERNBASE + of_nat (4096 * (vpn v - vpn KERNBASE))) OR (PTE_R OR PTE_X) OR PTE_V else 0)"
    by (simp_all only: vm_update_def)
  have lastp: "KERNBASE + 4096 * of_nat (n1 - 1) = e - 4096"
    unfolding eK [symmetric] using n(1) by (cases n1) (simp_all add: algebra_simps)
  have "vpn (e - 4096) = vpn e - 1"
  proof -
    have "vpn (e - 4096 + 4096) = vpn (e - 4096) + 1"
      using n e by (intro vpn_next) (simp add: vpn_def unat_sub_u64 word_le_nat_alt)
    then show ?thesis by simp
  qed
  then have "pte_valid (translate s1 p (KERNBASE + 4096 * of_nat (n1 - 1)))"
    unfolding lastp using n by (simp add: t1 vpn_layout)
  then have ab: "absent s1 p e + range_cost KERNBASE (n1 - 1) + range_cost e (n2 - 1) \<le> 63"
    using absent_following [OF alK(1) n(1), of s1 p "n2 - 1"] n cost(1) eK by (simp add: unat_layout)
  have free2: "\<not> pte_valid (translate s1 p v)" if "vpn e \<le> vpn v" "vpn v < vpn e + n2" for v
    using that n t1 by (simp add: vpn_layout pte_valid_def)
  obtain ns2 ys2 s2 where 2: "kvmmap p e e (PHYSTOP - e) (ucast (PTE_R OR PTE_W)) s1 = Ok () s2"
      "ys1 = ns2 @ ys2" "length ns2 \<le> absent s1 p e + range_cost e (n2 - 1)"
    and u2: "vm_update p ns2 ys2 (\<lambda>v. if vpn e \<le> vpn v \<and> vpn v < vpn e + n2
       then PA2PTE (e + of_nat (4096 * (vpn v - vpn e))) OR (PTE_R OR PTE_W) OR PTE_V else translate s1 p v) s1 s2"
    using kvmmap_run [OF r1 al n(2) sz(2) al _ _ _ free2, of "ucast (PTE_R OR PTE_W)", unfolded perm_casts]
      ab 1(2,3) pool n by auto
  then have r2: "vm_rep s2 p ys2" and t2: "translate s2 p = (\<lambda>v. if vpn e \<le> vpn v \<and> vpn v < vpn e + n2
       then PA2PTE (e + of_nat (4096 * (vpn v - vpn e))) OR (PTE_R OR PTE_W) OR PTE_V else translate s1 p v)"
    by (simp_all only: vm_update_def)
  have free3: "\<not> pte_valid (translate s2 p v)" if "vpn UART0 \<le> vpn v" "vpn v < vpn UART0 + 1" for v
    using that n t1 t2 by (simp add: vpn_layout pte_valid_def)
  obtain ns3 ys3 s3 where 3: "kvmmap p UART0 UART0 PGSIZE (ucast (PTE_R OR PTE_W)) s2 = Ok () s3"
      "ys2 = ns3 @ ys3" "length ns3 \<le> absent s2 p UART0 + range_cost UART0 (1 - 1)"
    and u3: "vm_update p ns3 ys3 (\<lambda>v. if vpn UART0 \<le> vpn v \<and> vpn v < vpn UART0 + 1
       then PA2PTE (UART0 + of_nat (4096 * (vpn v - vpn UART0))) OR (PTE_R OR PTE_W) OR PTE_V else translate s2 p v) s2 s3"
    using kvmmap_run [OF r2 alK(2) _ sz(3) alK(2) _ _ _ free3, of "ucast (PTE_R OR PTE_W)", unfolded perm_casts]
      ab 1(2,3) 2(2,3) pool absent_le [of s2 p UART0] by (auto simp: unat_layout)
  have len: "length (ns1 @ ns2 @ ns3) \<le> 67"
    using 1(3) 2(3) 3(3) ab absent_le [of s2 p UART0] by simp
  note up = vm_update_trans [OF vm_update_trans [OF u1 u2] u3]
  have "direct_map e = (\<lambda>v. if vpn UART0 \<le> vpn v \<and> vpn v < vpn UART0 + 1
       then PA2PTE (UART0 + of_nat (4096 * (vpn v - vpn UART0))) OR (PTE_R OR PTE_W) OR PTE_V else translate s2 p v)"
    unfolding t1 t2 n1_def n2_def using e n by (intro direct_map_eq [OF al]) simp_all
  then show ?thesis
    using 1(1,2) 2(1,2) 3(1,2) len up
    by (intro exI [of _ "ns1 @ ns2 @ ns3"] exI [of _ ys3] exI [of _ s3]) simp
qed

lemma kvminit_run:
  assumes rep: "kmem_rep s (p # xs)" and pool: "67 \<le> length xs"
  shows "\<exists>ns ys s'. kvminit s = Ok () s' \<and> xs = ns @ ys \<and> length ns \<le> 67 \<and> vm_rep s' p ys
     \<and> k_pagetable s' = p \<and> mem_only (s\<lparr>k_pagetable := p\<rparr>) s' \<and> tables s' p = insert p (set ns)
     \<and> translate s' p = direct_map (l_etext (k_link s))
     \<and> (\<forall>q. q \<notin> tables s' p \<longrightarrow> same_page (k_mem s) (k_mem s') q)"
proof -
  let ?e = "l_etext (k_link s)"
  have lw: "link_wf (k_link s)" and p: "page_ok (k_link s) p" using rep by (auto simp: kmem_rep_def)
  have al: "pg_aligned ?e" and "KERNBASE < ?e" and "?e < PHYSTOP" using lw p by (auto simp: link_wf_def page_ok_def)
  then have e: "2147483648 < unat ?e" "unat ?e < 2281701376" by (simp_all add: word_less_nat_alt unat_layout)
  obtain s1 where s1: "create_pagetable s = Ok p s1" "vm_rep s1 p xs" "mem_only s s1" "tables s1 p = {p}"
      "\<forall>va. translate s1 p va = 0" "\<forall>q. q \<noteq> p \<longrightarrow> same_page (k_mem s) (k_mem s1) q"
    using create_pagetable_run [OF rep] by blast
  let ?s = "s1\<lparr>k_pagetable := p\<rparr>"
  have rep1: "vm_rep ?s p xs" and tr1: "translate ?s p = (\<lambda>_. 0)" using s1(2,5) by (simp_all add: fun_eq_iff)
  from kvm_ranges [OF rep1 tr1 pool al e] obtain ns ys s' where
    s': "seqM (kvmmap p KERNBASE KERNBASE (?e - KERNBASE) (ucast (PTE_R OR PTE_X)))
      (seqM (kvmmap p ?e ?e (PHYSTOP - ?e) (ucast (PTE_R OR PTE_W)))
            (kvmmap p UART0 UART0 PGSIZE (ucast (PTE_R OR PTE_W)))) ?s = Ok () s'"
    and x: "xs = ns @ ys" "length ns \<le> 67" and u: "vm_update p ns ys (direct_map ?e) ?s s'"
    by blast
  have "k_link s1 = k_link s" using s1(3) by (simp add: mem_only_frame)
  with s1(1) s' have "kvminit s = Ok () s'" by (simp add: kvminit_def modifyM_def readM_def)
  moreover have m: "mem_only (s\<lparr>k_pagetable := p\<rparr>) s'"
  proof (rule mem_only_trans)
    show "mem_only (s\<lparr>k_pagetable := p\<rparr>) ?s" using s1(3) by (rule mem_only_pagetable)
    show "mem_only ?s s'" using u by (simp add: vm_update_def)
  qed
  moreover have "k_pagetable s' = p" using mem_only_frame(5) [OF m] by simp
  moreover have "same_page (k_mem s) (k_mem s') q" if "q \<notin> tables s' p" for q
    by (rule same_page_trans [of _ "k_mem s1"]) (use that u s1(4,6) in \<open>auto simp: vm_update_def\<close>)
  ultimately show ?thesis
    using x u s1(4) by (intro exI [of _ ns] exI [of _ ys] exI [of _ s']) (simp add: vm_update_def)
qed

section \<open>Tearing a table down\<close>

text \<open>The pages \<open>destroy_pagetable\<close> frees, in the order of the calls: below each entry first, then the
  table itself; at the last level the mapped pages.\<close>

fun visit :: "memory \<Rightarrow> nat \<Rightarrow> u64 \<Rightarrow> u64 list" where
  "visit m 0 pt = concat (map (\<lambda>i. let e = load64 m (slot pt (of_nat i)) in
     if pte_valid e then [PTE2PA e] else []) [0..<512]) @ [pt]"
| "visit m (Suc l) pt = concat (map (\<lambda>i. let e = load64 m (slot pt (of_nat i)) in
     if pte_valid e then visit m l (PTE2PA e) else []) [0..<512]) @ [pt]"

text \<open>The test for a table entry tells the levels apart: no leaf without one of the bits R, W, X.\<close>

fun levels_ok :: "memory \<Rightarrow> nat \<Rightarrow> u64 \<Rightarrow> bool" where
  "levels_ok m 0 pt \<longleftrightarrow> (\<forall>i < 512. let e = load64 m (slot pt (of_nat i)) in pte_valid e \<longrightarrow> \<not> pte_table e)"
| "levels_ok m (Suc l) pt \<longleftrightarrow> (\<forall>i < 512. let e = load64 m (slot pt (of_nat i)) in
     pte_valid e \<longrightarrow> pte_table e \<and> levels_ok m l (PTE2PA e))"

text \<open>The run \<open>r\<close> from \<open>s\<close> returns, pushes the pages \<open>ps\<close> on the pool \<open>xs\<close> and touches nothing else.\<close>

definition gives_back :: "u64 list \<Rightarrow> u64 list \<Rightarrow> kstate \<Rightarrow> (kstate, unit) res \<Rightarrow> bool" where
  "gives_back ps xs s r \<longleftrightarrow> (\<exists>s'. r = Ok () s' \<and> kmem_rep s' (rev ps @ xs) \<and> mem_only s s'
     \<and> (\<forall>p. p \<notin> set ps \<longrightarrow> same_page (k_mem s) (k_mem s') p))"

lemma gives_back_Nil: "kmem_rep s xs \<Longrightarrow> gives_back [] xs s (Ok () s)"
  by (auto simp: gives_back_def)

lemma gives_back_trans:
  assumes "gives_back ps xs s (Ok () s')" and "gives_back qs (rev ps @ xs) s' r"
  shows "gives_back (ps @ qs) xs s r"
proof -
  from assms(2) obtain s'' where s'': "r = Ok () s''" "kmem_rep s'' (rev qs @ rev ps @ xs)" "mem_only s' s''"
      "\<forall>p. p \<notin> set qs \<longrightarrow> same_page (k_mem s') (k_mem s'') p"
    by (auto simp: gives_back_def)
  have "same_page (k_mem s) (k_mem s'') p" if "p \<notin> set ps" "p \<notin> set qs" for p
    by (rule same_page_trans [of _ "k_mem s'"]) (use assms(1) s'' that in \<open>auto simp: gives_back_def\<close>)
  then show ?thesis using s'' assms(1) by (auto simp: gives_back_def intro: mem_only_trans)
qed

lemma gives_back_OkE:
  assumes "gives_back ps xs s r"
  obtains s' where "r = Ok () s'" "gives_back ps xs s (Ok () s')" "kmem_rep s' (rev ps @ xs)" "mem_only s s'"
    "\<And>p. p \<notin> set ps \<Longrightarrow> same_page (k_mem s) (k_mem s') p"
  using assms by (auto simp: gives_back_def)

lemma free_page_gives_back:
  assumes "kmem_rep s xs" and "page_ok (k_link s) p" and "p \<notin> set xs"
  shows "gives_back [p] xs s (free_page p s)"
proof -
  have al: "pg_aligned p" using assms(2) by (rule page_ok_aligned)
  have "same_page (k_mem s) (k_mem (freed p s)) q" if "q \<noteq> p" for q
    using same_page_trans [OF same_page_store_0 [OF al that] same_page_memset [OF al that]]
    by (simp add: freed_def same_page_sym)
  then show ?thesis
    using free_page_run [OF assms] mem_only_freed by (auto simp: gives_back_def)
qed

text \<open>The loop over the entries, given what each iteration gives back.\<close>

lemma forM_gives_back:
  assumes step: "\<And>i s xs. i \<in> set is \<Longrightarrow> kmem_rep s xs \<Longrightarrow> k_link s = lm \<Longrightarrow> set (V i) \<inter> set xs = {} \<Longrightarrow>
      (\<And>p. p \<in> insert pt (set (V i)) \<Longrightarrow> same_page m (k_mem s) p) \<Longrightarrow> gives_back (V i) xs s (f i s)"
    and "kmem_rep s xs" and "k_link s = lm" and "distinct (concat (map V is))"
    and "pt \<notin> set (concat (map V is))" and "set (concat (map V is)) \<inter> set xs = {}"
    and "\<And>p. p \<in> insert pt (set (concat (map V is))) \<Longrightarrow> same_page m (k_mem s) p"
  shows "gives_back (concat (map V is)) xs s (forM is f s)"
  using assms
proof (induction "is" arbitrary: s xs)
  case Nil
  then show ?case by (simp add: gives_back_Nil)
next
  case (Cons i "is")
  have "gives_back (V i) xs s (f i s)" using Cons.prems(2-) by (intro Cons.prems(1)) auto
  then obtain s' where s': "f i s = Ok () s'" "gives_back (V i) xs s (Ok () s')" "kmem_rep s' (rev (V i) @ xs)"
      "mem_only s s'" "\<And>p. p \<notin> set (V i) \<Longrightarrow> same_page (k_mem s) (k_mem s') p"
    by (rule gives_back_OkE) blast
  have "gives_back (concat (map V is)) (rev (V i) @ xs) s' (forM is f s')"
  proof (rule Cons.IH)
    show "k_link s' = lm" using s'(4) Cons.prems(3) by (simp add: mem_only_frame)
    show "set (concat (map V is)) \<inter> set (rev (V i) @ xs) = {}" using Cons.prems(4,6) by auto
    fix p
    assume "p \<in> insert pt (set (concat (map V is)))"
    moreover from this have "p \<notin> set (V i)" using Cons.prems(4,5) by auto
    ultimately show "same_page m (k_mem s') p"
      using same_page_trans [OF Cons.prems(7) s'(5)] by simp
  next
    fix j t ys
    assume "j \<in> set is" "kmem_rep t ys" "k_link t = lm" "set (V j) \<inter> set ys = {}"
      "\<And>p. p \<in> insert pt (set (V j)) \<Longrightarrow> same_page m (k_mem t) p"
    then show "gives_back (V j) ys t (f j t)" by (intro Cons.prems(1)) auto
  qed (use s'(3) Cons.prems in auto)
  with s'(1,2) gives_back_trans show ?case by simp
qed

text \<open>One table page: its entries, then the page itself.\<close>

lemma destroy_table:
  assumes rep: "kmem_rep s xs" and ps: "ps = concat (map V [0..<512]) @ [pt]" and dis: "distinct ps" "set ps \<inter> set xs = {}"
    and ok: "\<And>p. p \<in> set ps \<Longrightarrow> page_ok (k_link s) p" and same: "\<And>p. p \<in> set ps \<Longrightarrow> same_page m (k_mem s) p"
    and step: "\<And>i e t ys. i < 512 \<Longrightarrow> e = load64 m (slot pt (of_nat i)) \<Longrightarrow> kmem_rep t ys \<Longrightarrow> k_link t = k_link s \<Longrightarrow>
      set (V i) \<inter> set ys = {} \<Longrightarrow> (\<And>p. p \<in> set (V i) \<Longrightarrow> same_page m (k_mem t) p) \<Longrightarrow>
      gives_back (V i) ys t ((if pte_valid e \<and> pte_table e then destroy_pagetable fuel (PTE2PA e)
        else if pte_valid e then free_page (PTE2PA e) else ret ()) t)"
  shows "gives_back ps xs s (destroy_pagetable (Suc fuel) pt s)"
proof -
  let ?f = "\<lambda>i. bindM (readM (\<lambda>s. load64 (k_mem s) (slot pt (of_nat i)))) (\<lambda>pte.
       if pte AND PTE_V \<noteq> 0 \<and> pte AND (PTE_R OR PTE_W OR PTE_X) = 0
       then destroy_pagetable fuel (PTE2PA pte)
       else if pte AND PTE_V \<noteq> 0 then free_page (PTE2PA pte)
       else ret ())"
  have pt: "page_ok (k_link s) pt" using ok ps by simp
  have "gives_back (concat (map V [0..<512])) xs s (forM [0..<512] ?f s)"
  proof (rule forM_gives_back [where lm = "k_link s" and pt = pt and m = m])
    fix i t ys
    assume i: "i \<in> set [0..<512]" and t: "kmem_rep t ys" "k_link t = k_link s" "set (V i) \<inter> set ys = {}"
      and sm: "\<And>p. p \<in> insert pt (set (V i)) \<Longrightarrow> same_page m (k_mem t) p"
    have "unat (of_nat i :: u64) < 512" using i by (simp add: unat_of_nat_u64)
    then have "load64 (k_mem t) (slot pt (of_nat i)) = load64 m (slot pt (of_nat i))"
      using load64_same_page [OF sm page_ok_aligned [OF pt]] by simp
    moreover have "gives_back (V i) ys t ((let e = load64 m (slot pt (of_nat i)) in
        if pte_valid e \<and> pte_table e then destroy_pagetable fuel (PTE2PA e)
        else if pte_valid e then free_page (PTE2PA e) else ret ()) t)"
      unfolding Let_def using i t sm by (intro step) simp_all
    ultimately show "gives_back (V i) ys t (?f i t)"
      by (simp only: readM_def bindM_def pte_valid_def pte_table_def Let_def res.case)
  qed (use rep dis same ps in auto)
  then obtain s' where s': "forM [0..<512] ?f s = Ok () s'" "gives_back (concat (map V [0..<512])) xs s (Ok () s')"
      "kmem_rep s' (rev (concat (map V [0..<512])) @ xs)" "mem_only s s'"
    by (rule gives_back_OkE) blast
  have "gives_back [pt] (rev (concat (map V [0..<512])) @ xs) s' (free_page pt s')"
    using s'(3,4) pt dis ps by (intro free_page_gives_back) (auto simp: mem_only_frame)
  from gives_back_trans [OF s'(2) this] show ?thesis
    using s'(1) ps by simp
qed

lemma destroy_pagetable_run:
  assumes "kmem_rep s xs" and "levels_ok m l pt" and "distinct (visit m l pt)" and "set (visit m l pt) \<inter> set xs = {}"
    and "\<And>p. p \<in> set (visit m l pt) \<Longrightarrow> page_ok (k_link s) p"
    and "\<And>p. p \<in> set (visit m l pt) \<Longrightarrow> same_page m (k_mem s) p"
  shows "gives_back (visit m l pt) xs s (destroy_pagetable (Suc l) pt s)"
  using assms
proof (induction l arbitrary: pt s xs)
  case 0
  show ?case
  proof (rule destroy_table [OF 0(1) visit.simps(1) 0(3,4,5,6)], goal_cases)
    case (3 i e t ys)
    have "\<not> pte_table e" if "pte_valid e" using 0(2) 3(1,2) that by (auto simp: Let_def)
    moreover have "page_ok (k_link s) (PTE2PA e)" if "pte_valid e"
      using that 3(1,2) by (intro 0(5)) (auto simp: Let_def)
    ultimately show ?case
      using 3 free_page_gives_back [of t ys "PTE2PA e"] by (auto simp: Let_def ret_def gives_back_Nil)
  qed simp_all
next
  case (Suc l)
  show ?case
  proof (rule destroy_table [OF Suc.prems(1) visit.simps(2) Suc.prems(3,4,5,6)], goal_cases)
    case (3 i e t ys)
    show ?case
    proof (cases "pte_valid e")
      case True
      have sub: "set (visit m l (PTE2PA e)) \<subseteq> set (visit m (Suc l) pt)"
        using True 3(1,2) by (auto simp: Let_def)
      have "distinct (concat (map (\<lambda>i. let e = load64 m (slot pt (of_nat i)) in
          if pte_valid e then visit m l (PTE2PA e) else []) [0..<512]))" using Suc.prems(3) by simp
      then have "distinct (visit m l (PTE2PA e))"
        using True 3(1,2) by (auto simp: distinct_concat_iff Let_def)
      moreover have "levels_ok m l (PTE2PA e)" "pte_table e"
        using Suc.prems(2) True 3(1,2) by (auto simp: Let_def)
      moreover have "set (visit m l (PTE2PA e)) \<inter> set ys = {}"
        "\<And>p. p \<in> set (visit m l (PTE2PA e)) \<Longrightarrow> same_page m (k_mem t) p"
        using True 3 by (simp_all add: Let_def)
      moreover have "page_ok (k_link t) p" if "p \<in> set (visit m l (PTE2PA e))" for p
        using Suc.prems(5) that sub 3(4) by auto
      ultimately have "gives_back (visit m l (PTE2PA e)) ys t (destroy_pagetable (Suc l) (PTE2PA e) t)"
        using 3(3) by (intro Suc.IH)
      then show ?thesis
        using True \<open>pte_table e\<close> 3(2) by (simp add: Let_def del: destroy_pagetable.simps)
    next
      case False
      then show ?thesis using 3 by (simp add: ret_def gives_back_Nil Let_def)
    qed
  qed simp_all
qed

text \<open>A table that maps nothing: what is freed are its table pages.\<close>

fun no_leaf :: "memory \<Rightarrow> nat \<Rightarrow> u64 \<Rightarrow> bool" where
  "no_leaf m 0 pt \<longleftrightarrow> (\<forall>i. \<not> has_child m pt i)"
| "no_leaf m (Suc l) pt \<longleftrightarrow> (\<forall>i. has_child m pt i \<longrightarrow> no_leaf m l (child m pt i))"

lemma has_child_index:
  "i < 512 \<Longrightarrow> pte_valid (load64 m (slot pt (of_nat i))) \<longleftrightarrow> has_child m pt (of_nat i)"
  by (simp add: has_child_def unat_of_nat_u64)

lemma has_child_nat: "has_child m pt i \<Longrightarrow> unat i < 512 \<and> i = of_nat (unat i)"
  by (simp add: has_child_def)

lemma visit_Suc:
  "visit m (Suc l) pt = concat (map (\<lambda>i. if has_child m pt (of_nat i) then visit m l (child m pt (of_nat i)) else []) [0..<512]) @ [pt]"
proof -
  have "map (\<lambda>i. let e = load64 m (slot pt (of_nat i)) in if pte_valid e then visit m l (PTE2PA e) else []) [0..<512]
      = map (\<lambda>i. if has_child m pt (of_nat i) then visit m l (child m pt (of_nat i)) else []) [0..<512]"
    by (rule map_cong) (simp_all add: has_child_index child_def Let_def)
  then show ?thesis by (simp only: visit.simps)
qed

lemma visit_no_leaf:
  assumes "pt_wf lm m l pt" and "no_leaf m l pt"
  shows "set (visit m l pt) = pt_set m l pt \<and> distinct (visit m l pt) \<and> levels_ok m l pt"
  using assms
proof (induction l arbitrary: pt)
  case 0
  have "visit m 0 pt = concat (map (\<lambda>i. []) [0..<512]) @ [pt]"
    unfolding visit.simps by (intro arg_cong [where f = "\<lambda>x. concat x @ [pt]"] map_cong)
      (use 0(2) in \<open>simp_all add: has_child_index Let_def\<close>)
  then have "visit m 0 pt = [pt]" by simp
  then show ?case using 0(2) by (simp add: has_child_index Let_def del: visit.simps)
next
  case (Suc l)
  have IH: "set (visit m l (child m pt i)) = pt_set m l (child m pt i) \<and> distinct (visit m l (child m pt i))
      \<and> levels_ok m l (child m pt i)" if "has_child m pt i" for i
    using that Suc.prems by (intro Suc.IH) auto
  let ?V = "\<lambda>i. if has_child m pt (of_nat i) then visit m l (child m pt (of_nat i)) else []"
  have sub: "set (concat (map ?V [0..<512])) = (\<Union>i \<in> {i. has_child m pt i}. pt_set m l (child m pt i))" (is "?A = ?B")
  proof
    show "?A \<subseteq> ?B" using IH by (auto split: if_splits)
    show "?B \<subseteq> ?A"
    proof
      fix p
      assume "p \<in> ?B"
      then obtain i where i: "has_child m pt i" "p \<in> pt_set m l (child m pt i)" by blast
      have "p \<in> set (?V (unat i))" using i IH [OF i(1)] by simp
      moreover have "unat i \<in> set [0..<512]" using has_child_nat [OF i(1)] by simp
      ultimately show "p \<in> ?A" by (simp only: set_concat set_map) blast
    qed
  qed
  have "distinct (concat (map ?V [0..<512]))"
  proof (rule distinct_concat_map)
    fix i j
    assume ij: "i \<in> set [0..<512]" "j \<in> set [0..<512]" "i \<noteq> j"
    then have "unat (of_nat i :: u64) = i" "unat (of_nat j :: u64) = j" by (simp_all add: unat_of_nat_u64)
    with ij(3) have "(of_nat i :: u64) \<noteq> of_nat j" by metis
    then have "pt_set m l (child m pt (of_nat i)) \<inter> pt_set m l (child m pt (of_nat j)) = {}"
      if "has_child m pt (of_nat i)" "has_child m pt (of_nat j)"
      using Suc.prems(1) that by simp
    then show "set (?V i) \<inter> set (?V j) = {}" 
      by (cases "has_child m pt (of_nat i)"; cases "has_child m pt (of_nat j)") (simp_all add: IH)
  qed (use IH in simp_all)
  moreover have "pt \<notin> ?B" using Suc.prems(1) by auto
  ultimately have "set (visit m (Suc l) pt) = pt_set m (Suc l) pt \<and> distinct (visit m (Suc l) pt)"
    unfolding visit_Suc using sub by simp
  moreover have "levels_ok m (Suc l) pt"
    using IH Suc.prems(1) by (simp add: has_child_index Let_def child_def)
  ultimately show ?case by blast
qed

text \<open>Every path of three indices is the path of an address.\<close>

lemma vpn_path:
  assumes "unat i2 < 512" "unat i1 < 512" "unat i0 < 512"
  obtains va where "VPN_MASK va 2 = i2" "VPN_MASK va (Suc 0) = i1" "VPN_MASK va 0 = i0"
proof
  let ?n = "4096 * (unat i0 + 512 * unat i1 + 262144 * unat i2)"
  have n: "unat (of_nat ?n :: u64) div 4096 = unat i0 + 512 * unat i1 + 262144 * unat i2"
    using assms by (simp add: unat_of_nat_u64 del: of_nat_mult of_nat_add)
  have split: "(a + 512 * b) div 512 = b" "(a + 512 * b) mod 512 = a" if "a < 512" for a b :: nat
    using that by simp_all
  have "unat i0 + 512 * unat i1 + 262144 * unat i2 = unat i0 + 512 * (unat i1 + 512 * unat i2)" by simp
  then show "VPN_MASK (of_nat ?n) 2 = i2" "VPN_MASK (of_nat ?n) (Suc 0) = i1" "VPN_MASK (of_nat ?n) 0 = i0"
    unfolding word_unat_eq_iff unat_VPN_levels n
    using assms div_mult2_eq [of "unat i0 + 512 * (unat i1 + 512 * unat i2)" 512 512]
    by (simp_all only: split) simp_all
qed

lemma no_leaf_translate:
  assumes "\<And>va. \<not> pte_valid (translate s pt va)"
  shows "no_leaf (k_mem s) 2 pt"
proof -
  have "\<not> has_child (k_mem s) c0 i0"
    if i2: "has_child (k_mem s) pt i2" and i1: "has_child (k_mem s) (child (k_mem s) pt i2) i1"
      and c0: "c0 = child (k_mem s) (child (k_mem s) pt i2) i1" for c0 i0 i1 i2
  proof
    assume i0: "has_child (k_mem s) c0 i0"
    obtain va where va: "VPN_MASK va 2 = i2" "VPN_MASK va (Suc 0) = i1" "VPN_MASK va 0 = i0"
      using vpn_path [of i2 i1 i0] i2 i1 i0 by (auto simp: has_child_def)
    then have "translate s pt va = load64 (k_mem s) (slot c0 i0)"
      using i2 i1 c0 by (simp add: translate_def numeral_2_eq_2)
    with i0 assms [of va] show False by (simp add: has_child_def)
  qed
  then show ?thesis by (simp add: numeral_2_eq_2)
qed

lemma destroy_empty_run:
  assumes rep: "vm_rep s pt xs" and empty: "\<And>va. \<not> pte_valid (translate s pt va)"
  shows "\<exists>ps s'. destroy_pagetable 3 pt s = Ok () s' \<and> distinct ps \<and> set ps = tables s pt
    \<and> kmem_rep s' (rev ps @ xs) \<and> mem_only s s' \<and> (\<forall>p. p \<notin> tables s pt \<longrightarrow> same_page (k_mem s) (k_mem s') p)"
proof -
  note r = vm_repD [OF rep]
  have v: "set (visit (k_mem s) 2 pt) = tables s pt" "distinct (visit (k_mem s) 2 pt)" "levels_ok (k_mem s) 2 pt"
    using visit_no_leaf [OF r(2) no_leaf_translate [OF empty]] by (simp_all add: tables_def)
  have "gives_back (visit (k_mem s) 2 pt) xs s (destroy_pagetable (Suc 2) pt s)"
    using r v pt_set_page_ok [OF r(2)] by (intro destroy_pagetable_run) (auto simp: tables_def)
  then show ?thesis
    using v unfolding gives_back_def eval_nat_numeral by blast
qed

section \<open>The contract of an address space\<close>

text \<open>What the process code relies on: a table page \<open>pt\<close> stands for a translation function
  \<open>tr s pt\<close> and owns the pages \<open>owned s pt\<close>; \<open>rep s pt xs\<close> holds while the pool is \<open>xs\<close>, and
  \<open>writes A s s'\<close> says that the step changed only the pages \<open>A\<close>.\<close>

locale address_space =
  fixes create :: "'s \<Rightarrow> ('s, u64) res"
    and map_at :: "u64 \<Rightarrow> u64 \<Rightarrow> u64 \<Rightarrow> i32 \<Rightarrow> 's \<Rightarrow> ('s, int) res"
    and unmap_at :: "u64 \<Rightarrow> u64 \<Rightarrow> 's \<Rightarrow> ('s, unit) res"
    and destroy :: "u64 \<Rightarrow> 's \<Rightarrow> ('s, unit) res"
    and pool :: "'s \<Rightarrow> u64 list \<Rightarrow> bool"
    and rep :: "'s \<Rightarrow> u64 \<Rightarrow> u64 list \<Rightarrow> bool"
    and tr :: "'s \<Rightarrow> u64 \<Rightarrow> u64 \<Rightarrow> u64"
    and owned :: "'s \<Rightarrow> u64 \<Rightarrow> u64 set"
    and writes :: "u64 set \<Rightarrow> 's \<Rightarrow> 's \<Rightarrow> bool"
  assumes pool_rep: "rep s pt xs \<Longrightarrow> pool s xs"
    and pool_distinct: "pool s xs \<Longrightarrow> distinct xs"
    and owned_pool: "rep s pt xs \<Longrightarrow> owned s pt \<inter> set xs = {}"
    and writes_trans: "writes A s s' \<Longrightarrow> writes B s' s'' \<Longrightarrow> writes (A \<union> B) s s''"
    and create_ok: "pool s (p # xs) \<Longrightarrow>
      \<exists>s'. create s = Ok p s' \<and> rep s' p xs \<and> owned s' p = {p} \<and> tr s' p = (\<lambda>_. 0) \<and> writes {p} s s'"
    and map_ok: "rep s pt xs \<Longrightarrow> pg_aligned va \<Longrightarrow> pg_aligned pa \<Longrightarrow> 2 \<le> length xs \<Longrightarrow> \<not> pte_valid (tr s pt va) \<Longrightarrow>
      \<exists>ns ys s'. map_at pt va pa perm s = Ok 0 s' \<and> xs = ns @ ys \<and> length ns \<le> 2 \<and> rep s' pt ys
        \<and> owned s' pt = owned s pt \<union> set ns \<and> writes (owned s' pt) s s'
        \<and> tr s' pt = (\<lambda>v. if vpn v = vpn va then PA2PTE pa OR scast perm OR PTE_V else tr s pt v)"
    and unmap_ok: "rep s pt xs \<Longrightarrow> pte_valid (tr s pt va) \<Longrightarrow>
      \<exists>s'. unmap_at pt va s = Ok () s' \<and> rep s' pt xs \<and> owned s' pt = owned s pt \<and> writes (owned s pt) s s'
        \<and> tr s' pt = (\<lambda>v. if vpn v = vpn va then 0 else tr s pt v)"
    and destroy_ok: "rep s pt xs \<Longrightarrow> (\<And>v. \<not> pte_valid (tr s pt v)) \<Longrightarrow>
      \<exists>ps s'. destroy pt s = Ok () s' \<and> distinct ps \<and> set ps = owned s pt \<and> pool s' (ps @ xs)
        \<and> writes (owned s pt) s s'"
begin

text \<open>An address space of two pages, built up and taken down.\<close>

lemma build_two:
  assumes "pool s (p # xs)" and "4 \<le> length xs" and "vpn a \<noteq> vpn b"
    and "pg_aligned a" "pg_aligned b" "pg_aligned pa" "pg_aligned pb"
  shows "\<exists>s1 s2 s3 ns ys. create s = Ok p s1 \<and> map_at p a pa f s1 = Ok 0 s2 \<and> map_at p b pb g s2 = Ok 0 s3
     \<and> xs = ns @ ys \<and> length ns \<le> 4 \<and> rep s3 p ys \<and> owned s3 p = insert p (set ns) \<and> writes (owned s3 p) s s3
     \<and> tr s3 p = (\<lambda>v. if vpn v = vpn b then PA2PTE pb OR scast g OR PTE_V
          else if vpn v = vpn a then PA2PTE pa OR scast f OR PTE_V else 0)"
proof -
  obtain s1 where s1: "create s = Ok p s1" "rep s1 p xs" "owned s1 p = {p}" "tr s1 p = (\<lambda>_. 0)" "writes {p} s s1"
    using create_ok [OF assms(1)] by blast
  have v1: "\<not> pte_valid (tr s1 p a)" using s1(4) by (simp add: pte_valid_def)
  obtain n1 y1 s2 where s2: "map_at p a pa f s1 = Ok 0 s2" "xs = n1 @ y1" "length n1 \<le> 2" "rep s2 p y1"
      "owned s2 p = owned s1 p \<union> set n1" "writes (owned s2 p) s1 s2"
      "tr s2 p = (\<lambda>v. if vpn v = vpn a then PA2PTE pa OR scast f OR PTE_V else tr s1 p v)"
    using map_ok [OF s1(2) assms(4,6) _ v1, of f] assms(2) by auto
  have v2: "\<not> pte_valid (tr s2 p b)" using s1(4) s2(7) assms(3) by (simp add: pte_valid_def)
  have len: "2 \<le> length y1" using assms(2) s2(2,3) by simp
  obtain n2 y2 s3 where s3: "map_at p b pb g s2 = Ok 0 s3" "y1 = n2 @ y2" "length n2 \<le> 2" "rep s3 p y2"
      "owned s3 p = owned s2 p \<union> set n2" "writes (owned s3 p) s2 s3"
      "tr s3 p = (\<lambda>v. if vpn v = vpn b then PA2PTE pb OR scast g OR PTE_V else tr s2 p v)"
    using map_ok [OF s2(4) assms(5,7) len v2, of g] by blast
  have "owned s3 p = insert p (set (n1 @ n2))" using s1(3) s2(5) s3(5) by auto
  moreover have "writes (owned s3 p) s s3"
  proof -
    have "{p} \<union> owned s2 p \<union> owned s3 p = owned s3 p" using s1(3) s2(5) s3(5) by auto
    then show ?thesis using writes_trans [OF writes_trans [OF s1(5) s2(6)] s3(6)] by simp
  qed
  moreover have "xs = (n1 @ n2) @ y2" "length (n1 @ n2) \<le> 4" using s2(2,3) s3(2,3) by simp_all
  moreover note s1(1) s2(1) s3(1) s3(4) s3(7) [unfolded s2(7) s1(4)]
  ultimately show ?thesis by blast
qed

lemma teardown_two:
  assumes "rep s p xs" and "vpn a \<noteq> vpn b" and "pte_valid (tr s p a)" "pte_valid (tr s p b)"
    and "\<And>v. vpn v \<noteq> vpn a \<Longrightarrow> vpn v \<noteq> vpn b \<Longrightarrow> \<not> pte_valid (tr s p v)"
  shows "\<exists>s1 s2 s3 ps. unmap_at p a s = Ok () s1 \<and> unmap_at p b s1 = Ok () s2 \<and> destroy p s2 = Ok () s3
     \<and> distinct ps \<and> set ps = owned s p \<and> pool s3 (ps @ xs) \<and> writes (owned s p) s s3"
proof -
  obtain s1 where s1: "unmap_at p a s = Ok () s1" "rep s1 p xs" "owned s1 p = owned s p" "writes (owned s p) s s1"
      "tr s1 p = (\<lambda>v. if vpn v = vpn a then 0 else tr s p v)"
    using unmap_ok [OF assms(1,3)] by blast
  have "pte_valid (tr s1 p b)" using assms(2,4) s1(5) by simp
  then obtain s2 where s2: "unmap_at p b s1 = Ok () s2" "rep s2 p xs" "owned s2 p = owned s1 p" "writes (owned s1 p) s1 s2"
      "tr s2 p = (\<lambda>v. if vpn v = vpn b then 0 else tr s1 p v)"
    using unmap_ok [OF s1(2)] by blast
  have "\<not> pte_valid (tr s2 p v)" for v
    using assms(5) [of v] by (auto simp: s2(5) s1(5) pte_valid_def)
  then obtain ps s3 where s3: "destroy p s2 = Ok () s3" "distinct ps" "set ps = owned s2 p" "pool s3 (ps @ xs)"
      "writes (owned s2 p) s2 s3"
    using destroy_ok [OF s2(2)] by blast
  have "writes (owned s p) s s3"
    using writes_trans [OF writes_trans [OF s1(4) s2(4)] s3(5)] s1(3) s2(3) by simp
  with s1 s2 s3 show ?thesis by auto
qed

end

definition writes_only :: "u64 set \<Rightarrow> kstate \<Rightarrow> kstate \<Rightarrow> bool" where
  "writes_only A s s' \<longleftrightarrow> mem_only s s' \<and> (\<forall>p. p \<notin> A \<longrightarrow> same_page (k_mem s) (k_mem s') p)"

lemma writes_only_trans: "writes_only A s s' \<Longrightarrow> writes_only B s' s'' \<Longrightarrow> writes_only (A \<union> B) s s''"
  unfolding writes_only_def by (metis UnCI mem_only_trans same_page_trans)

interpretation kspace: address_space create_pagetable map_page unmap_page "destroy_pagetable 3"
  kmem_rep vm_rep translate tables writes_only
proof unfold_locales
  fix s pt xs
  assume "vm_rep s pt xs"
  then show "kmem_rep s xs" and "tables s pt \<inter> set xs = {}" by (simp_all add: vm_rep_def tables_def)
next
  fix s xs
  assume "kmem_rep s xs"
  then show "distinct xs" by (simp add: kmem_rep_def)
next
  fix A s s' B s''
  assume "writes_only A s s'" "writes_only B s' s''"
  then show "writes_only (A \<union> B) s s''" by (rule writes_only_trans)
next
  fix s p xs
  assume "kmem_rep s (p # xs)"
  then show "\<exists>s'. create_pagetable s = Ok p s' \<and> vm_rep s' p xs \<and> tables s' p = {p} \<and> translate s' p = (\<lambda>_. 0)
      \<and> writes_only {p} s s'"
    using create_pagetable_run [of s p xs] by (auto simp: writes_only_def fun_eq_iff)
next
  fix s pt xs va pa perm
  assume a: "vm_rep s pt xs" "pg_aligned va" "pg_aligned pa" "2 \<le> length xs" "\<not> pte_valid (translate s pt va)"
  let ?n = "absent s pt va"
  have n: "?n \<le> length xs" "?n \<le> 2" using absent_le [of s pt va] a(4) by simp_all
  obtain s' where s': "map_page pt va pa perm s = Ok 0 s'"
    "vm_update pt (take ?n xs) (drop ?n xs)
        (\<lambda>va'. if same_vpn 2 va va' then PA2PTE pa OR scast perm OR PTE_V else translate s pt va') s s'"
    using map_page_run [OF a(1-3) refl n(1) a(5)] by blast
  have "(\<lambda>va'. if same_vpn 2 va va' then PA2PTE pa OR scast perm OR PTE_V else translate s pt va')
      = (\<lambda>v. if vpn v = vpn va then PA2PTE pa OR scast perm OR PTE_V else translate s pt v)"
    by (auto simp: same_vpn_iff)
  with s' n show "\<exists>ns ys s'. map_page pt va pa perm s = Ok 0 s' \<and> xs = ns @ ys \<and> length ns \<le> 2 \<and> vm_rep s' pt ys
        \<and> tables s' pt = tables s pt \<union> set ns \<and> writes_only (tables s' pt) s s'
        \<and> translate s' pt = (\<lambda>v. if vpn v = vpn va then PA2PTE pa OR scast perm OR PTE_V else translate s pt v)"
    by (intro exI [of _ "take ?n xs"] exI [of _ "drop ?n xs"] exI [of _ s']) (simp add: vm_update_def writes_only_def)
next
  fix s pt xs va
  assume a: "vm_rep s pt xs" "pte_valid (translate s pt va)"
  have "(\<lambda>va'. if same_vpn 2 va va' then 0 else translate s pt va')
      = (\<lambda>v. if vpn v = vpn va then 0 else translate s pt v)"
    by (auto simp: same_vpn_iff)
  then show "\<exists>s'. unmap_page pt va s = Ok () s' \<and> vm_rep s' pt xs \<and> tables s' pt = tables s pt
        \<and> writes_only (tables s pt) s s' \<and> translate s' pt = (\<lambda>v. if vpn v = vpn va then 0 else translate s pt v)"
    using unmap_page_run [OF a] by (auto simp: vm_update_def writes_only_def)
next
  fix s pt xs
  assume "vm_rep s pt xs" "\<And>v. \<not> pte_valid (translate s pt v)"
  from destroy_empty_run [OF this] obtain ps s' where "destroy_pagetable 3 pt s = Ok () s'" "distinct ps"
      "set ps = tables s pt" "kmem_rep s' (rev ps @ xs)" "mem_only s s'"
      "\<forall>p. p \<notin> tables s pt \<longrightarrow> same_page (k_mem s) (k_mem s') p" by blast
  then show "\<exists>ps s'. destroy_pagetable 3 pt s = Ok () s' \<and> distinct ps \<and> set ps = tables s pt
      \<and> kmem_rep s' (ps @ xs) \<and> writes_only (tables s pt) s s'"
    by (intro exI [of _ "rev ps"] exI [of _ s']) (simp add: writes_only_def)
qed

section \<open>The self-test\<close>

lemma vm_rep_frame:
  assumes "vm_rep s pt xs" and "kmem_rep s' ys" and "k_link s' = k_link s" and "tables s pt \<inter> set ys = {}"
    and "\<And>p. p \<in> tables s pt \<Longrightarrow> same_page (k_mem s) (k_mem s') p"
  shows "vm_rep s' pt ys" and "tables s' pt = tables s pt" and "translate s' pt = translate s pt"
  using pt_frame [OF vm_repD(2) [OF assms(1)], of "k_mem s'"] assms(2-)
  by (auto simp: vm_rep_def tables_def translate_def fun_eq_iff)

lemma vm_rep_allocated:
  assumes "vm_rep s pt (q # xs)"
  shows "vm_rep (allocated q s) pt xs" and "tables (allocated q s) pt = tables s pt"
    and "translate (allocated q s) pt = translate s pt"
proof -
  note r = vm_repD [OF assms]
  have ok: "page_ok (k_link s) q" using r(1) by (simp add: kmem_rep_def)
  have "same_page (k_mem s) (k_mem (allocated q s)) p" if "p \<in> tables s pt" for p
  proof -
    have "p \<noteq> q" using that r(3) by (auto simp: tables_def)
    then show ?thesis
      using same_page_sym [OF same_page_memset [OF page_ok_aligned [OF ok]]] by (simp add: allocated_def)
  qed
  moreover have "tables s pt \<inter> set xs = {}" using r(3) by (auto simp: tables_def)
  moreover have "k_link (allocated q s) = k_link s" by (simp add: allocated_def)
  ultimately show "vm_rep (allocated q s) pt xs" and "tables (allocated q s) pt = tables s pt"
    and "translate (allocated q s) pt = translate s pt"
    using vm_rep_frame [OF assms alloc_page_run(2) [OF r(1)]] by auto
qed

lemma PA2PTE_flags: "f < 1024 \<Longrightarrow> (PA2PTE pa OR g) AND f = g AND f"
proof -
  assume f: "f < 1024"
  have "PA2PTE pa AND f = 0"
    by (rule bit_word_eqI) (use bit_flags_small [OF f] in \<open>fastforce simp: PA2PTE_def bit_simps\<close>)
  then show ?thesis by (simp add: bit.conj_disj_distrib2)
qed

lemma lookup_valid:
  assumes "vm_rep s pt xs" and "pte_valid (translate s pt va)"
  shows "walk_lookup pt va (k_mem s) \<noteq> 0" and "load64 (k_mem s) (walk_lookup pt va (k_mem s)) = translate s pt va"
  using leaf_address [OF vm_repD(2) [OF assms(1)] valid_absent [OF assms(2), unfolded absent_def] vm_repD(4) [OF assms(1)]]
  by (simp_all add: walk_lookup_def translate_def)

lemma test_pagetable_run:
  assumes "kmem_rep s (p # q # xs)" and "2 \<le> length xs"
  shows "\<exists>s'. test_pagetable s = Ok () s' \<and> (\<exists>ns ys. xs = ns @ ys \<and> vm_rep s' p ys)"
proof -
  obtain s1 where s1: "create_pagetable s = Ok p s1" "vm_rep s1 p (q # xs)" "\<forall>va. translate s1 p va = 0"
    using create_pagetable_run [OF assms(1)] by blast
  let ?s2 = "allocated q s1" and ?e = "PA2PTE q OR (PTE_R OR PTE_W) OR PTE_V"
  note s2 = vm_rep_allocated [OF s1(2)] and a2 = alloc_page_run [OF vm_repD(1) [OF s1(2)]]
  have q: "pg_aligned q" using vm_repD(1) [OF s1(2)] by (auto simp: kmem_rep_def page_ok_aligned)
  have "\<not> pte_valid (translate ?s2 p 0x1000000)" using s2(3) s1(3) by (simp add: pte_valid_def)
  moreover have "pg_aligned 0x1000000" by (simp add: pg_aligned_unat)
  ultimately obtain ns ys s3 where s3: "map_page p 0x1000000 q (ucast (PTE_R OR PTE_W)) ?s2 = Ok 0 s3" "xs = ns @ ys"
      "vm_rep s3 p ys" and tr3: "translate s3 p = (\<lambda>v. if vpn v = vpn 0x1000000 then PA2PTE q OR
         scast (ucast (PTE_R OR PTE_W) :: i32) OR PTE_V else translate ?s2 p v)"
    using kspace.map_ok [OF s2(1) _ q assms(2), of "0x1000000" "ucast (PTE_R OR PTE_W)"] by blast
  have e: "translate s3 p 0x1000000 = ?e" by (simp add: tr3 perm_casts)
  then have v: "pte_valid (translate s3 p 0x1000000)" by simp
  have seven: "(PTE_R OR PTE_W) OR PTE_V = 7" by (simp add: pte_bits)
  have pa: "PTE2PA ?e = q" using PTE2PA_flags [of 7 q] q by (simp add: seven pg_aligned_iff)
  have fl: "?e AND PTE_R \<noteq> 0" "?e AND PTE_W \<noteq> 0" "?e AND PTE_X = 0" "?e AND PTE_V \<noteq> 0"
    unfolding seven by (simp_all add: PA2PTE_flags pte_bits)
  note look = lookup_valid [OF s3(3) v]
  have "test_pagetable s = Ok () s3"
    using s1(1) a2(1) s3(1) look e pa fl
    by (simp add: test_pagetable_def exec_simps kassert_run)
  with s3(2,3) show ?thesis by blast
qed

lemma kvminithart_run: "kvminithart s = Ok () (s\<lparr>k_csr := w_satp (MAKE_SATP (k_pagetable s)) (k_csr s)\<rparr>)"
  by (simp add: kvminithart_def exec_simps csr_write_def)

section \<open>Properties\<close>

text \<open>C14. \<open>map_page\<close> updates one translation: on page-aligned addresses, with the page not mapped
  and enough free pages for the missing tables, it returns 0; the page then translates to the
  given physical page with the given bits, every other page as before; the tables have taken just
  the missing pages from the pool, and no other memory has changed.\<close>

theorem map_page_updates_one_page:
  assumes "vm_rep s pt xs" and "pg_aligned va" and "pg_aligned pa"
    and "absent s pt va \<le> length xs" and "\<not> pte_valid (translate s pt va)"
  shows "\<exists>s'. map_page pt va pa perm s = Ok 0 s' \<and> vm_rep s' pt (drop (absent s pt va) xs)
     \<and> tables s' pt = tables s pt \<union> set (take (absent s pt va) xs)
     \<and> (\<forall>v. translate s' pt v = (if vpn v = vpn va then PA2PTE pa OR scast perm OR PTE_V else translate s pt v))
     \<and> (\<forall>p. p \<notin> tables s' pt \<longrightarrow> same_page (k_mem s) (k_mem s') p) \<and> k_procs s' = k_procs s"
proof -
  obtain s' where s': "map_page pt va pa perm s = Ok 0 s'"
    "vm_update pt (take (absent s pt va) xs) (drop (absent s pt va) xs)
        (\<lambda>va'. if same_vpn 2 va va' then PA2PTE pa OR scast perm OR PTE_V else translate s pt va') s s'"
    using map_page_run [OF assms(1-3) refl assms(4,5)] by blast
  then have "k_procs s' = k_procs s" by (simp add: vm_update_def mem_only_frame)
  with s' show ?thesis by (auto simp: vm_update_def same_vpn_iff)
qed

lemma fresh_space:
  "\<exists>s. create_pagetable pool_state = Ok (hd pool_pages) s \<and> vm_rep s (hd pool_pages) (tl pool_pages)
     \<and> (\<forall>va. translate s (hd pool_pages) va = 0)"
proof -
  have "kmem_rep pool_state (hd pool_pages # tl pool_pages)"
    using kmem_rep_pool by (simp only: pool_pages_split(1) [symmetric])
  from create_pagetable_run [OF this] show ?thesis by blast
qed

theorem map_page_updates_one_page_witness:
  "\<exists>s s'. vm_rep s (hd pool_pages) (tl pool_pages)
     \<and> map_page (hd pool_pages) 0x5000 0x87F00000 6 s = Ok 0 s'
     \<and> translate s' (hd pool_pages) 0x5008 = PA2PTE 0x87F00000 OR 6 OR PTE_V
     \<and> translate s' (hd pool_pages) 0x6000 = 0"
proof -
  obtain s where s: "vm_rep s (hd pool_pages) (tl pool_pages)" "\<And>va. translate s (hd pool_pages) va = 0"
    using fresh_space by blast
  have "pg_aligned 0x5000" "pg_aligned 0x87F00000" "absent s (hd pool_pages) 0x5000 \<le> length (tl pool_pages)"
      "\<not> pte_valid (translate s (hd pool_pages) 0x5000)"
    using absent_le [of s "hd pool_pages" "0x5000"] pool_pages_split(2) s(2)
    by (simp_all add: pg_aligned_unat pte_valid_def)
  from map_page_updates_one_page [OF s(1) this, of 6] s show ?thesis by (auto simp: vpn_def)
qed

text \<open>C39. The error branches of \<open>map_page\<close>: -1 with the state untouched when an address is not page
  aligned, a panic when the page is already mapped, and the allocator's panic (never -1) when the
  free pages do not suffice for the missing tables.\<close>

theorem map_page_errors:
  assumes "vm_rep s pt xs"
  shows "(\<not> pg_aligned va \<or> \<not> pg_aligned pa \<longrightarrow> map_page pt va pa perm s = Ok (-1) s)
     \<and> (pg_aligned va \<and> pg_aligned pa \<and> pte_valid (translate s pt va) \<longrightarrow>
          (\<exists>s'. map_page pt va pa perm s = Err (Panic ''remap'') s' \<and> translate s' pt = translate s pt))
     \<and> (pg_aligned va \<and> pg_aligned pa \<and> length xs < absent s pt va \<longrightarrow>
          (\<exists>s'. map_page pt va pa perm s = Err (Panic ''alloc_page'') s'))"
  using map_page_unaligned map_page_remap [OF assms] map_page_exhausted [OF assms] by blast

theorem map_page_errors_witness:
  "\<exists>s s'. vm_rep s 0x87FFF000 [0x87FFE000]
     \<and> map_page 0x87FFF000 0x5004 0x87FFE000 6 s = Ok (-1) s
     \<and> map_page 0x87FFF000 0x5000 0x87FFE000 6 s = Err (Panic ''alloc_page'') s'"
proof -
  obtain s where s: "vm_rep s 0x87FFF000 [0x87FFE000]" "\<forall>va. translate s 0x87FFF000 va = 0"
      "tables s 0x87FFF000 = {0x87FFF000}"
    using create_pagetable_run [OF kmem_rep_demo2] by blast
  have "absent s 0x87FFF000 0x5000 = 2"
  proof -
    have "\<not> has_child (k_mem s) 0x87FFF000 i" for i
    proof
      assume "has_child (k_mem s) 0x87FFF000 i"
      then show False using vm_repD(2) [OF s(1)] s(3) by (auto simp: tables_def numeral_2_eq_2)
    qed
    then show ?thesis by (simp add: absent_levels)
  qed
  moreover have "pg_aligned 0x5000" "pg_aligned 0x87FFE000" "\<not> pg_aligned 0x5004" by (simp_all add: pg_aligned_unat)
  ultimately show ?thesis
    using map_page_errors [OF s(1), of "0x5004" "0x87FFE000" 6] map_page_errors [OF s(1), of "0x5000" "0x87FFE000" 6] s(1)
    by auto
qed

text \<open>C26. \<open>unmap_page\<close> clears the translation of one page and of no other, leaving every table in
  place; when the page is not mapped it panics with the state untouched.\<close>

theorem unmap_page_clears_one_page:
  assumes "vm_rep s pt xs"
  shows "(pte_valid (translate s pt va) \<longrightarrow> (\<exists>s'. unmap_page pt va s = Ok () s' \<and> vm_rep s' pt xs
        \<and> tables s' pt = tables s pt
        \<and> (\<forall>v. translate s' pt v = (if vpn v = vpn va then 0 else translate s pt v))))
     \<and> (\<not> pte_valid (translate s pt va) \<longrightarrow> unmap_page pt va s =
          Err (Panic (if absent s pt va = 0 then ''unmap_page: not mapped'' else ''unmap_page: address not mapped'')) s)"
proof (intro conjI impI)
  assume "pte_valid (translate s pt va)"
  from kspace.unmap_ok [OF assms this]
  show "\<exists>s'. unmap_page pt va s = Ok () s' \<and> vm_rep s' pt xs \<and> tables s' pt = tables s pt
        \<and> (\<forall>v. translate s' pt v = (if vpn v = vpn va then 0 else translate s pt v))"
    by auto
qed (rule unmap_page_errors [OF assms])

theorem unmap_page_clears_one_page_witness:
  "\<exists>s s'. map_page (hd pool_pages) 0x5000 0x87F00000 6 s = Ok 0 s' \<and> vm_rep s' (hd pool_pages) (drop (absent s (hd pool_pages) 0x5000) (tl pool_pages))
     \<and> (\<exists>s''. unmap_page (hd pool_pages) 0x5000 s' = Ok () s'' \<and> translate s'' (hd pool_pages) 0x5000 = 0)
     \<and> (\<exists>msg. unmap_page (hd pool_pages) 0x6000 s' = Err (Panic msg) s')"
proof -
  obtain s where s: "vm_rep s (hd pool_pages) (tl pool_pages)" "\<And>va. translate s (hd pool_pages) va = 0"
    using fresh_space by blast
  have "pg_aligned 0x5000" "pg_aligned 0x87F00000" "absent s (hd pool_pages) 0x5000 \<le> length (tl pool_pages)"
      "\<not> pte_valid (translate s (hd pool_pages) 0x5000)"
    using absent_le [of s "hd pool_pages" "0x5000"] pool_pages_split(2) s(2)
    by (simp_all add: pg_aligned_unat pte_valid_def)
  from map_page_run [OF s(1) this(1,2) refl this(3,4), of 6] obtain s' where
    s': "map_page (hd pool_pages) 0x5000 0x87F00000 6 s = Ok 0 s'" and
    r: "vm_rep s' (hd pool_pages) (drop (absent s (hd pool_pages) 0x5000) (tl pool_pages))" and
    t: "translate s' (hd pool_pages) = (\<lambda>v. if same_vpn 2 0x5000 v then PA2PTE 0x87F00000 OR scast (6 :: i32) OR PTE_V else 0)"
    unfolding vm_update_def s(2) by blast
  have "pte_valid (translate s' (hd pool_pages) 0x5000)" "\<not> pte_valid (translate s' (hd pool_pages) 0x6000)"
    by (simp_all add: t same_vpn_iff vpn_def) (simp add: pte_valid_def)
  then obtain s'' msg where "unmap_page (hd pool_pages) 0x5000 s' = Ok () s''" "translate s'' (hd pool_pages) 0x5000 = 0"
      "unmap_page (hd pool_pages) 0x6000 s' = Err (Panic msg) s'"
    using unmap_page_clears_one_page [OF r, of "0x5000"] unmap_page_clears_one_page [OF r, of "0x6000"] by auto
  with s' r show ?thesis by blast
qed

text \<open>C19. \<open>walk\<close>: without allocation it returns the address of the entry that holds the translation
  when the tables exist and panics otherwise; with allocation and enough free pages it creates the
  missing tables, and no translation changes.\<close>

theorem walk_finds_entry:
  assumes "vm_rep s pt xs"
  shows "(absent s pt va = 0 \<longrightarrow> (\<exists>pte. walk pt va False s = Ok pte s \<and> pte \<noteq> 0 \<and> load64 (k_mem s) pte = translate s pt va))
     \<and> (absent s pt va \<noteq> 0 \<longrightarrow> walk pt va False s = Err (Panic ''walk'') s)
     \<and> (absent s pt va \<le> length xs \<longrightarrow> (\<exists>pte s'. walk pt va True s = Ok pte s' \<and> absent s' pt va = 0
          \<and> load64 (k_mem s') pte = translate s' pt va \<and> translate s' pt = translate s pt
          \<and> vm_rep s' pt (drop (absent s pt va) xs)))"
proof (intro conjI impI)
  note r = vm_repD [OF assms]
  assume "absent s pt va = 0"
  from leaf_address [OF r(2) this [unfolded absent_def] r(4)]
  show "\<exists>pte. walk pt va False s = Ok pte s \<and> pte \<noteq> 0 \<and> load64 (k_mem s) pte = translate s pt va"
    by (simp add: walk_def exec_simps walk_lookup_def translate_def)
next
  assume "absent s pt va \<noteq> 0"
  then show "walk pt va False s = Err (Panic ''walk'') s"
    using translate_absent by (simp add: walk_def exec_simps)
next
  assume "absent s pt va \<le> length xs"
  from walk_create_run [OF assms refl this] obtain s' where
    s': "walk_create pt va s = Ok (walk_lookup pt va (k_mem s')) s'" "absent s' pt va = 0"
      "vm_rep s' pt (drop (absent s pt va) xs)" "translate s' pt = translate s pt"
    by (auto simp: vm_update_def)
  moreover have "pt_entry (k_mem s') 2 pt va = translate s pt va" using s'(4) by (metis translate_def)
  moreover note leaf_address [OF vm_repD(2) [OF s'(3)] s'(2) [unfolded absent_def] vm_repD(4) [OF s'(3)]]
  ultimately show "\<exists>pte s'. walk pt va True s = Ok pte s' \<and> absent s' pt va = 0 \<and> load64 (k_mem s') pte = translate s' pt va
      \<and> translate s' pt = translate s pt \<and> vm_rep s' pt (drop (absent s pt va) xs)"
    by (simp add: walk_def exec_simps walk_lookup_def translate_def [of s'])
qed

theorem walk_finds_entry_witness:
  "\<exists>s pte s'. vm_rep s (hd pool_pages) (tl pool_pages)
     \<and> walk (hd pool_pages) 0x5000 True s = Ok pte s' \<and> load64 (k_mem s') pte = 0"
proof -
  obtain s where s: "vm_rep s (hd pool_pages) (tl pool_pages)" "\<And>va. translate s (hd pool_pages) va = 0"
    using fresh_space by blast
  have "absent s (hd pool_pages) 0x5000 \<le> length (tl pool_pages)"
    using absent_le [of s "hd pool_pages" "0x5000"] pool_pages_split(2) by simp
  with walk_finds_entry [OF s(1), of "0x5000"] s show ?thesis by metis
qed

text \<open>C25. \<open>kvmmap\<close> returns and maps the \<open>n\<close> pages from \<open>va\<close> to the \<open>n\<close> pages from \<open>pa\<close>, and no other
  page, as long as none of them is mapped and the pool has the pages for the first path and for one
  table at each 2 MB and 1 GB boundary on the way; it takes no more than that.\<close>

theorem kvmmap_maps_range:
  assumes "vm_rep s pt xs" and "pg_aligned va" and "pg_aligned pa" and "0 < n" and "unat sz = 4096 * n"
    and "unat pa + 4096 * n < 549755813888" and "unat va + 4096 * n \<le> 549755813888"
    and "absent s pt va + range_cost va (n - 1) \<le> length xs"
    and "\<forall>v. vpn va \<le> vpn v \<and> vpn v < vpn va + n \<longrightarrow> \<not> pte_valid (translate s pt v)"
  shows "\<exists>ns ys s'. kvmmap pt va pa sz perm s = Ok () s' \<and> xs = ns @ ys \<and> vm_rep s' pt ys
     \<and> length ns \<le> absent s pt va + range_cost va (n - 1)
     \<and> (\<forall>v. translate s' pt v = (if vpn va \<le> vpn v \<and> vpn v < vpn va + n
          then PA2PTE (pa + of_nat (4096 * (vpn v - vpn va))) OR scast perm OR PTE_V else translate s pt v))"
proof -
  have free: "\<And>v. vpn va \<le> vpn v \<Longrightarrow> vpn v < vpn va + n \<Longrightarrow> \<not> pte_valid (translate s pt v)"
    using assms(9) by blast
  obtain ns ys s' where s': "kvmmap pt va pa sz perm s = Ok () s'" "xs = ns @ ys"
     "length ns \<le> absent s pt va + range_cost va (n - 1)" and
     u: "vm_update pt ns ys (\<lambda>v. if vpn va \<le> vpn v \<and> vpn v < vpn va + n
          then PA2PTE (pa + of_nat (4096 * (vpn v - vpn va))) OR scast perm OR PTE_V else translate s pt v) s s'"
    using kvmmap_run [OF assms(1,3,4,5,2,6,7,8) free, of perm] by blast
  from u have "vm_rep s' pt ys" "\<forall>v. translate s' pt v = (if vpn va \<le> vpn v \<and> vpn v < vpn va + n
          then PA2PTE (pa + of_nat (4096 * (vpn v - vpn va))) OR scast perm OR PTE_V else translate s pt v)"
    by (simp_all only: vm_update_def refl simp_thms)
  with s' show ?thesis by blast
qed

theorem kvmmap_maps_range_witness:
  "\<exists>s s'. vm_rep s (hd pool_pages) (tl pool_pages)
     \<and> kvmmap (hd pool_pages) 0x10000000 0x10000000 0x3000 6 s = Ok () s'
     \<and> translate s' (hd pool_pages) 0x10002010 = PA2PTE 0x10002000 OR 6 OR PTE_V
     \<and> translate s' (hd pool_pages) 0x10003000 = 0"
proof -
  obtain s where s: "vm_rep s (hd pool_pages) (tl pool_pages)" "\<And>va. translate s (hd pool_pages) va = 0"
    using fresh_space by blast
  have a: "pg_aligned 0x10000000" "(0 :: nat) < 3" "unat (0x3000 :: u64) = 4096 * 3"
    "unat (0x10000000 :: u64) + 4096 * 3 < 549755813888" "unat (0x10000000 :: u64) + 4096 * 3 \<le> 549755813888"
    by (simp_all add: pg_aligned_unat)
  have b: "absent s (hd pool_pages) 0x10000000 + range_cost 0x10000000 (3 - 1) \<le> length (tl pool_pages)"
    using absent_le [of s "hd pool_pages" "0x10000000"] pool_pages_split(2) by (simp add: range_cost_def)
  have c: "\<forall>v. vpn 0x10000000 \<le> vpn v \<and> vpn v < vpn 0x10000000 + 3 \<longrightarrow> \<not> pte_valid (translate s (hd pool_pages) v)"
    by (simp add: s(2) pte_valid_def)
  from kvmmap_maps_range [OF s(1) a(1,1,2,3,4,5) b c, of 6] s show ?thesis
    by (auto simp: vpn_def)
qed

text \<open>C15. \<open>kvminit\<close> builds exactly the direct map: with 68 free pages it returns, the kernel's text is
  readable and executable, the rest of the memory up to \<open>PHYSTOP\<close> and the UART readable and
  writable, each page mapped to itself, and no other address is mapped.\<close>

theorem kvminit_builds_direct_map:
  assumes "kmem_rep s (p # xs)" and "67 \<le> length xs"
  shows "\<exists>ns ys s'. kvminit s = Ok () s' \<and> k_pagetable s' = p \<and> xs = ns @ ys \<and> vm_rep s' p ys
     \<and> tables s' p = insert p (set ns) \<and> (\<forall>va. translate s' p va = direct_map (l_etext (k_link s)) va)"
  using kvminit_run [OF assms] by metis

theorem kvminit_builds_direct_map_witness:
  "\<exists>s'. kvminit pool_state = Ok () s' \<and> translate s' (hd pool_pages) 0x80000010 = PA2PTE 0x80000000 OR (PTE_R OR PTE_X) OR PTE_V
     \<and> translate s' (hd pool_pages) 0x80008000 = PA2PTE 0x80008000 OR (PTE_R OR PTE_W) OR PTE_V
     \<and> translate s' (hd pool_pages) 0x10000000 = PA2PTE 0x10000000 OR (PTE_R OR PTE_W) OR PTE_V
     \<and> translate s' (hd pool_pages) 0x88000000 = 0"
proof -
  have r: "kmem_rep pool_state (hd pool_pages # tl pool_pages)" "67 \<le> length (tl pool_pages)"
    using kmem_rep_pool pool_pages_split by simp_all
  have e: "l_etext (k_link pool_state) = 0x80008000"
    by (simp add: k_link_pool pool_link_def demo_link_def)
  have d: "direct_map 0x80008000 0x80000010 = PA2PTE 0x80000000 OR (PTE_R OR PTE_X) OR PTE_V"
    "direct_map 0x80008000 0x80008000 = PA2PTE 0x80008000 OR (PTE_R OR PTE_W) OR PTE_V"
    "direct_map 0x80008000 0x10000000 = PA2PTE 0x10000000 OR (PTE_R OR PTE_W) OR PTE_V"
    "direct_map 0x80008000 0x88000000 = 0"
    unfolding direct_map_def vpn_layout by (simp_all add: vpn_def)
  show ?thesis using kvminit_builds_direct_map [OF r, unfolded e] d by metis
qed

text \<open>The registers of the interrupt controller are not in the direct map: with paging on, the
  first access to the PLIC would fault.\<close>

theorem plic_not_mapped:
  assumes "kmem_rep s (p # xs)" and "67 \<le> length xs"
  shows "\<exists>s'. kvminit s = Ok () s' \<and> \<not> pte_valid (translate s' p PLIC)"
proof -
  obtain s' where "kvminit s = Ok () s'" "translate s' p = direct_map (l_etext (k_link s))"
    using kvminit_run [OF assms] by blast
  moreover have "vpn PLIC = 49152" by (simp add: PLIC_def vpn_def)
  moreover have "524288 \<le> vpn (l_etext (k_link s))"
  proof -
    have "KERNBASE < l_etext (k_link s)" "l_etext (k_link s) \<le> PHYSTOP"
      using assms(1) by (auto simp: kmem_rep_def link_wf_def)
    then have "2147483648 < unat (l_etext (k_link s))" "unat (l_etext (k_link s)) \<le> 2281701376"
      by (simp_all add: word_less_nat_alt word_le_nat_alt unat_layout)
    then show ?thesis by (simp add: vpn_low)
  qed
  ultimately show ?thesis by (auto simp: direct_map_def vpn_layout pte_valid_def Let_def)
qed

theorem plic_not_mapped_witness:
  "\<exists>s'. kvminit pool_state = Ok () s' \<and> \<not> pte_valid (translate s' (hd pool_pages) PLIC)"
  by (rule plic_not_mapped [of _ _ "tl pool_pages"])
     (use kmem_rep_pool pool_pages_split in simp_all)

text \<open>C18. \<open>destroy_pagetable\<close> returns after three levels of recursion and gives back every table page
  and every mapped page, each once, in depth-first order; no other page is touched.\<close>

theorem destroy_pagetable_gives_back:
  assumes "kmem_rep s xs" and "levels_ok (k_mem s) 2 pt" and "distinct (visit (k_mem s) 2 pt)"
    and "set (visit (k_mem s) 2 pt) \<inter> set xs = {}" and "\<forall>p \<in> set (visit (k_mem s) 2 pt). page_ok (k_link s) p"
  shows "\<exists>s'. destroy_pagetable 3 pt s = Ok () s' \<and> kmem_rep s' (rev (visit (k_mem s) 2 pt) @ xs)
     \<and> k_procs s' = k_procs s \<and> (\<forall>p. p \<notin> set (visit (k_mem s) 2 pt) \<longrightarrow> same_page (k_mem s) (k_mem s') p)"
proof -
  have "gives_back (visit (k_mem s) 2 pt) xs s (destroy_pagetable (Suc 2) pt s)"
    using assms by (intro destroy_pagetable_run) auto
  then show ?thesis unfolding gives_back_def eval_nat_numeral using mem_only_frame(2) by blast
qed

theorem destroy_pagetable_gives_back_witness:
  "\<exists>s s'. create_pagetable demo2 = Ok 0x87FFF000 s \<and> destroy_pagetable 3 0x87FFF000 s = Ok () s'
     \<and> kmem_rep s' [0x87FFF000, 0x87FFE000]"
proof -
  obtain s where s: "create_pagetable demo2 = Ok 0x87FFF000 s" "vm_rep s 0x87FFF000 [0x87FFE000]"
      "\<And>va. translate s 0x87FFF000 va = 0" "tables s 0x87FFF000 = {0x87FFF000}"
    using create_pagetable_run [OF kmem_rep_demo2] by blast
  have "no_leaf (k_mem s) 2 0x87FFF000" using s(3) by (intro no_leaf_translate) (simp add: pte_valid_def)
  from visit_no_leaf [OF vm_repD(2) [OF s(2)] this] s(4)
  have v: "set (visit (k_mem s) 2 0x87FFF000) = {0x87FFF000}" "distinct (visit (k_mem s) 2 0x87FFF000)"
    "levels_ok (k_mem s) 2 0x87FFF000" by (simp_all add: tables_def)
  then have "visit (k_mem s) 2 0x87FFF000 = [0x87FFF000]"
    by (cases "visit (k_mem s) 2 0x87FFF000") (auto simp del: visit.simps simp: subset_singleton_iff)
  then show ?thesis
    using destroy_pagetable_gives_back [OF vm_repD(1) [OF s(2)] v(3,2)] vm_repD(7) [OF s(2)] s(1) by auto
qed

end
