(* ===== verification/Hart.thy ===== *)
theory Hart
  imports Kvm
begin

text \<open>
  The lock discipline of one hart as an invariant, and the kernel's operations as rules over it.

  \<open>hart H e c s\<close>: the hart holds exactly the locks \<open>H\<close>, the nesting depth \<open>noff\<close> is their number,
  interrupts are off while there are any and will be \<open>e\<close> when the last one is released, and the
  current process is \<open>c\<close>. \<open>data s\<close> is the state without the status register of the hart, its
  nesting counter, the locks and the console (the scheduler's saved context stays), so that \<open>data s' = data s\<close> says that an operation has changed nothing else.

  The lemmas are rules for the weakest precondition of the operations of the spinlock, console,
  allocator and page-table theories; the locale \<open>locking\<close> states what a critical section may rely
  on, and is interpreted on \<open>acquire\<close> and \<open>release\<close>.
\<close>

section \<open>Definitions\<close>

definition hart :: "lockid set \<Rightarrow> bool \<Rightarrow> nat option \<Rightarrow> kstate \<Rightarrow> bool" where
  "hart H e c s \<longleftrightarrow> cpu_wf s \<and> finite H \<and> cpu_noff (cpu0 s) = int (card H) \<and> cpu_proc (cpu0 s) = c
     \<and> (\<forall>lk. if lk \<in> H then lock_held s lk else lock_free s lk)
     \<and> (if H = {} then intr_get (k_csr s) = e else cpu_intena (cpu0 s) = e)"

definition data :: "kstate \<Rightarrow> kstate" where
  "data s = s\<lparr>k_csr := (k_csr s)\<lparr>c_mstatus := 0\<rparr>, k_locks := (\<lambda>_. zero_lock),
     k_cpus := [zero_cpu\<lparr>cpu_context := cpu_context (cpu0 s)\<rparr>], k_uart := zero_uart\<rparr>"

section \<open>What the state without the hart still shows\<close>

lemma data_simps [simp]:
  "k_link (data s) = k_link s" "k_mem (data s) = k_mem s" "k_plic (data s) = k_plic s"
  "k_freelist (data s) = k_freelist s" "k_pagetable (data s) = k_pagetable s" "k_procs (data s) = k_procs s"
  "k_initproc (data s) = k_initproc s" "k_nextpid (data s) = k_nextpid s" "k_first (data s) = k_first s"
  "k_ticks (data s) = k_ticks s" "k_testdata (data s) = k_testdata s" "data (data s) = data s"
  "cpu_context (cpu0 (data s)) = cpu_context (cpu0 s)" "k_csr (data s) = (k_csr s)\<lparr>c_mstatus := 0\<rparr>"
  by (simp_all add: data_def cpu0_def)

lemma data_update [simp]:
  "data (k_mem_update f s) = k_mem_update f (data s)" "data (k_plic_update f' s) = k_plic_update f' (data s)"
  "data (k_freelist_update f1 s) = k_freelist_update f1 (data s)"
  "data (k_pagetable_update f1 s) = k_pagetable_update f1 (data s)"
  "data (k_procs_update f2 s) = k_procs_update f2 (data s)"
  "data (k_initproc_update f3 s) = k_initproc_update f3 (data s)"
  "data (k_nextpid_update f4 s) = k_nextpid_update f4 (data s)"
  "data (k_first_update f5 s) = k_first_update f5 (data s)"
  "data (k_ticks_update f6 s) = k_ticks_update f6 (data s)"
  "data (k_locks_update f8 s) = data s"
  "data (k_uart_update f10 s) = data s"
  by (simp_all add: data_def cpu0_def)

lemma data_eqD:
  assumes "data s = data s'"
  shows "k_link s = k_link s'" "k_mem s = k_mem s'" "k_plic s = k_plic s'" "k_freelist s = k_freelist s'"
    "k_pagetable s = k_pagetable s'" "k_procs s = k_procs s'" "k_initproc s = k_initproc s'"
    "k_nextpid s = k_nextpid s'" "k_first s = k_first s'" "k_ticks s = k_ticks s'" "k_testdata s = k_testdata s'"
    "cpu_context (cpu0 s) = cpu_context (cpu0 s')" "(k_csr s)\<lparr>c_mstatus := 0\<rparr> = (k_csr s')\<lparr>c_mstatus := 0\<rparr>"
  using assms [THEN arg_cong, of k_csr] assms [THEN arg_cong, of "\<lambda>s. cpu_context (cpu0 s)"] assms [THEN arg_cong, of k_link] assms [THEN arg_cong, of k_mem] assms [THEN arg_cong, of k_plic]
    assms [THEN arg_cong, of k_freelist] assms [THEN arg_cong, of k_pagetable] assms [THEN arg_cong, of k_procs]
    assms [THEN arg_cong, of k_initproc] assms [THEN arg_cong, of k_nextpid] assms [THEN arg_cong, of k_first]
    assms [THEN arg_cong, of k_ticks] assms [THEN arg_cong, of k_testdata]
  by (simp_all only: data_simps)

lemma data_transformers [simp]:
  "data (settle s) = data s" "data (acq lk s) = data s" "data (rel lk s) = data s"
  "cpu_context (f (cpu0 s)) = cpu_context (cpu0 s) \<Longrightarrow> data (on_cpu0 f s) = data s"
  by (simp_all add: data_def) (simp_all add: transformer_defs intr_on_eq intr_off_eq)

lemma data_on_cpu0: "data (on_cpu0 f s) = (data s)\<lparr>k_cpus := [zero_cpu\<lparr>cpu_context := cpu_context (f (cpu0 s))\<rparr>]\<rparr>"
  by (simp add: data_def on_cpu0_def cpu0_def)

lemma on_cpu0_uart [simp]: "k_uart (on_cpu0 f s) = k_uart s"
  by (simp add: on_cpu0_def)

section \<open>The discipline of locks\<close>

lemma hartD:
  assumes "hart H e c s"
  shows "cpu_wf s" and "cpu_proc (cpu0 s) = c" and "finite H" and "cpu_noff (cpu0 s) = int (card H)"
    and "lk \<in> H \<Longrightarrow> lock_held s lk" and "lk \<notin> H \<Longrightarrow> lock_free s lk" and "H \<noteq> {} \<Longrightarrow> \<not> intr_get (k_csr s)"
proof -
  show "cpu_wf s" "cpu_proc (cpu0 s) = c" "finite H" "cpu_noff (cpu0 s) = int (card H)"
    "lk \<in> H \<Longrightarrow> lock_held s lk" "lk \<notin> H \<Longrightarrow> lock_free s lk"
    using assms by (auto simp: hart_def split: if_splits)
  assume "H \<noteq> {}"
  then have "0 < int (card H)" using assms by (simp add: hart_def card_gt_0_iff)
  then show "\<not> intr_get (k_csr s)" using assms by (simp add: hart_def cpu_wf_def)
qed

lemma hart_settle [simp]: "hart H e c s \<Longrightarrow> hart H e c (settle s)"
  by (auto simp: hart_def)

lemma hart_acq: "hart H e c s \<Longrightarrow> lk \<notin> H \<Longrightarrow> hart (insert lk H) e c (acq lk s)"
  by (auto simp: hart_def card_gt_0_iff)

lemma hart_rel:
  assumes "hart H e c s" and "lk \<in> H"
  shows "hart (H - {lk}) e c (rel lk s)"
proof -
  note h = hartD [OF assms(1)]
  have ne: "H \<noteq> {}" using assms(2) by blast
  have "card H = Suc (card (H - {lk}))" using card.remove [OF h(3) assms(2)] .
  then have noff: "cpu_noff (cpu0 s) = int (card (H - {lk})) + 1" using h(4) by simp
  then have "cpu_wf (rel lk s)" using h(1) by (intro cpu_wf_rel) simp_all
  moreover have ena: "cpu_intena (cpu0 s) = e" using assms(1) ne by (simp add: hart_def)
  moreover have "intr_get (k_csr (rel lk s)) = e" if "H - {lk} = {}"
  proof -
    have "card (H - {lk}) = 0" by (simp only: that card.empty)
    then show ?thesis using noff ena h(7) [OF ne] by simp
  qed
  moreover have "\<forall>lk'. if lk' \<in> H - {lk} then lock_held (rel lk s) lk' else lock_free (rel lk s) lk'"
    using h(5,6) by auto
  ultimately show ?thesis using h(2,3) noff by (auto simp: hart_def)
qed

lemma hart_frame [simp]:
  "hart H e c (k_mem_update f s) = hart H e c s" "hart H e c (k_uart_update f0 s) = hart H e c s"
  "hart H e c (k_plic_update f' s) = hart H e c s" "hart H e c (k_pagetable_update f1 s) = hart H e c s"
  "hart H e c (k_freelist_update f1 s) = hart H e c s" "hart H e c (k_procs_update f2 s) = hart H e c s"
  "hart H e c (k_initproc_update f3 s) = hart H e c s" "hart H e c (k_nextpid_update f4 s) = hart H e c s"
  "hart H e c (k_first_update f5 s) = hart H e c s" "hart H e c (k_ticks_update f6 s) = hart H e c s"
  by (simp_all add: hart_def)

lemma hart_mem_only: "mem_only s s' \<Longrightarrow> hart H e c s \<Longrightarrow> hart H e c s'"
  by (auto simp: mem_only_iff)

lemma data_mem_only: "mem_only s s' \<Longrightarrow> data s' = (data s)\<lparr>k_mem := k_mem s', k_freelist := k_freelist s'\<rparr>"
  by (auto simp: mem_only_iff)

section \<open>Rules for the operations\<close>

lemma wp_acquire:
  assumes "hart H e c s" and "lk \<notin> H"
    and "\<And>s'. hart (insert lk H) e c s' \<Longrightarrow> data s' = data s \<Longrightarrow> k_uart s' = k_uart s \<Longrightarrow> Q () s'"
  shows "wp (acquire lk) Q s"
  using assms hartD [OF assms(1)] by (intro wpI [OF acquire_free]) (auto simp: hart_acq)

lemma wp_release:
  assumes "hart H e c s" and "lk \<in> H"
    and "\<And>s'. hart (H - {lk}) e c s' \<Longrightarrow> data s' = data s \<Longrightarrow> k_uart s' = k_uart s \<Longrightarrow> Q () s'"
  shows "wp (release lk) Q s"
proof (rule wpI [OF release_acq])
  note h = hartD [OF assms(1)]
  show "cpu_wf s" "lock_held s lk" using h assms(2) by auto
  show "0 < cpu_noff (cpu0 s)" using h(3,4) assms(2) by (auto simp: card_gt_0_iff)
  show "Q () (rel lk s)" using hart_rel [OF assms(1,2)] by (intro assms(3)) simp_all
qed

lemma wp_myproc:
  assumes "hart H e c s" and "\<And>s'. hart H e c s' \<Longrightarrow> data s' = data s \<Longrightarrow> k_uart s' = k_uart s \<Longrightarrow> Q c s'"
  shows "wp myproc Q s"
  using hartD(1,2) [OF assms(1)] assms by (intro wpI [OF myproc_run]) simp_all

lemma wp_printf:
  assumes "hart H e c s" and "PrintLock \<notin> H" and "render (cstr fmt) args = Some bs"
    and "\<And>s'. hart H e c s' \<Longrightarrow> data s' = data s \<Longrightarrow> k_uart s' = send bs (k_uart s) \<Longrightarrow> Q 0 s'"
  shows "wp (printf fmt args) Q s"
proof (rule wpI [OF printf_run [OF _ _ assms(3)]])
  show "cpu_wf s" "lock_free s PrintLock" using hartD(1,6) [OF assms(1)] assms(2) by auto
  show "Q 0 ((settle s)\<lparr>k_uart := send bs (k_uart s)\<rparr>)" using assms(1) by (intro assms(4)) simp_all
qed

lemma wp_kprint:
  assumes "hart H e c s" and "PrintLock \<notin> H" and "render (cstr fmt) args = Some bs"
    and "\<And>s'. hart H e c s' \<Longrightarrow> data s' = data s \<Longrightarrow> k_uart s' = send bs (k_uart s) \<Longrightarrow> Q () s'"
  shows "wp (kprint fmt args) Q s"
  unfolding kprint_def wp_simps using assms by (intro wp_printf) auto

lemma wp_proc_read:
  "i < length (k_procs s) \<Longrightarrow> Q (f (k_procs s ! i)) s \<Longrightarrow> wp (proc_read i f) Q s"
  by (rule wpI) (simp_all add: proc_read_def)

lemma wp_proc_write:
  assumes "i < length (k_procs s)" and "Q () (s\<lparr>k_procs := (k_procs s)[i := f (k_procs s ! i)]\<rparr>)"
  shows "wp (proc_write i f) Q s"
  using assms by (intro wpI) (simp_all add: proc_write_def)

lemma wp_mycpu_write:
  "hart H e c s \<Longrightarrow> Q () (on_cpu0 f s) \<Longrightarrow> wp (mycpu_write f) Q s"
  by (rule wpI [OF mycpu_write_run]) (auto simp: hart_def cpu_wf_def)

lemma hart_on_cpu0:
  assumes "hart H e c s" and "cpu_noff (f (cpu0 s)) = cpu_noff (cpu0 s)" and "H \<noteq> {} \<Longrightarrow> cpu_intena (f (cpu0 s)) = e'"
    and "H = {} \<Longrightarrow> e' = e"
  shows "hart H e' (cpu_proc (f (cpu0 s))) (on_cpu0 f s)"
proof -
  have "lock_held (on_cpu0 f s) = lock_held s" "lock_free (on_cpu0 f s) = lock_free s" "k_csr (on_cpu0 f s) = k_csr s"
    by (simp_all add: on_cpu0_def lock_held_def lock_free_def fun_eq_iff)
  then show ?thesis using assms by (auto simp: hart_def cpu_wf_def)
qed

lemma hart_holding: "hart H e c s \<Longrightarrow> holding lk s \<longleftrightarrow> lk \<in> H"
  using hartD(1,5,6) [of H e c s] mycpu_0 [OF cpu_wf_one_cpu, of s]
  by (cases "lk \<in> H") (auto simp: holding_def lock_held_def lock_free_def)

section \<open>Pages\<close>

definition free_pages :: "kstate \<Rightarrow> u64 list \<Rightarrow> bool" where
  "free_pages s xs \<longleftrightarrow> link_wf (k_link s) \<and> chain (k_mem s) (k_freelist s) xs \<and> distinct xs
     \<and> (\<forall>p \<in> set xs. page_ok (k_link s) p)"

text \<open>A step that writes only the pages \<open>A\<close> and the head of the free list.\<close>

definition pages_only :: "u64 set \<Rightarrow> kstate \<Rightarrow> kstate \<Rightarrow> bool" where
  "pages_only A s s' \<longleftrightarrow> data s' = (data s)\<lparr>k_mem := k_mem s', k_freelist := k_freelist s'\<rparr> \<and> k_uart s' = k_uart s
     \<and> (\<forall>p. p \<notin> A \<longrightarrow> same_page (k_mem s) (k_mem s') p)"

lemma kmem_rep_hart: "hart H e c s \<Longrightarrow> KmemLock \<notin> H \<Longrightarrow> kmem_rep s xs \<longleftrightarrow> free_pages s xs"
  using hartD(1,6) [of H e c s] by (auto simp: kmem_rep_def free_pages_def)

lemma free_pages_data: "data s = data s' \<Longrightarrow> free_pages s xs \<longleftrightarrow> free_pages s' xs"
proof -
  assume "data s = data s'"
  note d = data_eqD [OF this]
  show ?thesis by (simp only: free_pages_def d)
qed

lemma free_pages_frame [simp]:
  "free_pages (k_procs_update f s) xs = free_pages s xs" "free_pages (k_nextpid_update g s) xs = free_pages s xs"
  "free_pages (k_initproc_update h s) xs = free_pages s xs" "free_pages (k_pagetable_update h' s) xs = free_pages s xs"
  by (simp_all add: free_pages_def)

lemma pages_onlyD:
  assumes "pages_only A s s'"
  shows "k_link s' = k_link s" "k_procs s' = k_procs s" "k_pagetable s' = k_pagetable s" "k_initproc s' = k_initproc s"
    "k_nextpid s' = k_nextpid s" "p \<notin> A \<Longrightarrow> same_page (k_mem s) (k_mem s') p"
proof -
  have d: "data s' = (data s)\<lparr>k_mem := k_mem s', k_freelist := k_freelist s'\<rparr>" using assms by (simp add: pages_only_def)
  show "k_link s' = k_link s" "k_procs s' = k_procs s" "k_pagetable s' = k_pagetable s" "k_initproc s' = k_initproc s"
    "k_nextpid s' = k_nextpid s"
    using d [THEN arg_cong, of k_link] d [THEN arg_cong, of k_procs] d [THEN arg_cong, of k_pagetable]
      d [THEN arg_cong, of k_initproc] d [THEN arg_cong, of k_nextpid] by simp_all
  show "p \<notin> A \<Longrightarrow> same_page (k_mem s) (k_mem s') p" using assms by (simp add: pages_only_def)
qed

lemma mem_only_uart: "mem_only s s' \<Longrightarrow> k_uart s' = k_uart s"
  by (auto simp: mem_only_iff)

lemma writes_only_pages: "writes_only A s s' \<Longrightarrow> hart H e c s \<Longrightarrow> hart H e c s' \<and> pages_only A s s'"
  by (auto simp: writes_only_def pages_only_def hart_mem_only data_mem_only mem_only_uart)

lemma wp_alloc_page:
  assumes "hart H e c s" and "KmemLock \<notin> H" and "free_pages s (p # xs)"
    and "\<And>s'. hart H e c s' \<Longrightarrow> pages_only {p} s s' \<Longrightarrow> free_pages s' xs \<Longrightarrow> Q p s'"
  shows "wp alloc_page Q s"
proof -
  have rep: "kmem_rep s (p # xs)" using kmem_rep_hart [OF assms(1,2)] assms(3) by simp
  have "page_ok (k_link s) p" using assms(3) by (simp add: free_pages_def)
  then have "writes_only {p} s (allocated p s)"
    using same_page_sym [OF same_page_memset [OF page_ok_aligned]]
    by (simp add: writes_only_def mem_only_allocated) (simp add: allocated_def)
  from writes_only_pages [OF this assms(1)] have "hart H e c (allocated p s)" "pages_only {p} s (allocated p s)" by simp_all
  moreover from kmem_rep_hart [OF this(1) assms(2)] have "free_pages (allocated p s) xs"
    using alloc_page_run(2) [OF rep] by simp
  ultimately have "Q p (allocated p s)" by (rule assms(4))
  then show ?thesis by (rule wpI [where m = alloc_page, OF alloc_page_run(1) [OF rep]])
qed

lemma wp_free_page:
  assumes "hart H e c s" and "KmemLock \<notin> H" and "free_pages s xs" and "page_ok (k_link s) p" and "p \<notin> set xs"
    and "\<And>s'. hart H e c s' \<Longrightarrow> pages_only {p} s s' \<Longrightarrow> free_pages s' (p # xs) \<Longrightarrow> Q () s'"
  shows "wp (free_page p) Q s"
proof -
  have rep: "kmem_rep s xs" using kmem_rep_hart [OF assms(1,2)] assms(3) by simp
  from free_page_gives_back [OF this assms(4,5)] obtain s' where s': "free_page p s = Ok () s'" "kmem_rep s' (p # xs)"
      "mem_only s s'" "\<forall>q. q \<noteq> p \<longrightarrow> same_page (k_mem s) (k_mem s') q"
    by (auto simp: gives_back_def)
  then have "writes_only {p} s s'" by (simp add: writes_only_def)
  from writes_only_pages [OF this assms(1)] have "hart H e c s'" "pages_only {p} s s'" by simp_all
  moreover from kmem_rep_hart [OF this(1) assms(2)] have "free_pages s' (p # xs)" using s'(2) by simp
  ultimately have "Q () s'" by (rule assms(6))
  then show ?thesis by (rule wpI [where m = "free_page p", OF s'(1)])
qed

section \<open>The contract of a lock\<close>

locale locking =
  fixes lock :: "'l \<Rightarrow> 's \<Rightarrow> ('s, unit) res"
    and unlock :: "'l \<Rightarrow> 's \<Rightarrow> ('s, unit) res"
    and holds :: "'l set \<Rightarrow> 's \<Rightarrow> bool"
    and view :: "'s \<Rightarrow> 'd"
  assumes lock_ok: "holds H s \<Longrightarrow> lk \<notin> H \<Longrightarrow> \<exists>s'. lock lk s = Ok () s' \<and> holds (insert lk H) s' \<and> view s' = view s"
    and lock_twice: "holds H s \<Longrightarrow> lk \<in> H \<Longrightarrow> \<exists>s'. lock lk s = Err (Panic ''acquire'') s'"
    and unlock_ok: "holds H s \<Longrightarrow> lk \<in> H \<Longrightarrow> \<exists>s'. unlock lk s = Ok () s' \<and> holds (H - {lk}) s' \<and> view s' = view s"
    and unlock_other: "holds H s \<Longrightarrow> lk \<notin> H \<Longrightarrow> unlock lk s = Err (Panic ''release'') s"
begin

text \<open>A critical section around a body that keeps the locks it is given: it returns, the locks held
  are those held before, and nothing but the body has changed the data.\<close>

lemma critical_section:
  assumes "holds H s" and "lk \<notin> H"
    and "\<And>s1. holds (insert lk H) s1 \<Longrightarrow> view s1 = view s \<Longrightarrow> wp body (\<lambda>a s2. holds (insert lk H) s2 \<and> P a (view s2)) s1"
  shows "wp (seqM (lock lk) (bindM body (\<lambda>a. seqM (unlock lk) (ret a)))) (\<lambda>a s'. holds H s' \<and> P a (view s')) s"
proof -
  obtain s1 where s1: "lock lk s = Ok () s1" "holds (insert lk H) s1" "view s1 = view s"
    using lock_ok [OF assms(1,2)] by blast
  obtain a s2 where s2: "body s1 = Ok a s2" "holds (insert lk H) s2" "P a (view s2)"
    using assms(3) [OF s1(2,3)] by (rule wpE) blast
  obtain s3 where s3: "unlock lk s2 = Ok () s3" "holds (insert lk H - {lk}) s3" "view s3 = view s2"
    using unlock_ok [OF s2(2), of lk] by blast
  have "insert lk H - {lk} = H" using assms(2) by blast
  with s1(1) s2(1,3) s3 show ?thesis by (simp add: wp_def ret_def)
qed

text \<open>Taking locks in a row takes them all.\<close>

lemma lock_all:
  "holds H s \<Longrightarrow> distinct lks \<Longrightarrow> set lks \<inter> H = {} \<Longrightarrow>
   \<exists>s'. forM lks lock s = Ok () s' \<and> holds (set lks \<union> H) s' \<and> view s' = view s"
proof (induction lks arbitrary: H s)
  case Nil
  then show ?case by simp
next
  case (Cons lk lks)
  obtain s1 where s1: "lock lk s = Ok () s1" "holds (insert lk H) s1" "view s1 = view s"
    using lock_ok [OF Cons.prems(1), of lk] Cons.prems(3) by auto
  have "\<exists>s'. forM lks lock s1 = Ok () s' \<and> holds (set lks \<union> insert lk H) s' \<and> view s' = view s1"
    using Cons.prems by (intro Cons.IH s1(2)) auto
  with s1 show ?case by auto
qed

end

interpretation klock: locking acquire release "\<lambda>H. hart H e c" "\<lambda>s. (data s, k_uart s)" for e c
proof unfold_locales
  fix H s and lk :: lockid
  assume h: "hart H e c s"
  show "\<exists>s'. acquire lk s = Ok () s' \<and> hart (insert lk H) e c s' \<and> (data s', k_uart s') = (data s, k_uart s)" if "lk \<notin> H"
    by (rule wpE [OF wp_acquire [OF h that]]) auto
  show "\<exists>s'. acquire lk s = Err (Panic ''acquire'') s'" if "lk \<in> H"
    using acquire_held [of s lk] hartD(1,5) [OF h] that by (auto simp: cpu_wf_def)
  show "\<exists>s'. release lk s = Ok () s' \<and> hart (H - {lk}) e c s' \<and> (data s', k_uart s') = (data s, k_uart s)" if "lk \<in> H"
    by (rule wpE [OF wp_release [OF h that]]) auto
  show "release lk s = Err (Panic ''release'') s" if "lk \<notin> H"
    using hartD(6) [OF h that] by (intro release_not_held) (simp add: lock_free_def holding_def)
qed

section \<open>Properties\<close>

text \<open>A state of the machine with a given current process and interrupt state.\<close>

definition idle_state :: "nat option \<Rightarrow> bool \<Rightarrow> linkmap \<Rightarrow> kstate" where
  "idle_state c e lm = (boot_state lm)\<lparr>k_cpus := [zero_cpu\<lparr>cpu_proc := c\<rparr>], k_csr := (if e then intr_on zero_csrs else zero_csrs)\<rparr>"

lemma hart_idle: "hart {} e c (idle_state c e lm)"
proof -
  have "\<not> intr_get zero_csrs" by (simp add: intr_get_bit zero_csrs_def)
  then show ?thesis
    by (cases e) (simp_all add: hart_def cpu_wf_def one_cpu_def idle_state_def boot_state_def cpu0_def NCPU_def zero_cpu_def r_tp_def lock_free_def zero_lock_def,
        simp_all add: intr_on_eq zero_csrs_def)
qed

lemma idle_state_fields [simp]:
  "k_link (idle_state c e lm) = lm" "k_procs (idle_state c e lm) = replicate NPROC zero_proc" "k_mem (idle_state c e lm) = (\<lambda>_. 0)"
  "k_freelist (idle_state c e lm) = 0" "k_ticks (idle_state c e lm) = 0" "k_uart (idle_state c e lm) = zero_uart" "k_nextpid (idle_state c e lm) = 1"
  by (simp_all add: idle_state_def boot_state_def)

text \<open>C27. A critical section: \<open>acquire\<close> takes a lock that is not held, with interrupts off until the
  last lock is released; \<open>release\<close> puts the locks and the interrupt state back as they were and
  changes nothing else.\<close>

theorem critical_section_restores:
  assumes "hart H e c s" and "lk \<notin> H"
  shows "\<exists>s1 s2. acquire lk s = Ok () s1 \<and> holding lk s1 \<and> \<not> intr_get (k_csr s1)
     \<and> release lk s1 = Ok () s2 \<and> hart H e c s2 \<and> intr_get (k_csr s2) = intr_get (k_csr s) \<and> data s2 = data s \<and> k_uart s2 = k_uart s"
proof -
  obtain s1 where s1: "acquire lk s = Ok () s1" "hart (insert lk H) e c s1" "data s1 = data s" "k_uart s1 = k_uart s"
    using klock.lock_ok [OF assms] by auto
  obtain s2 where s2: "release lk s1 = Ok () s2" "hart H e c s2" "data s2 = data s1" "k_uart s2 = k_uart s1"
    using klock.unlock_ok [OF s1(2), of lk] assms(2) by auto
  have off: "\<not> intr_get (k_csr s1)" using hartD(7) [OF s1(2)] by simp
  have "intr_get (k_csr s2) = intr_get (k_csr s)"
  proof (cases "H = {}")
    case True
    then show ?thesis using assms(1) s2(2) by (simp add: hart_def)
  next
    case False
    then show ?thesis using hartD(7) [OF assms(1)] hartD(7) [OF s2(2)] by simp
  qed
  then show ?thesis using s1 s2 off hart_holding [OF s1(2), of lk] by auto
qed

theorem critical_section_restores_witness:
  "\<forall>lm. \<exists>s1 s2. acquire WaitLock (idle_state (Some 3) True lm) = Ok () s1 \<and> \<not> intr_get (k_csr s1) \<and> release WaitLock s1 = Ok () s2 \<and> intr_get (k_csr s2)"
proof
  fix lm
  have "intr_get (k_csr (idle_state (Some 3) True lm))" using hart_idle [of True "Some 3" lm] by (simp add: hart_def)
  then show "\<exists>s1 s2. acquire WaitLock (idle_state (Some 3) True lm) = Ok () s1 \<and> \<not> intr_get (k_csr s1) \<and> release WaitLock s1 = Ok () s2 \<and> intr_get (k_csr s2)"
    using critical_section_restores [OF hart_idle [of True "Some 3" lm], of WaitLock] by auto
qed

text \<open>Misuse of a lock is caught: taking a lock twice and giving back a lock that is not held
  both panic.\<close>

theorem lock_misuse_panics:
  assumes "hart H e c s"
  shows "if lk \<in> H then \<exists>s'. acquire lk s = Err (Panic ''acquire'') s' else release lk s = Err (Panic ''release'') s"
  using klock.lock_twice [OF assms, of lk] klock.unlock_other [OF assms, of lk] by simp

theorem lock_misuse_panics_witness:
  "\<forall>lm. \<exists>s1 s2. acquire PidLock (idle_state None False lm) = Ok () s1 \<and> acquire PidLock s1 = Err (Panic ''acquire'') s2 \<and> release WaitLock s1 = Err (Panic ''release'') s1"
proof
  fix lm
  obtain s1 where s1: "acquire PidLock (idle_state None False lm) = Ok () s1" "hart {PidLock} False None s1"
    using klock.lock_ok [OF hart_idle [of False None lm], of PidLock] by auto
  then show "\<exists>s1 s2. acquire PidLock (idle_state None False lm) = Ok () s1 \<and> acquire PidLock s1 = Err (Panic ''acquire'') s2 \<and> release WaitLock s1 = Err (Panic ''release'') s1"
    using lock_misuse_panics [OF s1(2), of PidLock] lock_misuse_panics [OF s1(2), of WaitLock] by auto
qed

end
