(* ===== verification/Proc.thy ===== *)
theory Proc
  imports Hart
begin

text \<open>
  \<open>kernel/proc.c\<close>: the process table, its locks, creation, sleep and wakeup, exit and wait, and
  the scheduler; and \<open>kernel/swtch.S\<close>, the switch between two register contexts.

  A function that calls \<open>sched\<close> (and so leaves the processor in the middle of its body) is two
  definitions: the part up to the switch, which returns what its stack frame keeps and the
  registers the switch loads, and the part that runs when the process is resumed. The
  callee-saved registers of the running code are an argument (\<open>regs\<close>).

  The lemmas: allocation of a process finds the first unused slot, gives it a fresh pid, a
  trapframe and an address space of two pages, and freeing it gives all of that back; \<open>wakeup\<close>
  makes exactly the sleepers on a channel runnable; \<open>exit_process\<close>, \<open>wait_process\<close>, \<open>sleep\<close>,
  \<open>yield\<close> and the scheduler respect the protocol of states and locks.
\<close>

section \<open>Definitions\<close>

subsection \<open>Context switch\<close>

datatype ctxref = CtxProc nat | CtxCpu

definition swtch :: "ctxref \<Rightarrow> ctxref \<Rightarrow> kcontext \<Rightarrow> kstate \<Rightarrow> (kstate, kcontext) res" where
  "swtch old new regs =
     seqM (case old of CtxProc i \<Rightarrow> proc_write i (\<lambda>p. p\<lparr>p_context := regs\<rparr>)
                     | CtxCpu \<Rightarrow> mycpu_write (\<lambda>c. c\<lparr>cpu_context := regs\<rparr>))
          (case new of CtxProc i \<Rightarrow> proc_read i p_context | CtxCpu \<Rightarrow> mycpu_read cpu_context)"

text \<open>\<open>sched\<close> up to the switch: the running slot, the saved \<open>intena\<close> and the registers loaded.\<close>

definition sched :: "kcontext \<Rightarrow> kstate \<Rightarrow> (kstate, nat \<times> bool \<times> kcontext) res" where
  "sched regs =
     bindM myproc (\<lambda>me. case me of None \<Rightarrow> fail Fault | Some p \<Rightarrow>
     bindM (readM (holding (ProcLock p))) (\<lambda>h.
     if \<not> h then fail (Panic ''sched p->lock'') else
     bindM (mycpu_read cpu_noff) (\<lambda>noff.
     if noff \<noteq> 1 then fail (Panic ''sched locks'') else
     bindM (proc_read p p_state) (\<lambda>st.
     if st = RUNNING then fail (Panic ''sched RUNNING'') else
     bindM (csr_read intr_get) (\<lambda>on.
     if on then fail (Panic ''sched interruptible'') else
     bindM (mycpu_read cpu_intena) (\<lambda>intena.
     bindM (swtch (CtxProc p) CtxCpu regs) (\<lambda>regs'.
     ret (p, intena, regs'))))))))"

definition sched_resume :: "bool \<Rightarrow> kstate \<Rightarrow> (kstate, unit) res" where
  "sched_resume intena = mycpu_write (\<lambda>c. c\<lparr>cpu_intena := intena\<rparr>)"

subsection \<open>The process table\<close>

definition procinit_slot :: "nat \<Rightarrow> kstate \<Rightarrow> (kstate, unit) res" where
  "procinit_slot i =
     seqM (initlock (ProcLock i) ''proc'')
    (seqM (proc_write i (\<lambda>p. p\<lparr>p_state := UNUSED\<rparr>))
    (bindM alloc_page (\<lambda>pa.
     if pa = 0 then fail (Panic ''kstack'') else
     bindM (readM k_pagetable) (\<lambda>kpt.
     seqM (kvmmap kpt (KSTACK i) pa PGSIZE (ucast (PTE_R OR PTE_W)))
          (proc_write i (\<lambda>p. p\<lparr>p_kstack := KSTACK i\<rparr>))))))"

definition procinit :: "kstate \<Rightarrow> (kstate, unit) res" where
  "procinit = seqM (initlock WaitLock ''wait_lock'') (forM [0..<NPROC] procinit_slot)"

definition proc_pagetable :: "kstate \<Rightarrow> (kstate, u64) res" where
  "proc_pagetable =
     bindM create_pagetable (\<lambda>pt.
     if pt = 0 then ret 0 else
     bindM (readM (\<lambda>s. l_trampoline (k_link s))) (\<lambda>tramp.
     bindM (map_page pt TRAMPOLINE tramp (ucast (PTE_R OR PTE_X))) (\<lambda>r.
     if r < 0 then seqM (destroy_pagetable 3 pt) (ret 0) else
     bindM (map_page pt TRAPFRAME PGSIZE (ucast (PTE_R OR PTE_W))) (\<lambda>r.
     if r < 0 then seqM (unmap_page pt TRAMPOLINE) (seqM (destroy_pagetable 3 pt) (ret 0)) else
     ret pt))))"

definition proc_freepagetable :: "u64 \<Rightarrow> u64 \<Rightarrow> kstate \<Rightarrow> (kstate, unit) res" where
  "proc_freepagetable pt sz =
     seqM (unmap_page pt TRAMPOLINE) (seqM (unmap_page pt TRAPFRAME) (destroy_pagetable 3 pt))"

definition free_process :: "nat \<Rightarrow> kstate \<Rightarrow> (kstate, unit) res" where
  "free_process i =
     bindM (proc_read i p_trapframe) (\<lambda>tf.
     seqM (whenM (tf \<noteq> 0) (free_page tf))
    (seqM (proc_write i (\<lambda>p. p\<lparr>p_trapframe := 0\<rparr>))
    (bindM (proc_read i p_pagetable) (\<lambda>pt.
     bindM (proc_read i p_sz) (\<lambda>sz.
     seqM (whenM (pt \<noteq> 0) (proc_freepagetable pt sz))
    (seqM (proc_write i (\<lambda>p. p\<lparr>p_pagetable := 0\<rparr>))
    (seqM (proc_write i (\<lambda>p. p\<lparr>p_sz := 0\<rparr>))
    (seqM (proc_write i (\<lambda>p. p\<lparr>p_pid := 0\<rparr>))
    (seqM (proc_write i (\<lambda>p. p\<lparr>p_parent := None\<rparr>))
    (seqM (proc_write i (\<lambda>p. p\<lparr>p_name := (p_name p)[0 := 0]\<rparr>))
    (seqM (proc_write i (\<lambda>p. p\<lparr>p_chan := NoChan\<rparr>))
    (seqM (proc_write i (\<lambda>p. p\<lparr>p_killed := 0\<rparr>))
    (seqM (proc_write i (\<lambda>p. p\<lparr>p_xstate := 0\<rparr>))
          (proc_write i (\<lambda>p. p\<lparr>p_state := UNUSED\<rparr>)))))))))))))))"

definition allocpid :: "kstate \<Rightarrow> (kstate, i32) res" where
  "allocpid =
     seqM (acquire PidLock)
    (bindM (bindM (readM k_nextpid) (\<lambda>pid.
        seqM (modifyM (\<lambda>s. s\<lparr>k_nextpid := k_nextpid s + 1\<rparr>)) (ret pid))) (\<lambda>pid.
     seqM (release PidLock) (ret pid)))"

text \<open>\<open>alloc_process\<close> in two parts: the search for the first unused slot, returned with its lock held,
  and what follows the allocation of the pid.\<close>

fun find_unused :: "nat list \<Rightarrow> kstate \<Rightarrow> (kstate, nat option) res" where
  "find_unused [] s = Ok None s"
| "find_unused (i # is) s =
     seqM (acquire (ProcLock i))
    (bindM (proc_read i p_state) (\<lambda>st.
     if st = UNUSED then ret (Some i)
     else seqM (release (ProcLock i)) (find_unused is))) s"

definition setup_process :: "nat \<Rightarrow> kstate \<Rightarrow> (kstate, nat option) res" where
  "setup_process i =
     bindM alloc_page (\<lambda>tf.
     seqM (proc_write i (\<lambda>p. p\<lparr>p_trapframe := tf\<rparr>))
    (if tf = 0 then seqM (free_process i) (seqM (release (ProcLock i)) (ret None)) else
     bindM proc_pagetable (\<lambda>pt.
     seqM (proc_write i (\<lambda>p. p\<lparr>p_pagetable := pt\<rparr>))
    (if pt = 0 then seqM (free_process i) (seqM (release (ProcLock i)) (ret None)) else
     bindM (readM (\<lambda>s. l_forkret (k_link s))) (\<lambda>forkret.
     seqM (proc_write i (\<lambda>p. p\<lparr>p_context := zero_context\<rparr>))
    (seqM (proc_write i (\<lambda>p. p\<lparr>p_context := (p_context p)\<lparr>ctx_ra := forkret\<rparr>\<rparr>))
    (seqM (proc_write i (\<lambda>p. p\<lparr>p_context := (p_context p)\<lparr>ctx_sp := p_kstack p + PGSIZE\<rparr>\<rparr>))
          (ret (Some i)))))))))"

definition alloc_process :: "kstate \<Rightarrow> (kstate, nat option) res" where
  "alloc_process =
     bindM (find_unused [0..<NPROC]) (\<lambda>found. case found of None \<Rightarrow> ret None | Some i \<Rightarrow>
     bindM allocpid (\<lambda>pid.
     seqM (proc_write i (\<lambda>p. p\<lparr>p_pid := pid\<rparr>))
    (seqM (proc_write i (\<lambda>p. p\<lparr>p_state := USED\<rparr>))
    (seqM (kprint ''alloc_process: allocated process %d\<newline>'' [VWord (scast pid)])
          (setup_process i)))))"

definition create_process :: "u64 \<Rightarrow> kstate \<Rightarrow> (kstate, i32) res" where
  "create_process entrypoint =
     bindM alloc_process (\<lambda>a. case a of None \<Rightarrow> fail (Panic ''create_process: alloc_process failed'') | Some i \<Rightarrow>
     bindM myproc (\<lambda>curr.
     seqM (case curr of None \<Rightarrow> ret () | Some c \<Rightarrow>
        seqM (acquire WaitLock) (seqM (proc_write i (\<lambda>p. p\<lparr>p_parent := Some c\<rparr>)) (release WaitLock)))
    (seqM (proc_write i (\<lambda>p. p\<lparr>p_context := (p_context p)\<lparr>ctx_s0 := entrypoint\<rparr>\<rparr>))
    (seqM (proc_write i (\<lambda>p. p\<lparr>p_state := RUNNABLE\<rparr>))
    (seqM (release (ProcLock i))
          (proc_read i p_pid))))))"

definition userinit :: "kstate \<Rightarrow> (kstate, unit) res" where
  "userinit =
     bindM alloc_process (\<lambda>a.
     seqM (modifyM (\<lambda>s. s\<lparr>k_initproc := a\<rparr>))
    (case a of None \<Rightarrow> fail Fault | Some i \<Rightarrow>
     bindM (readM k_link) (\<lambda>lm.
     seqM (proc_write i (\<lambda>p. p\<lparr>p_context := (p_context p)\<lparr>ctx_s0 := l_init_task lm\<rparr>\<rparr>))
    (seqM (proc_write i (\<lambda>p. p\<lparr>p_context := (p_context p)\<lparr>ctx_ra := l_forkret lm\<rparr>\<rparr>))
    (seqM (proc_write i (\<lambda>p. p\<lparr>p_state := RUNNABLE\<rparr>))
    (seqM (release (ProcLock i))
    (bindM (proc_read i p_pid) (\<lambda>pid.
     kprint ''userinit: created init process pid %d\<newline>'' [VWord (scast pid)]))))))))"

subsection \<open>Sleep, wakeup, exit, wait\<close>

text \<open>The null pointer that \<open>sleep\<close> tests for is \<open>None\<close>.\<close>

definition sleep :: "chan \<Rightarrow> lockid option \<Rightarrow> kcontext \<Rightarrow> kstate \<Rightarrow> (kstate, nat \<times> bool \<times> kcontext) res" where
  "sleep chn lk regs =
     bindM myproc (\<lambda>me. case me of None \<Rightarrow> fail (Panic ''sleep'') | Some p \<Rightarrow>
     (case lk of None \<Rightarrow> fail (Panic ''sleep without lk'') | Some l \<Rightarrow>
     seqM (whenM (l \<noteq> ProcLock p) (seqM (acquire (ProcLock p)) (release l)))
    (seqM (proc_write p (\<lambda>q. q\<lparr>p_chan := chn\<rparr>))
    (seqM (proc_write p (\<lambda>q. q\<lparr>p_state := SLEEPING\<rparr>))
          (sched regs)))))"

definition sleep_resume :: "nat \<Rightarrow> lockid \<Rightarrow> bool \<Rightarrow> kstate \<Rightarrow> (kstate, unit) res" where
  "sleep_resume p l intena =
     seqM (sched_resume intena)
    (seqM (proc_write p (\<lambda>q. q\<lparr>p_chan := NoChan\<rparr>))
          (whenM (l \<noteq> ProcLock p) (seqM (release (ProcLock p)) (acquire l))))"

definition wakeup :: "chan \<Rightarrow> kstate \<Rightarrow> (kstate, unit) res" where
  "wakeup chn =
     forM [0..<NPROC] (\<lambda>i.
       bindM myproc (\<lambda>me.
       whenM (Some i \<noteq> me)
        (seqM (acquire (ProcLock i))
        (bindM (proc_read i (\<lambda>p. p_state p = SLEEPING \<and> p_chan p = chn)) (\<lambda>b.
         seqM (whenM b (proc_write i (\<lambda>p. p\<lparr>p_state := RUNNABLE\<rparr>)))
              (release (ProcLock i)))))))"

text \<open>The loop of \<open>exit_process\<close> that gives the children of \<open>p\<close> to init.\<close>

definition reparent :: "nat option \<Rightarrow> kstate \<Rightarrow> (kstate, unit) res" where
  "reparent p =
     forM [0..<NPROC] (\<lambda>i.
       bindM (proc_read i p_parent) (\<lambda>par.
       whenM (par = p)
        (bindM (readM k_initproc) (\<lambda>init.
         seqM (proc_write i (\<lambda>q. q\<lparr>p_parent := init\<rparr>))
        (bindM (proc_read i p_state) (\<lambda>st.
         case init of None \<Rightarrow> ret ()
         | Some n \<Rightarrow> whenM (st = ZOMBIE) (wakeup (ChanProc n))))))))"

definition exit_process :: "i32 \<Rightarrow> kcontext \<Rightarrow> kstate \<Rightarrow> (kstate, nat \<times> bool \<times> kcontext) res" where
  "exit_process status regs =
     bindM myproc (\<lambda>me.
     bindM (readM k_initproc) (\<lambda>init.
     if me = init then fail (Panic ''init exiting'') else
     seqM (acquire WaitLock)
    (seqM (reparent me)
    (case me of None \<Rightarrow> fail Fault | Some p \<Rightarrow>
     bindM (proc_read p p_parent) (\<lambda>par.
     seqM (case par of None \<Rightarrow> ret () | Some q \<Rightarrow> wakeup (ChanProc q))
    (seqM (acquire (ProcLock p))
    (seqM (proc_write p (\<lambda>q. q\<lparr>p_xstate := status\<rparr>))
    (seqM (proc_write p (\<lambda>q. q\<lparr>p_state := ZOMBIE\<rparr>))
    (seqM (release WaitLock)
          (sched regs))))))))))"

definition exit_resume :: "bool \<Rightarrow> kstate \<Rightarrow> (kstate, unit) res" where
  "exit_resume intena = seqM (sched_resume intena) (fail (Panic ''zombie exit''))"

text \<open>The scan of \<open>wait_process\<close> over the table: the pid and exit status of the child it has reaped,
  with both locks released, or whether there are children.\<close>

fun wait_scan :: "nat option \<Rightarrow> nat list \<Rightarrow> bool \<Rightarrow> kstate \<Rightarrow> (kstate, (i32 \<times> i32) + bool) res" where
  "wait_scan me [] havekids s = Ok (Inr havekids) s"
| "wait_scan me (i # is) havekids s =
     bindM (proc_read i p_parent) (\<lambda>par.
     if par = me then
       seqM (acquire (ProcLock i))
      (bindM (proc_read i p_state) (\<lambda>st.
       if st = ZOMBIE then
         bindM (proc_read i p_pid) (\<lambda>pid.
         bindM (proc_read i p_xstate) (\<lambda>status.
         seqM (free_process i)
        (seqM (release (ProcLock i))
        (seqM (release WaitLock)
              (ret (Inl (pid, status)))))))
       else seqM (release (ProcLock i)) (wait_scan me is True)))
     else wait_scan me is havekids) s"

text \<open>One round of the loop of \<open>wait_process\<close>: it returns (the result, and the value stored through
  \<open>status\<close> if that pointer is not null), or it has gone to sleep.\<close>

datatype wait_result = Waited i32 "i32 option" | Asleep nat bool kcontext

definition wait_round :: "nat option \<Rightarrow> bool \<Rightarrow> kcontext \<Rightarrow> kstate \<Rightarrow> (kstate, wait_result) res" where
  "wait_round me want regs =
     bindM (wait_scan me [0..<NPROC] False) (\<lambda>r.
     case r of Inl (pid, status) \<Rightarrow> ret (Waited pid (if want then Some status else None))
     | Inr havekids \<Rightarrow>
         bindM (if \<not> havekids then ret True
                else case me of None \<Rightarrow> fail Fault | Some p \<Rightarrow> proc_read p (\<lambda>q. p_killed q \<noteq> 0)) (\<lambda>stop.
         if stop then seqM (release WaitLock) (ret (Waited (-1) None))
         else case me of None \<Rightarrow> fail Fault
              | Some p \<Rightarrow> bindM (sleep (ChanProc p) (Some WaitLock) regs) (\<lambda>(q, intena, regs').
                           ret (Asleep q intena regs'))))"

definition wait_process :: "bool \<Rightarrow> kcontext \<Rightarrow> kstate \<Rightarrow> (kstate, wait_result) res" where
  "wait_process want regs = bindM myproc (\<lambda>me. seqM (acquire WaitLock) (wait_round me want regs))"

definition wait_resume :: "nat \<Rightarrow> bool \<Rightarrow> bool \<Rightarrow> kcontext \<Rightarrow> kstate \<Rightarrow> (kstate, wait_result) res" where
  "wait_resume p want intena regs = seqM (sleep_resume p WaitLock intena) (wait_round (Some p) want regs)"

definition yield :: "kcontext \<Rightarrow> kstate \<Rightarrow> (kstate, nat \<times> bool \<times> kcontext) res" where
  "yield regs =
     bindM myproc (\<lambda>me. case me of None \<Rightarrow> fail Fault | Some p \<Rightarrow>
     seqM (acquire (ProcLock p))
    (seqM (proc_write p (\<lambda>q. q\<lparr>p_state := RUNNABLE\<rparr>))
          (sched regs)))"

definition yield_resume :: "nat \<Rightarrow> bool \<Rightarrow> kstate \<Rightarrow> (kstate, unit) res" where
  "yield_resume p intena = seqM (sched_resume intena) (release (ProcLock p))"

subsection \<open>The scheduler and the tasks\<close>

definition scheduler_start :: "kstate \<Rightarrow> (kstate, unit) res" where
  "scheduler_start = mycpu_write (\<lambda>c. c\<lparr>cpu_proc := None\<rparr>)"

definition scheduler_poll :: "kstate \<Rightarrow> (kstate, unit) res" where
  "scheduler_poll = seqM (csr_write intr_on) (csr_write intr_off)"

text \<open>One slot of the scheduler's loop: \<open>Some\<close> the registers loaded when it switches to the process.\<close>

definition scheduler_visit :: "nat \<Rightarrow> kcontext \<Rightarrow> kstate \<Rightarrow> (kstate, kcontext option) res" where
  "scheduler_visit i regs =
     seqM (acquire (ProcLock i))
    (bindM (proc_read i p_state) (\<lambda>st.
     if st = RUNNABLE then
       seqM (proc_write i (\<lambda>p. p\<lparr>p_state := RUNNING\<rparr>))
      (seqM (mycpu_write (\<lambda>c. c\<lparr>cpu_proc := Some i\<rparr>))
      (bindM (swtch CtxCpu (CtxProc i) regs) (\<lambda>regs'. ret (Some regs'))))
     else seqM (release (ProcLock i)) (ret None)))"

definition scheduler_return :: "nat \<Rightarrow> kstate \<Rightarrow> (kstate, unit) res" where
  "scheduler_return i = seqM (mycpu_write (\<lambda>c. c\<lparr>cpu_proc := None\<rparr>)) (release (ProcLock i))"

text \<open>\<open>forkret\<close> up to the call of the task: the address of the function it calls.\<close>

definition forkret :: "kstate \<Rightarrow> (kstate, u64) res" where
  "forkret =
     bindM myproc (\<lambda>me. case me of None \<Rightarrow> fail Fault | Some p \<Rightarrow>
     seqM (release (ProcLock p))
    (bindM (readM k_first) (\<lambda>first.
     seqM (whenM first (seqM (modifyM (\<lambda>s. s\<lparr>k_first := False\<rparr>))
                             (kprint ''init: first process started\<newline>'' [])))
    (bindM (proc_read p (\<lambda>q. ctx_s0 (p_context q))) (\<lambda>s0.
     if s0 \<noteq> 0 then ret s0
     else seqM (kprint ''forkret: no kernel task and userret not implemented\<newline>'' [])
               (fail (Panic ''forkret'')))))))"

definition forkret_task_returned :: "kstate \<Rightarrow> (kstate, unit) res" where
  "forkret_task_returned = fail (Panic ''kernel thread returned'')"

definition init_task_start :: "kstate \<Rightarrow> (kstate, unit) res" where
  "init_task_start = kprint ''init: starting\<newline>'' []"

text \<open>The body of the loop of \<open>init_task\<close> after \<open>wait_process\<close> has returned \<open>pid\<close>: \<open>None\<close> when it goes
  round again, what \<open>yield\<close> keeps otherwise.\<close>

definition init_task_reaped :: "i32 \<Rightarrow> kcontext \<Rightarrow> kstate \<Rightarrow> (kstate, (nat \<times> bool \<times> kcontext) option) res" where
  "init_task_reaped pid regs =
     (if 0 \<le> sint pid
      then seqM (kprint ''init: reaped zombie pid %d\<newline>'' [VWord (scast pid)]) (ret None)
      else bindM (yield regs) (\<lambda>k. ret (Some k)))"

definition is_tester :: "nat \<Rightarrow> kstate \<Rightarrow> (kstate, bool) res" where
  "is_tester p =
     bindM (proc_read p p_parent) (\<lambda>par.
     bindM (readM k_initproc) (\<lambda>init.
     ret (par = None \<or> init \<noteq> None \<and> par = init)))"

text \<open>\<open>simple_task\<close> up to its first switch: the parent creates a child and waits (its pid and how the
  wait ended), the child exits.\<close>

datatype task_result = Parent i32 wait_result | Child nat bool kcontext

definition simple_task_parent :: "i32 \<Rightarrow> kcontext \<Rightarrow> kstate \<Rightarrow> (kstate, task_result) res" where
  "simple_task_parent pid regs =
     seqM (kprint ''\<newline>=== TEST START: Single Function Exit/Wait ===\<newline>'' [])
    (seqM (kprint ''[Parent] PID %d: I am the parent. Spawning child...\<newline>'' [VWord (scast pid)])
    (bindM (readM (\<lambda>s. l_simple_task (k_link s))) (\<lambda>fn.
     bindM (create_process fn) (\<lambda>child_pid.
     if sint child_pid < 0 then seqM (kprint ''[Parent] Failed to create child.\<newline>'' []) (fail Spin) else
     seqM (kprint ''[Parent] Created child PID %d. Waiting for it to exit...\<newline>'' [VWord (scast child_pid)])
    (bindM (wait_process True regs) (\<lambda>r. ret (Parent child_pid r)))))))"

definition simple_task_child :: "nat \<Rightarrow> i32 \<Rightarrow> kcontext \<Rightarrow> kstate \<Rightarrow> (kstate, task_result) res" where
  "simple_task_child p pid regs =
     seqM (kprint ''  [Child] PID %d: I am the child.\<newline>'' [VWord (scast pid)])
    (bindM (proc_read p p_parent) (\<lambda>par.
     seqM (case par of Some q \<Rightarrow> bindM (proc_read q p_pid) (\<lambda>ppid.
              kprint ''  [Child] My parent is PID %d.\<newline>'' [VWord (scast ppid)])
           | None \<Rightarrow> kprint ''  [Child] Error: I have no parent!\<newline>'' [])
    (seqM (kprint ''  [Child] Exiting with status 88...\<newline>'' [])
    (bindM (exit_process 88 regs) (\<lambda>(q, intena, regs'). ret (Child q intena regs'))))))"

definition simple_task :: "kcontext \<Rightarrow> kstate \<Rightarrow> (kstate, task_result) res" where
  "simple_task regs =
     bindM myproc (\<lambda>me. case me of None \<Rightarrow> fail Fault | Some p \<Rightarrow>
     bindM (is_tester p) (\<lambda>tester.
     bindM (proc_read p p_pid) (\<lambda>pid.
     seqM (kprint ''Process PID %d is running...\<newline>'' [VWord (scast pid)])
    (if tester then simple_task_parent pid regs else simple_task_child p pid regs))))"

text \<open>The parent after its wait has returned, up to the endless heartbeat loop.\<close>

definition simple_task_waited :: "i32 \<Rightarrow> i32 \<Rightarrow> i32 \<Rightarrow> kstate \<Rightarrow> (kstate, unit) res" where
  "simple_task_waited child_pid waited_pid status =
     seqM (if waited_pid = child_pid then
             seqM (kprint ''[Parent] Catch exited child PID %d.\<newline>'' [VWord (scast waited_pid)])
            (seqM (kprint ''[Parent] Exit status: %d (Expected: 88)\<newline>'' [VWord (scast status)])
            (if status = 88 then kprint ''=== TEST PASSED ===\<newline>'' []
             else kprint ''=== TEST FAILED: Wrong status ===\<newline>'' []))
           else kprint ''[Parent] Error: wait_process returned %d\<newline>'' [VWord (scast waited_pid)])
          (kprint ''[Parent] Test finished. Idling...\<newline>'' [])"

definition simple_task_beat :: "kstate \<Rightarrow> (kstate, unit) res" where
  "simple_task_beat = kprint ''.'' []"

section \<open>The process table's invariant\<close>

text \<open>The address space of a process: the trampoline and the page below it.\<close>

definition user_map :: "linkmap \<Rightarrow> u64 \<Rightarrow> u64" where
  "user_map lm v = (if vpn v = vpn TRAPFRAME then PA2PTE PGSIZE OR (PTE_R OR PTE_W) OR PTE_V
     else if vpn v = vpn TRAMPOLINE then PA2PTE (l_trampoline lm) OR (PTE_R OR PTE_X) OR PTE_V else 0)"

definition space_ok :: "kstate \<Rightarrow> u64 \<Rightarrow> bool" where
  "space_ok s pt \<longleftrightarrow> pt_wf (k_link s) (k_mem s) 2 pt \<and> translate s pt = user_map (k_link s)"

definition proc_pages :: "kstate \<Rightarrow> proc \<Rightarrow> u64 set" where
  "proc_pages s p = (if p_state p = UNUSED then {} else insert (p_trapframe p) (tables s (p_pagetable p)))"

definition proc_ok :: "kstate \<Rightarrow> proc \<Rightarrow> bool" where
  "proc_ok s p \<longleftrightarrow>
     (if p_state p = UNUSED
      then p_pid p = 0 \<and> p_parent p = None \<and> p_chan p = NoChan \<and> p_killed p = 0 \<and> p_xstate p = 0
        \<and> p_trapframe p = 0 \<and> p_pagetable p = 0 \<and> p_sz p = 0
      else page_ok (k_link s) (p_trapframe p) \<and> p_trapframe p \<notin> tables s (p_pagetable p)
        \<and> space_ok s (p_pagetable p))"

text \<open>Of the pages \<open>U\<close> each is either free, one of \<open>xs\<close>, or owned by exactly one process; there are no others.\<close>

definition owned :: "kstate \<Rightarrow> u64 set" where
  "owned s = (\<Union>i<NPROC. proc_pages s (k_procs s ! i))"

definition ptable :: "u64 set \<Rightarrow> kstate \<Rightarrow> u64 list \<Rightarrow> bool" where
  "ptable U s xs \<longleftrightarrow> free_pages s xs \<and> length (k_procs s) = NPROC \<and> set xs \<union> owned s = U
     \<and> (\<forall>i < NPROC. proc_ok s (k_procs s ! i) \<and> proc_pages s (k_procs s ! i) \<inter> set xs = {})
     \<and> (\<forall>i < NPROC. \<forall>j < NPROC. i \<noteq> j \<longrightarrow> proc_pages s (k_procs s ! i) \<inter> proc_pages s (k_procs s ! j) = {})"

lemma ptable_accounts:
  assumes "ptable U s xs" and "p \<in> U"
  shows "if p \<in> set xs then \<forall>i < NPROC. p \<notin> proc_pages s (k_procs s ! i) else \<exists>!i. i < NPROC \<and> p \<in> proc_pages s (k_procs s ! i)"
proof (cases "p \<in> set xs")
  case False
  then obtain i where "i < NPROC" "p \<in> proc_pages s (k_procs s ! i)" using assms by (auto simp: ptable_def owned_def)
  with assms(1) False show ?thesis unfolding ptable_def by (auto intro!: ex1I [of _ i]) blast
qed (use assms(1) in \<open>auto simp: ptable_def\<close>)

text \<open>Pids: every live process has one that was handed out, and no two have the same.\<close>

definition pids_ok :: "kstate \<Rightarrow> bool" where
  "pids_ok s \<longleftrightarrow> 1 \<le> sint (k_nextpid s)
     \<and> (\<forall>i < NPROC. p_state (k_procs s ! i) \<noteq> UNUSED \<longrightarrow>
          1 \<le> sint (p_pid (k_procs s ! i)) \<and> sint (p_pid (k_procs s ! i)) < sint (k_nextpid s))
     \<and> (\<forall>i < NPROC. \<forall>j < NPROC. i \<noteq> j \<longrightarrow> p_state (k_procs s ! i) \<noteq> UNUSED \<longrightarrow>
          p_state (k_procs s ! j) \<noteq> UNUSED \<longrightarrow> p_pid (k_procs s ! i) \<noteq> p_pid (k_procs s ! j))"

lemma tables_data:
  assumes "data s = data s'"
  shows "tables s = tables s'" and "translate s = translate s'"
  by (intro ext, simp only: tables_def translate_def data_eqD(2) [OF assms])+

lemma proc_ok_data:
  assumes "data s = data s'"
  shows "space_ok s = space_ok s'" and "proc_ok s = proc_ok s'" and "proc_pages s = proc_pages s'"
proof -
  note d = data_eqD(1,2) [OF assms] tables_data [OF assms]
  show sp: "space_ok s = space_ok s'" by (intro ext) (simp only: space_ok_def d)
  show "proc_ok s = proc_ok s'" "proc_pages s = proc_pages s'"
    by (intro ext, simp only: proc_ok_def proc_pages_def d sp)+
qed

lemma owned_cong: "(\<And>i. i < NPROC \<Longrightarrow> proc_pages s' (k_procs s' ! i) = proc_pages s (k_procs s ! i)) \<Longrightarrow> owned s' = owned s"
  unfolding owned_def by (rule SUP_cong) simp_all

lemma ptable_data:
  assumes "data s = data s'"
  shows "ptable U s xs = ptable U s' xs"
  by (simp only: ptable_def owned_def data_eqD(6) [OF assms] proc_ok_data [OF assms] free_pages_data [OF assms])

lemma ptable_cong:
  assumes "k_link s' = k_link s" and "k_mem s' = k_mem s" and "k_freelist s' = k_freelist s" and "k_procs s' = k_procs s"
  shows "ptable U s' xs \<longleftrightarrow> ptable U s xs"
  by (simp only: ptable_def owned_def free_pages_def proc_ok_def proc_pages_def space_ok_def tables_def translate_def [abs_def] assms)

text \<open>A process does not depend on pages it does not own.\<close>

lemma proc_frame:
  assumes "proc_ok s p" and "k_link s' = k_link s" and "\<And>q. q \<in> proc_pages s p \<Longrightarrow> same_page (k_mem s) (k_mem s') q"
  shows "proc_ok s' p" and "proc_pages s' p = proc_pages s p"
proof -
  have "pt_set (k_mem s') 2 (p_pagetable p) = pt_set (k_mem s) 2 (p_pagetable p)
      \<and> pt_wf (k_link s) (k_mem s') 2 (p_pagetable p)
      \<and> (\<forall>va. pt_entry (k_mem s') 2 (p_pagetable p) va = pt_entry (k_mem s) 2 (p_pagetable p) va)"
    if "p_state p \<noteq> UNUSED"
    using assms that by (intro pt_frame) (auto simp: proc_ok_def space_ok_def proc_pages_def tables_def)
  then show "proc_ok s' p" "proc_pages s' p = proc_pages s p"
    using assms(1,2) by (auto simp: proc_ok_def space_ok_def proc_pages_def tables_def translate_def fun_eq_iff)
qed

text \<open>Rebuilding the invariant after one slot has changed: \<open>A\<close> are the pages written, all from the pool
  or owned by that slot.\<close>

lemma ptable_change_slot:
  assumes pt: "ptable U s xs" and i: "i < NPROC"
    and link: "k_link s' = k_link s" and procs: "k_procs s' = (k_procs s)[i := p]"
    and same: "\<And>q. q \<notin> proc_pages s (k_procs s ! i) \<Longrightarrow> q \<notin> set xs \<Longrightarrow> same_page (k_mem s) (k_mem s') q"
    and free: "free_pages s' ys" and p: "proc_ok s' p"
    and own: "proc_pages s' p \<union> set ys = proc_pages s (k_procs s ! i) \<union> set xs" "proc_pages s' p \<inter> set ys = {}"
  shows "ptable U s' ys"
proof -
  let ?own = "\<lambda>j. proc_pages s (k_procs s ! j)"
  have old: "proc_ok s' (k_procs s ! j) \<and> proc_pages s' (k_procs s ! j) = ?own j
      \<and> ?own j \<inter> (?own i \<union> set xs) = {}" if "j < NPROC" "j \<noteq> i" for j
  proof -
    have dis: "?own j \<inter> ?own i = {}" "?own j \<inter> set xs = {}" using pt that i by (simp_all add: ptable_def)
    have ok: "proc_ok s (k_procs s ! j)" using pt that by (simp add: ptable_def)
    have "same_page (k_mem s) (k_mem s') q" if "q \<in> ?own j" for q using dis that by (intro same) auto
    with proc_frame [OF ok link] dis show ?thesis by blast
  qed
  have len: "length (k_procs s) = NPROC" using pt by (simp add: ptable_def)
  have nth: "k_procs s' ! j = (if j = i then p else k_procs s ! j)" if "j < NPROC" for j
    using that len procs by (simp add: nth_list_update)
  have pages: "proc_pages s' (k_procs s' ! j) = (if j = i then proc_pages s' p else ?own j)" if "j < NPROC" for j
    using nth [OF that] old [OF that] by simp
  have ins: "insert i {..<NPROC} = {..<NPROC}" using i by auto
  have "owned s = (\<Union>j\<in>{..<NPROC} - {i}. ?own j) \<union> ?own i" "owned s' = (\<Union>j\<in>{..<NPROC} - {i}. ?own j) \<union> proc_pages s' p"
    unfolding owned_def by (subst ins [symmetric], auto simp: pages i)+
  then have all: "set ys \<union> owned s' = U" using own(1) pt by (auto simp: ptable_def)
  show ?thesis
    unfolding ptable_def
  proof (intro conjI allI impI)
    show "set ys \<union> owned s' = U" by (rule all)
    show "free_pages s' ys" by (rule free)
    show "length (k_procs s') = NPROC" using len procs by simp
    fix j
    assume j: "j < NPROC"
    show "proc_ok s' (k_procs s' ! j)" using nth [OF j] p old [OF j] by simp
    show "proc_pages s' (k_procs s' ! j) \<inter> set ys = {}"
      using pages [OF j] own old [OF j] by (cases "j = i") auto
    fix k
    assume k: "k < NPROC" "j \<noteq> k"
    have "?own j \<inter> ?own k = {}" using pt j k by (simp add: ptable_def)
    then show "proc_pages s' (k_procs s' ! j) \<inter> proc_pages s' (k_procs s' ! k) = {}"
      unfolding pages [OF j] pages [OF k(1)] using own(1) old [OF j] old [OF k(1)] k(2) by (cases "j = i"; cases "k = i") auto
  qed
qed

section \<open>Address spaces of processes\<close>

lemma vpn_user: "vpn TRAMPOLINE = 67108863" "vpn TRAPFRAME = 67108862"
  by (simp_all add: TRAMPOLINE_def TRAPFRAME_def MAXVA_def PGSIZE_def vpn_def)

lemma aligned_user: "pg_aligned TRAMPOLINE" "pg_aligned TRAPFRAME" "pg_aligned PGSIZE"
  by (simp_all add: TRAMPOLINE_def TRAPFRAME_def MAXVA_def PGSIZE_def pg_aligned_unat)

lemma wp_proc_pagetable:
  assumes h: "hart H e c s" "KmemLock \<notin> H" and free: "free_pages s (p # xs)" "4 \<le> length xs"
    and Q: "\<And>s' ns ys. hart H e c s' \<Longrightarrow> xs = ns @ ys \<Longrightarrow> length ns \<le> 4 \<Longrightarrow> free_pages s' ys \<Longrightarrow> space_ok s' p \<Longrightarrow>
      tables s' p = insert p (set ns) \<Longrightarrow> pages_only (insert p (set ns)) s s' \<Longrightarrow> Q p s'"
  shows "wp proc_pagetable Q s"
proof -
  have rep: "kmem_rep s (p # xs)" using kmem_rep_hart [OF h] free(1) by simp
  have lw: "link_wf (k_link s)" "page_ok (k_link s) p" using free(1) by (simp_all add: free_pages_def)
  then have tr: "pg_aligned (l_trampoline (k_link s))" and p0: "p \<noteq> 0" using page_ok_nonzero by (auto simp: link_wf_def)
  have ne: "vpn TRAMPOLINE \<noteq> vpn TRAPFRAME" by (simp add: vpn_user)
  obtain s1 s2 s3 ns ys where s: "create_pagetable s = Ok p s1"
      "map_page p TRAMPOLINE (l_trampoline (k_link s)) (ucast (PTE_R OR PTE_X)) s1 = Ok 0 s2"
      "map_page p TRAPFRAME PGSIZE (ucast (PTE_R OR PTE_W)) s2 = Ok 0 s3"
    and x: "xs = ns @ ys" "vm_rep s3 p ys" "tables s3 p = insert p (set ns)" "length ns \<le> 4" and w: "writes_only (tables s3 p) s s3"
    and t: "translate s3 p = (\<lambda>v. if vpn v = vpn TRAPFRAME then PA2PTE PGSIZE OR scast (ucast (PTE_R OR PTE_W) :: i32) OR PTE_V
       else if vpn v = vpn TRAMPOLINE then PA2PTE (l_trampoline (k_link s)) OR scast (ucast (PTE_R OR PTE_X) :: i32) OR PTE_V else 0)"
    using kspace.build_two [OF rep free(2) ne aligned_user(1,2) tr aligned_user(3),
      where f = "ucast (PTE_R OR PTE_X)" and g = "ucast (PTE_R OR PTE_W)"] by blast
  have l1: "k_link s1 = k_link s"
    using create_pagetable_run [OF rep] s(1) by (auto simp: mem_only_frame)
  have run: "proc_pagetable s = Ok p s3"
    using s p0 l1 by (simp add: proc_pagetable_def readM_def ret_def)
  note h3 = writes_only_pages [OF w h(1)]
  have "k_link s3 = k_link s" using h3 pages_onlyD(1) by blast
  then have "space_ok s3 p"
    using vm_repD(2) [OF x(2)] t by (simp only: space_ok_def user_map_def perm_casts) (simp add: fun_eq_iff user_map_def)
  moreover have "free_pages s3 ys" using vm_repD(1) [OF x(2)] kmem_rep_hart [OF conjunct1 [OF h3] h(2)] by simp
  ultimately have "Q p s3" using h3 x by (intro Q) auto
  with run show ?thesis by (rule wpI)
qed

lemma user_map_valid:
  "pte_valid (user_map lm TRAMPOLINE)" "pte_valid (user_map lm TRAPFRAME)"
  "vpn v \<noteq> vpn TRAMPOLINE \<Longrightarrow> vpn v \<noteq> vpn TRAPFRAME \<Longrightarrow> \<not> pte_valid (user_map lm v)"
  by (simp_all add: user_map_def vpn_user) (simp_all add: pte_valid_def)

lemma wp_proc_freepagetable:
  assumes h: "hart H e c s" "KmemLock \<notin> H" and free: "free_pages s xs" and sp: "space_ok s pt" "tables s pt \<inter> set xs = {}"
    and Q: "\<And>s' ps. hart H e c s' \<Longrightarrow> distinct ps \<Longrightarrow> set ps = tables s pt \<Longrightarrow> free_pages s' (ps @ xs) \<Longrightarrow>
      pages_only (tables s pt) s s' \<Longrightarrow> Q () s'"
  shows "wp (proc_freepagetable pt sz) Q s"
proof -
  have "kmem_rep s xs" using kmem_rep_hart [OF h] free(1) by simp
  with sp have rep: "vm_rep s pt xs" by (simp add: vm_rep_def space_ok_def tables_def)
  have ne: "vpn TRAMPOLINE \<noteq> vpn TRAPFRAME" by (simp add: vpn_user)
  have t: "translate s pt = user_map (k_link s)" using sp(1) by (simp add: space_ok_def)
  obtain s1 s2 s3 ps where s: "unmap_page pt TRAMPOLINE s = Ok () s1" "unmap_page pt TRAPFRAME s1 = Ok () s2"
      "destroy_pagetable 3 pt s2 = Ok () s3" and ps: "distinct ps" "set ps = tables s pt" "kmem_rep s3 (ps @ xs)"
      "writes_only (tables s pt) s s3"
    using kspace.teardown_two [OF rep ne] user_map_valid by (metis t)
  note h3 = writes_only_pages [OF ps(4) h(1)]
  have "Q () s3" using h3 ps kmem_rep_hart [OF conjunct1 [OF h3] h(2)] by (intro Q) auto
  then show ?thesis by (rule wpI [rotated]) (simp add: proc_freepagetable_def s)
qed

section \<open>Allocating and freeing processes\<close>

text \<open>A step that changes one slot, the pages \<open>A\<close> and the free list.\<close>

definition slot_step :: "nat \<Rightarrow> u64 set \<Rightarrow> kstate \<Rightarrow> kstate \<Rightarrow> bool" where
  "slot_step i A s s' \<longleftrightarrow> (\<forall>p. p \<notin> A \<longrightarrow> same_page (k_mem s) (k_mem s') p)
     \<and> data s' = (data s)\<lparr>k_mem := k_mem s', k_freelist := k_freelist s', k_procs := (k_procs s)[i := k_procs s' ! i]\<rparr>"

lemma slot_stepD:
  assumes "slot_step i A s s'"
  shows "k_link s' = k_link s" "k_procs s' = (k_procs s)[i := k_procs s' ! i]" "k_pagetable s' = k_pagetable s"
    "k_initproc s' = k_initproc s" "k_nextpid s' = k_nextpid s" "p \<notin> A \<Longrightarrow> same_page (k_mem s) (k_mem s') p"
proof -
  have d: "data s' = (data s)\<lparr>k_mem := k_mem s', k_freelist := k_freelist s', k_procs := (k_procs s)[i := k_procs s' ! i]\<rparr>"
    using assms by (simp add: slot_step_def)
  show "k_link s' = k_link s" "k_procs s' = (k_procs s)[i := k_procs s' ! i]" "k_pagetable s' = k_pagetable s"
    "k_initproc s' = k_initproc s" "k_nextpid s' = k_nextpid s"
    using d [THEN arg_cong, of k_link] d [THEN arg_cong, of k_procs] d [THEN arg_cong, of k_pagetable]
      d [THEN arg_cong, of k_initproc] d [THEN arg_cong, of k_nextpid] by simp_all
  show "p \<notin> A \<Longrightarrow> same_page (k_mem s) (k_mem s') p" using assms by (simp add: slot_step_def)
qed

lemma slot_step_trans:
  assumes "slot_step i A s s'" and "slot_step i B s' s''"
  shows "slot_step i (A \<union> B) s s''"
proof -
  note a = assms [unfolded slot_step_def]
  obtain q where q: "k_procs s' = (k_procs s)[i := q]" using slot_stepD(2) [OF assms(1)] by blast
  have "data s' = (data s)\<lparr>k_mem := k_mem s', k_freelist := k_freelist s', k_procs := k_procs s'\<rparr>"
    using conjunct2 [OF a(1)] slot_stepD(2) [OF assms(1)] by simp
  then have "(data s')\<lparr>k_mem := m, k_freelist := f, k_procs := ps\<rparr> = (data s)\<lparr>k_mem := m, k_freelist := f, k_procs := ps\<rparr>" for m f ps
    by simp
  then have "data s'' = (data s)\<lparr>k_mem := k_mem s'', k_freelist := k_freelist s'', k_procs := (k_procs s')[i := k_procs s'' ! i]\<rparr>"
    using conjunct2 [OF a(2)] by simp
  then have "data s'' = (data s)\<lparr>k_mem := k_mem s'', k_freelist := k_freelist s'', k_procs := (k_procs s)[i := k_procs s'' ! i]\<rparr>"
    by (simp only: q list_update_overwrite)
  moreover have "same_page (k_mem s) (k_mem s'') p" if "p \<notin> A" "p \<notin> B" for p
    using conjunct1 [OF a(1)] conjunct1 [OF a(2)] that same_page_trans by blast
  ultimately show ?thesis by (simp add: slot_step_def)
qed

lemma slot_step_pages:
  assumes "pages_only A s s'"
  shows "slot_step i A s s'"
proof -
  have "(k_procs s)[i := k_procs s' ! i] = k_procs s" by (simp add: pages_onlyD(2) [OF assms])
  with assms show ?thesis by (simp add: pages_only_def slot_step_def)
qed

lemma slot_step_write: "i < length (k_procs s) \<Longrightarrow> slot_step i {} s (s\<lparr>k_procs := (k_procs s)[i := p]\<rparr>)"
  by (simp add: slot_step_def)

lemma slot_step_data: "data s' = data s \<Longrightarrow> slot_step i {} s s'"
proof -
  assume d: "data s' = data s"
  note e = data_eqD [OF d]
  have "(data s)\<lparr>k_mem := k_mem s, k_freelist := k_freelist s, k_procs := k_procs s\<rparr> = data s" by (simp add: data_def)
  then show ?thesis by (simp add: slot_step_def e d)
qed

lemma wp_allocpid:
  assumes "hart H e c s" and "PidLock \<notin> H"
    and "\<And>s'. hart H e c s' \<Longrightarrow> data s' = (data s)\<lparr>k_nextpid := k_nextpid s + 1\<rparr> \<Longrightarrow> Q (k_nextpid s) s'"
  shows "wp allocpid Q s"
proof -
  let ?P = "\<lambda>a (d, u). a = k_nextpid s \<and> d = (data s)\<lparr>k_nextpid := k_nextpid s + 1\<rparr> \<and> u = k_uart s"
  have "wp allocpid (\<lambda>a s'. hart H e c s' \<and> ?P a (data s', k_uart s')) s"
    unfolding allocpid_def
  proof (rule klock.critical_section [OF assms(1,2), where P = ?P])
    fix s1
    assume h: "hart (insert PidLock H) e c s1" and d: "(data s1, k_uart s1) = (data s, k_uart s)"
    then have d: "data s1 = data s" "k_uart s1 = k_uart s" by simp_all
    show "wp (bindM (readM k_nextpid) (\<lambda>pid. seqM (modifyM (\<lambda>s. s\<lparr>k_nextpid := k_nextpid s + 1\<rparr>)) (ret pid)))
        (\<lambda>a s'. hart (insert PidLock H) e c s' \<and> ?P a (data s', k_uart s')) s1"
      by (simp add: wp_simps h d data_eqD(8) [OF d(1)])
  qed
  then show ?thesis using assms(3) by (auto simp: wp_def)
qed

lemma wp_find_unused:
  assumes "hart H e c s" and "\<And>j. j \<in> set js \<Longrightarrow> ProcLock j \<notin> H \<and> j < length (k_procs s)"
    and "\<And>s'. data s' = data s \<Longrightarrow>
      hart (case find (\<lambda>j. p_state (k_procs s ! j) = UNUSED) js of None \<Rightarrow> H | Some i \<Rightarrow> insert (ProcLock i) H) e c s' \<Longrightarrow>
      Q (find (\<lambda>j. p_state (k_procs s ! j) = UNUSED) js) s'"
  shows "wp (find_unused js) Q s"
  using assms
proof (induction js arbitrary: s)
  case Nil
  then show ?case by (simp add: wp_def)
next
  case (Cons i js)
  have "wp (seqM (acquire (ProcLock i)) (bindM (proc_read i p_state) (\<lambda>st.
     if st = UNUSED then ret (Some i) else seqM (release (ProcLock i)) (find_unused js)))) Q s"
    unfolding wp_simps
  proof (rule wp_acquire [OF Cons.prems(1)])
    show "ProcLock i \<notin> H" using Cons.prems(2) by simp
    fix s1
    assume h1: "hart (insert (ProcLock i) H) e c s1" and d1: "data s1 = data s"
    note p1 = data_eqD(6) [OF d1]
    show "wp (proc_read i p_state) (\<lambda>st. wp (if st = UNUSED then ret (Some i) else seqM (release (ProcLock i)) (find_unused js)) Q) s1"
    proof (rule wp_proc_read)
      show "i < length (k_procs s1)" using Cons.prems(2) p1 by simp
      show "wp (if p_state (k_procs s1 ! i) = UNUSED then ret (Some i) else seqM (release (ProcLock i)) (find_unused js)) Q s1"
      proof (cases "p_state (k_procs s1 ! i) = UNUSED")
        case True
        then show ?thesis using Cons.prems(3) [OF d1] h1 p1 by (simp add: wp_simps)
      next
        case False
        have "wp (seqM (release (ProcLock i)) (find_unused js)) Q s1"
          unfolding wp_simps
        proof (rule wp_release [OF h1])
          fix s2
          assume h2: "hart (insert (ProcLock i) H - {ProcLock i}) e c s2" and d2: "data s2 = data s1"
          have "insert (ProcLock i) H - {ProcLock i} = H" using Cons.prems(2) by auto
          moreover have "k_procs s2 = k_procs s" using data_eqD(6) [OF d2] p1 by simp
          ultimately show "wp (find_unused js) Q s2"
            using Cons.prems h2 d1 d2 False p1 by (intro Cons.IH) auto
        qed simp
        then show ?thesis using False by simp
      qed
    qed
  qed
  then show ?case by (simp add: wp_def)
qed

definition cleared :: "proc \<Rightarrow> proc" where
  "cleared p = p\<lparr>p_trapframe := 0, p_pagetable := 0, p_sz := 0, p_pid := 0, p_parent := None,
     p_name := (p_name p)[0 := 0], p_chan := NoChan, p_killed := 0, p_xstate := 0, p_state := UNUSED\<rparr>"

lemma space_frame:
  assumes "space_ok s pt" and "k_link s' = k_link s" and "\<And>q. q \<in> tables s pt \<Longrightarrow> same_page (k_mem s) (k_mem s') q"
  shows "space_ok s' pt" and "tables s' pt = tables s pt"
  using pt_frame [of "k_link s" "k_mem s" 2 pt "k_mem s'"] assms
  by (auto simp: space_ok_def tables_def translate_def fun_eq_iff)

lemma ptableD:
  assumes "ptable U s xs" and "i < NPROC"
  shows "free_pages s xs" and "length (k_procs s) = NPROC" and "proc_ok s (k_procs s ! i)"
    and "proc_pages s (k_procs s ! i) \<inter> set xs = {}"
  using assms by (simp_all add: ptable_def)

lemma wp_free_process:
  assumes h: "hart H e c s" "KmemLock \<notin> H" and pt: "ptable U s xs" and i: "i < NPROC"
    and used: "p_state (k_procs s ! i) \<noteq> UNUSED"
    and Q: "\<And>s' ys. hart H e c s' \<Longrightarrow> ptable U s' ys \<Longrightarrow> set ys = set xs \<union> proc_pages s (k_procs s ! i) \<Longrightarrow>
      k_procs s' = (k_procs s)[i := cleared (k_procs s ! i)] \<Longrightarrow> slot_step i (proc_pages s (k_procs s ! i)) s s' \<Longrightarrow> Q () s'"
  shows "wp (free_process i) Q s"
proof -
  let ?p = "k_procs s ! i"
  let ?tf = "p_trapframe ?p" and ?pt = "p_pagetable ?p"
  note t = ptableD [OF pt i]
  have own: "proc_pages s ?p = insert ?tf (tables s ?pt)" using used by (simp add: proc_pages_def)
  have ok: "page_ok (k_link s) ?tf" "?tf \<notin> tables s ?pt" "space_ok s ?pt" using t(3) used by (simp_all add: proc_ok_def)
  have lw: "link_wf (k_link s)" using t(1) by (simp add: free_pages_def)
  have nz: "?tf \<noteq> 0" "?pt \<noteq> 0"
    using page_ok_nonzero [OF lw] ok(1) pt_wf_page_ok [of "k_link s" "k_mem s" 2 ?pt] ok(3) by (auto simp: space_ok_def)
  obtain s1 where s1: "free_page ?tf s = Ok () s1" and h1: "hart H e c s1" "pages_only {?tf} s s1" "free_pages s1 (?tf # xs)"
    by (rule wpE [OF wp_free_page [OF h t(1) ok(1), where Q = "\<lambda>_ s'. hart H e c s' \<and> pages_only {?tf} s s' \<and> free_pages s' (?tf # xs)"]])
       (use t(4) own in auto)
  note d1 = pages_onlyD [OF h1(2)]
  let ?s2 = "s1\<lparr>k_procs := (k_procs s)[i := ?p\<lparr>p_trapframe := 0\<rparr>]\<rparr>"
  have sp: "space_ok ?s2 ?pt" "tables ?s2 ?pt = tables s ?pt"
  proof -
    have l: "k_link ?s2 = k_link s" using d1(1) by simp
    have "same_page (k_mem s) (k_mem ?s2) q" if "q \<in> tables s ?pt" for q
      using d1(6) [of q] ok(2) that by (cases "q = ?tf") auto
    from space_frame [OF ok(3) l this] show "space_ok ?s2 ?pt" "tables ?s2 ?pt = tables s ?pt" by simp_all
  qed
  obtain s3 ps where s3: "proc_freepagetable ?pt (p_sz ?p) ?s2 = Ok () s3" and h3: "hart H e c s3" "distinct ps"
      "set ps = tables s ?pt" "free_pages s3 (ps @ ?tf # xs)" "pages_only (tables s ?pt) ?s2 s3"
    by (rule wpE [OF wp_proc_freepagetable [where s = ?s2 and pt = ?pt and sz = "p_sz ?p" and xs = "?tf # xs" and
        Q = "\<lambda>_ s'. \<exists>ps. hart H e c s' \<and> distinct ps \<and> set ps = tables s ?pt \<and> free_pages s' (ps @ ?tf # xs) \<and> pages_only (tables s ?pt) ?s2 s'"]])
       (use h h1 sp t(4) own ok in auto)
  note d3 = pages_onlyD [OF h3(5)]
  let ?s4 = "s3\<lparr>k_procs := (k_procs s)[i := cleared ?p]\<rparr>"
  have len: "i < length (k_procs s)" using t(2) i by simp
  have run: "free_process i s = Ok () ?s4"
    using nz s1 s3 len d1(2) d3(2) by (simp add: free_process_def exec_simps cleared_def)
  have st: "slot_step i (proc_pages s ?p) s ?s4"
  proof -
    have "slot_step i {} s1 ?s2" using slot_step_write [of i s1] len d1(2) by simp
    moreover have "slot_step i {} s3 ?s4" using slot_step_write [of i s3 "cleared ?p"] len d3(2) by simp
    ultimately have "slot_step i ({?tf} \<union> {} \<union> tables s ?pt \<union> {}) s ?s4"
      using slot_step_pages [OF h1(2)] slot_step_pages [OF h3(5)] by (blast intro: slot_step_trans)
    then show ?thesis by (simp add: own)
  qed
  have pt4: "ptable U ?s4 (ps @ ?tf # xs)"
  proof (rule ptable_change_slot [OF pt i])
    show "k_link ?s4 = k_link s" using d1(1) d3(1) by simp
    show "same_page (k_mem s) (k_mem ?s4) q" if "q \<notin> proc_pages s ?p" for q by (rule slot_stepD(6) [OF st that])
    show "proc_ok ?s4 (cleared ?p)" by (simp add: proc_ok_def cleared_def)
    show "proc_pages ?s4 (cleared ?p) \<union> set (ps @ ?tf # xs) = proc_pages s ?p \<union> set xs"
      "proc_pages ?s4 (cleared ?p) \<inter> set (ps @ ?tf # xs) = {}"
      using h3(3) own by (auto simp: proc_pages_def cleared_def)
  qed (use h3(4) in simp_all)
  have "set (ps @ ?tf # xs) = set xs \<union> proc_pages s ?p" using h3(3) own by auto
  from Q [OF _ pt4 this _ st] have "Q () ?s4" using h3(1) by simp
  with run show ?thesis by (rule wpI)
qed

definition fresh_proc :: "linkmap \<Rightarrow> i32 \<Rightarrow> u64 \<Rightarrow> u64 \<Rightarrow> proc \<Rightarrow> proc" where
  "fresh_proc lm pid tf pt p = p\<lparr>p_pid := pid, p_state := USED, p_trapframe := tf, p_pagetable := pt,
     p_context := zero_context\<lparr>ctx_ra := l_forkret lm, ctx_sp := p_kstack p + PGSIZE\<rparr>\<rparr>"

definition unused :: "kstate \<Rightarrow> nat option" where
  "unused s = find (\<lambda>j. p_state (k_procs s ! j) = UNUSED) [0..<NPROC]"

lemma unused_Some: "unused s = Some i \<Longrightarrow> i < NPROC \<and> p_state (k_procs s ! i) = UNUSED"
  unfolding unused_def find_Some_iff by auto

lemma unused_None: "unused s = None \<longleftrightarrow> (\<forall>i < NPROC. p_state (k_procs s ! i) \<noteq> UNUSED)"
  by (auto simp: unused_def find_None_iff)

text \<open>The locks that the process code takes one after the other.\<close>

definition outside :: "lockid set \<Rightarrow> bool" where
  "outside H \<longleftrightarrow> KmemLock \<notin> H \<and> PidLock \<notin> H \<and> PrintLock \<notin> H"

lemma outside_insert [simp]: "outside (insert (ProcLock i) H) = outside H" "outside (insert WaitLock H) = outside H"
  by (auto simp: outside_def)

lemma alloc_msg: "render (cstr ''alloc_process: allocated process %d\<newline>'') [VWord (scast n)]
    = Some (cstr ''alloc_process: allocated process '' @ show_int (sint (n :: i32)) @ cstr ''\<newline>'')"
  using render_d [of "''alloc_process: allocated process ''" "''\<newline>''" n] by (simp add: plain_def cstr_def)

lemma alloc_process_full:
  assumes h: "hart H e c s" "\<And>j. ProcLock j \<notin> H" and pt: "ptable U s xs" and none: "unused s = None"
    and Q: "\<And>s'. hart H e c s' \<Longrightarrow> data s' = data s \<Longrightarrow> Q None s'"
  shows "wp alloc_process Q s"
  unfolding alloc_process_def wp_simps
proof (rule wp_find_unused [OF h(1)], goal_cases)
  case (1 j)
  then show ?case using h(2) pt by (simp add: ptable_def)
next
  case (2 s')
  then show ?case using none Q by (simp add: unused_def wp_simps)
qed

lemma slot_step_mono: "slot_step i A s s' \<Longrightarrow> A \<subseteq> B \<Longrightarrow> slot_step i B s s'"
  by (auto simp: slot_step_def)

text \<open>The trapframe, the address space and the context of slot \<open>i\<close>, whose record is \<open>p\<close>.\<close>

lemma wp_setup_process:
  assumes h: "hart H e c s" "outside H" and free: "free_pages s (tf # pg # rest)" "4 \<le> length rest"
    and i: "i < length (k_procs s)"
    and Q: "\<And>s' ns ys. hart H e c s' \<Longrightarrow> rest = ns @ ys \<Longrightarrow> length ns \<le> 4 \<Longrightarrow> free_pages s' ys \<Longrightarrow> space_ok s' pg \<Longrightarrow>
      tables s' pg = insert pg (set ns) \<Longrightarrow> slot_step i (insert tf (insert pg (set ns))) s s' \<Longrightarrow>
      k_procs s' = (k_procs s)[i := (k_procs s ! i)\<lparr>p_trapframe := tf, p_pagetable := pg,
        p_context := zero_context\<lparr>ctx_ra := l_forkret (k_link s), ctx_sp := p_kstack (k_procs s ! i) + PGSIZE\<rparr>\<rparr>] \<Longrightarrow> Q (Some i) s'"
  shows "wp (setup_process i) Q s"
proof -
  let ?p = "k_procs s ! i"
  have km: "KmemLock \<notin> H" using h(2) by (simp add: outside_def)
  have nz: "tf \<noteq> 0" "pg \<noteq> 0" using free(1) page_ok_nonzero by (auto simp: free_pages_def)
  obtain s1 where s1: "alloc_page s = Ok tf s1" "hart H e c s1" "pages_only {tf} s s1" "free_pages s1 (pg # rest)"
    by (rule wpE [OF wp_alloc_page [OF h(1) km free(1), where
        Q = "\<lambda>r s'. r = tf \<and> hart H e c s' \<and> pages_only {tf} s s' \<and> free_pages s' (pg # rest)"]]) auto
  note e1 = pages_onlyD [OF s1(3)]
  let ?s2 = "s1\<lparr>k_procs := (k_procs s)[i := ?p\<lparr>p_trapframe := tf\<rparr>]\<rparr>"
  obtain s3 ns ys where s3: "proc_pagetable ?s2 = Ok pg s3" "hart H e c s3" "rest = ns @ ys" "free_pages s3 ys" "space_ok s3 pg"
      "length ns \<le> 4" "tables s3 pg = insert pg (set ns)" "pages_only (insert pg (set ns)) ?s2 s3"
    by (rule wpE [OF wp_proc_pagetable [where s = ?s2 and H = H and e = e and c = c and p = pg and xs = rest and
        Q = "\<lambda>r s'. r = pg \<and> (\<exists>ns ys. hart H e c s' \<and> rest = ns @ ys \<and> free_pages s' ys \<and> space_ok s' pg \<and> length ns \<le> 4
          \<and> tables s' pg = insert pg (set ns) \<and> pages_only (insert pg (set ns)) ?s2 s')", OF _ km _ free(2)]])
       (use s1(2,4) in auto)
  note e3 = pages_onlyD [OF s3(8)]
  let ?p4 = "?p\<lparr>p_trapframe := tf, p_pagetable := pg,
     p_context := zero_context\<lparr>ctx_ra := l_forkret (k_link s), ctx_sp := p_kstack ?p + PGSIZE\<rparr>\<rparr>"
  let ?s4 = "s3\<lparr>k_procs := (k_procs s)[i := ?p4]\<rparr>"
  have pr: "k_procs s1 = k_procs s" "k_procs s3 = (k_procs s)[i := ?p\<lparr>p_trapframe := tf\<rparr>]" and lk: "k_link s3 = k_link s"
    using e1(1,2) e3(1,2) by simp_all
  have run: "setup_process i s = Ok (Some i) ?s4"
    using s1(1) s3(1) nz i pr lk by (simp add: setup_process_def exec_simps)
  have "slot_step i {} s1 ?s2" "slot_step i {} s3 ?s4"
    using slot_step_write [of i s1] slot_step_write [of i s3 ?p4] i pr by simp_all
  from slot_step_trans [OF slot_step_trans [OF slot_step_trans [OF slot_step_pages [OF s1(3)] this(1)]
      slot_step_pages [OF s3(8)]] this(2)]
  have st: "slot_step i (insert tf (insert pg (set ns))) s ?s4" by (simp add: insert_commute)
  have "tables ?s4 pg = insert pg (set ns)" "space_ok ?s4 pg" "free_pages ?s4 ys"
    using s3(4,5,7) by (simp_all add: tables_def space_ok_def translate_def fun_eq_iff)
  from Q [OF _ s3(3,6) this(3,2,1) st] have "Q (Some i) ?s4" using s3(2) by simp
  with run show ?thesis by (rule wpI)
qed

text \<open>A fresh process in an unused slot, with its pages taken from the pool.\<close>

lemma ptable_fresh:
  assumes pt: "ptable U s xs" and i: "i < NPROC" "p_state (k_procs s ! i) = UNUSED"
    and xs: "xs = tf # pg # rest" "rest = ns @ ys" and link: "k_link s' = k_link s"
    and procs: "k_procs s' = (k_procs s)[i := fresh_proc lm pid tf pg (k_procs s ! i)]"
    and same: "\<And>q. q \<notin> set xs \<Longrightarrow> same_page (k_mem s) (k_mem s') q"
    and free: "free_pages s' ys" and sp: "space_ok s' pg" "tables s' pg = insert pg (set ns)"
  shows "ptable U s' ys"
proof -
  let ?p = "fresh_proc lm pid tf pg (k_procs s ! i)"
  have dx: "distinct xs" "\<forall>q \<in> set xs. page_ok (k_link s) q" using pt by (simp_all add: ptable_def free_pages_def)
  have pages: "proc_pages s' ?p = insert tf (insert pg (set ns))"
    using sp by (simp add: proc_pages_def fresh_proc_def)
  have "proc_ok s' ?p" using sp dx xs link by (auto simp: proc_ok_def fresh_proc_def)
  moreover have "proc_pages s (k_procs s ! i) = {}" using i by (simp add: proc_pages_def)
  moreover have "proc_pages s' ?p \<union> set ys = set xs" "proc_pages s' ?p \<inter> set ys = {}"
    unfolding pages using xs dx(1) by auto
  ultimately show ?thesis
    using link procs same free by (intro ptable_change_slot [OF pt i(1)]) simp_all
qed

lemma wp_alloc_process:
  assumes h: "hart H e c s" "outside H" "\<And>j. ProcLock j \<notin> H" and pt: "ptable U s xs"
    and un: "unused s = Some i" and pool: "6 \<le> length xs"
    and Q: "\<And>s' tf pg ys. hart (insert (ProcLock i) H) e c s' \<Longrightarrow> ptable U s' ys \<Longrightarrow> set ys \<subseteq> set xs \<Longrightarrow>
      k_procs s' = (k_procs s)[i := fresh_proc (k_link s) (k_nextpid s) tf pg (k_procs s ! i)] \<Longrightarrow>
      slot_step i (set xs) (s\<lparr>k_nextpid := k_nextpid s + 1\<rparr>) s' \<Longrightarrow> length xs \<le> length ys + 6 \<Longrightarrow> Q (Some i) s'"
  shows "wp alloc_process Q s"
proof -
  let ?H = "insert (ProcLock i) H" and ?p = "k_procs s ! i" and ?pid = "k_nextpid s"
  have i: "i < NPROC" "p_state ?p = UNUSED" using unused_Some [OF un] by simp_all
  note t = ptableD [OF pt i(1)]
  obtain tf pg rest where xs: "xs = tf # pg # rest" and rest: "4 \<le> length rest"
    using pool by (cases xs; cases "tl xs") auto
  have hH: "KmemLock \<notin> ?H" "PidLock \<notin> ?H" "PrintLock \<notin> ?H" using h(2) by (auto simp: outside_def)
  obtain s1 where s1: "find_unused [0..<NPROC] s = Ok (Some i) s1" "hart ?H e c s1" "data s1 = data s"
    by (rule wpE [OF wp_find_unused [OF h(1), where js = "[0..<NPROC]" and Q = "\<lambda>r s'. r = Some i \<and> hart ?H e c s' \<and> data s' = data s"]])
       (use h(3) t(2) un in \<open>auto simp: unused_def\<close>)
  note e1 = data_eqD [OF s1(3)]
  obtain s2 where s2: "allocpid s1 = Ok ?pid s2" "hart ?H e c s2" "data s2 = (data s)\<lparr>k_nextpid := ?pid + 1\<rparr>"
    by (rule wpE [OF wp_allocpid [OF s1(2) hH(2), where Q = "\<lambda>r s'. r = ?pid \<and> hart ?H e c s' \<and> data s' = (data s)\<lparr>k_nextpid := ?pid + 1\<rparr>"]])
       (use s1(3) e1(8) in auto)
  let ?sn = "s\<lparr>k_nextpid := ?pid + 1\<rparr>"
  have d2: "data s2 = data ?sn" using s2(3) by simp
  note e2 = data_eqD [OF d2]
  let ?p3 = "?p\<lparr>p_pid := ?pid, p_state := USED\<rparr>"
  let ?s3 = "s2\<lparr>k_procs := (k_procs s)[i := ?p3]\<rparr>"
  obtain s4 where s4: "kprint ''alloc_process: allocated process %d\<newline>'' [VWord (scast ?pid)] ?s3 = Ok () s4"
      "hart ?H e c s4" "data s4 = data ?s3"
    by (rule wpE [OF wp_kprint [where s = ?s3 and H = ?H and e = e and c = c and
        Q = "\<lambda>_ s'. hart ?H e c s' \<and> data s' = data ?s3", OF _ hH(3) alloc_msg]]) (use s2(2) in auto)
  note e4 = data_eqD [OF s4(3)]
  have free4: "free_pages s4 (tf # pg # rest)" and lk: "k_link s4 = k_link s"
    and pr: "k_procs s1 = k_procs s" "k_procs s2 = k_procs s" "k_procs s4 = (k_procs s)[i := ?p3]"
    using t(1) e1 e4 e2 xs by (simp_all add: free_pages_def)
  have len: "i < length (k_procs s)" using t(2) i by simp
  let ?new = "\<lambda>s'. \<exists>ys. hart ?H e c s' \<and> ptable U s' ys \<and> set ys \<subseteq> set xs \<and> length xs \<le> length ys + 6
     \<and> k_procs s' = (k_procs s)[i := fresh_proc (k_link s) ?pid tf pg ?p] \<and> slot_step i (set xs) ?sn s'"
  have "wp (setup_process i) (\<lambda>r s'. r = Some i \<and> ?new s') s4"
  proof (rule wp_setup_process [OF s4(2) _ free4 rest], goal_cases)
    case (3 s8 ns ys)
    have p8: "k_procs s8 = (k_procs s)[i := fresh_proc (k_link s) ?pid tf pg ?p]"
      using 3(8) len by (simp add: pr lk fresh_proc_def)
    have "slot_step i {} s2 ?s3" using slot_step_write [of i s2 ?p3] len pr by simp
    from slot_step_trans [OF slot_step_trans [OF slot_step_trans [OF slot_step_data [OF d2] this] slot_step_data [OF s4(3)]] 3(7)]
    have st: "slot_step i (set xs) ?sn s8" by (rule slot_step_mono) (use xs 3(2) in auto)
    have "ptable U s8 ys" by (rule ptable_fresh [OF pt i xs 3(2) _ p8 _ 3(4,5,6)]) (use slot_stepD [OF st] in auto)
    then show ?case using 3 xs p8 st by auto
  qed (use h(2) len pr in simp_all)
  then show ?thesis
    using s1(1) s2(1) s4(1) len pr Q by (auto simp: wp_def alloc_process_def exec_simps)
qed

section \<open>Creating processes\<close>

text \<open>Fields that carry no page may change freely on a live process.\<close>

definition same_pages :: "proc \<Rightarrow> proc \<Rightarrow> bool" where
  "same_pages p q \<longleftrightarrow> p_trapframe p = p_trapframe q \<and> p_pagetable p = p_pagetable q
     \<and> p_state p \<noteq> UNUSED \<and> p_state q \<noteq> UNUSED"

lemma ptable_update:
  assumes "ptable U s xs" and "i < NPROC" and "same_pages (k_procs s ! i) p"
  shows "ptable U (s\<lparr>k_procs := (k_procs s)[i := p]\<rparr>) xs"
proof -
  have pg: "proc_pages (s\<lparr>k_procs := ps\<rparr>) p = proc_pages s (k_procs s ! i)" for ps
    using assms(3) by (simp add: proc_pages_def same_pages_def tables_def)
  have "proc_ok (s\<lparr>k_procs := ps\<rparr>) p" for ps
    using assms ptableD(3) [OF assms(1,2)]
    by (simp add: proc_ok_def same_pages_def tables_def space_ok_def translate_def fun_eq_iff)
  then show ?thesis
    using assms ptableD [OF assms(1,2)] pg by (intro ptable_change_slot [OF assms(1,2)]) auto
qed

definition started_proc :: "linkmap \<Rightarrow> i32 \<Rightarrow> u64 \<Rightarrow> u64 \<Rightarrow> nat option \<Rightarrow> u64 \<Rightarrow> proc \<Rightarrow> proc" where
  "started_proc lm pid tf pg par entry p =
     (let q = fresh_proc lm pid tf pg p
      in q\<lparr>p_parent := par, p_context := (p_context q)\<lparr>ctx_s0 := entry\<rparr>, p_state := RUNNABLE\<rparr>)"

lemma wp_locked_write:
  assumes "hart H e c s" and "lk \<notin> H" and "i < length (k_procs s)"
    and Q: "\<And>s'. hart H e c s' \<Longrightarrow> data s' = (data s)\<lparr>k_procs := (k_procs s)[i := f (k_procs s ! i)]\<rparr> \<Longrightarrow> Q () s'"
  shows "wp (seqM (acquire lk) (seqM (proc_write i f) (release lk))) Q s"
  unfolding wp_simps
proof (rule wp_acquire [OF assms(1,2)])
  fix s1
  assume h1: "hart (insert lk H) e c s1" and d1: "data s1 = data s"
  note p1 = data_eqD(6) [OF d1]
  have eq: "insert lk H - {lk} = H" using assms(2) by blast
  show "wp (proc_write i f) (\<lambda>_. wp (release lk) Q) s1"
  proof (rule wp_proc_write)
    show "i < length (k_procs s1)" using assms(3) p1 by simp
    show "wp (release lk) Q (s1\<lparr>k_procs := (k_procs s1)[i := f (k_procs s1 ! i)]\<rparr>)"
      by (rule wp_release [where H = "insert lk H"]) (use h1 eq d1 p1 Q in simp_all)
  qed
qed

lemma wp_create_process:
  assumes h: "hart H e c s" "outside H" "\<And>j. ProcLock j \<notin> H" "WaitLock \<notin> H" and pt: "ptable U s xs"
    and un: "unused s = Some i" and pool: "6 \<le> length xs"
    and Q: "\<And>s' tf pg ys. hart H e c s' \<Longrightarrow> ptable U s' ys \<Longrightarrow> set ys \<subseteq> set xs \<Longrightarrow> length xs \<le> length ys + 6 \<Longrightarrow>
      k_procs s' = (k_procs s)[i := started_proc (k_link s) (k_nextpid s) tf pg c entry (k_procs s ! i)] \<Longrightarrow>
      slot_step i (set xs) (s\<lparr>k_nextpid := k_nextpid s + 1\<rparr>) s' \<Longrightarrow> Q (k_nextpid s) s'"
  shows "wp (create_process entry) Q s"
proof -
  let ?H = "insert (ProcLock i) H" and ?p = "k_procs s ! i" and ?sn = "s\<lparr>k_nextpid := k_nextpid s + 1\<rparr>"
  have i: "i < NPROC" "p_state ?p = UNUSED" using unused_Some [OF un] by simp_all
  note t = ptableD [OF pt i(1)]
  have par: "p_parent ?p = None" using t(3) i(2) by (simp add: proc_ok_def)
  have len: "i < length (k_procs s)" using t(2) i by simp
  obtain s1 tf pg ys where s1: "alloc_process s = Ok (Some i) s1" "hart ?H e c s1" "ptable U s1 ys" "set ys \<subseteq> set xs"
      "k_procs s1 = (k_procs s)[i := fresh_proc (k_link s) (k_nextpid s) tf pg ?p]" "slot_step i (set xs) ?sn s1"
      "length xs \<le> length ys + 6"
    by (rule wpE [OF wp_alloc_process [OF h(1-3) pt un pool, where Q = "\<lambda>r s'. r = Some i \<and> (\<exists>tf pg ys. hart ?H e c s' \<and> ptable U s' ys
        \<and> set ys \<subseteq> set xs \<and> k_procs s' = (k_procs s)[i := fresh_proc (k_link s) (k_nextpid s) tf pg ?p]
        \<and> slot_step i (set xs) ?sn s' \<and> length xs \<le> length ys + 6)"]]) auto
  let ?f = "fresh_proc (k_link s) (k_nextpid s) tf pg ?p"
  let ?g = "started_proc (k_link s) (k_nextpid s) tf pg c entry ?p"
  obtain s2 where s2: "myproc s1 = Ok c s2" "hart ?H e c s2" "data s2 = data s1"
    by (rule wpE [OF wp_myproc [OF s1(2), where Q = "\<lambda>r s'. r = c \<and> hart ?H e c s' \<and> data s' = data s1"]]) auto
  have p2: "k_procs s2 = (k_procs s)[i := ?f]" using data_eqD(6) [OF s2(3)] s1(5) by simp
  have "\<exists>s3. (case c of None \<Rightarrow> ret () | Some k \<Rightarrow> seqM (acquire WaitLock)
      (seqM (proc_write i (\<lambda>p. p\<lparr>p_parent := Some k\<rparr>)) (release WaitLock))) s2 = Ok () s3
      \<and> hart ?H e c s3 \<and> data s3 = data (s2\<lparr>k_procs := (k_procs s)[i := ?f\<lparr>p_parent := c\<rparr>]\<rparr>)"
  proof (cases c)
    case None
    have "?f\<lparr>p_parent := c\<rparr> = ?f" using par None by (simp add: fresh_proc_def)
    then show ?thesis using None s2(2) p2 by (simp add: ret_def)
  next
    case (Some k)
    show ?thesis
      by (rule wpE [OF wp_locked_write [OF s2(2), where lk = WaitLock and i = i and f = "\<lambda>p. p\<lparr>p_parent := Some k\<rparr>" and
        Q = "\<lambda>_ s'. hart ?H e c s' \<and> data s' = data (s2\<lparr>k_procs := (k_procs s)[i := ?f\<lparr>p_parent := c\<rparr>]\<rparr>)"]])
        (use h(4) len p2 Some in auto)
  qed
  then obtain s3 where s3: "(case c of None \<Rightarrow> ret () | Some k \<Rightarrow> seqM (acquire WaitLock)
      (seqM (proc_write i (\<lambda>p. p\<lparr>p_parent := Some k\<rparr>)) (release WaitLock))) s2 = Ok () s3"
      "hart ?H e c s3" "data s3 = data (s2\<lparr>k_procs := (k_procs s)[i := ?f\<lparr>p_parent := c\<rparr>]\<rparr>)" by blast
  have p3: "k_procs s3 = (k_procs s)[i := ?f\<lparr>p_parent := c\<rparr>]" using data_eqD(6) [OF s3(3)] by simp
  let ?s4 = "s3\<lparr>k_procs := (k_procs s)[i := ?g]\<rparr>"
  obtain s5 where s5: "release (ProcLock i) ?s4 = Ok () s5" "hart H e c s5" "data s5 = data ?s4"
    by (rule wpE [OF wp_release [where s = ?s4 and H = ?H and e = e and c = c and lk = "ProcLock i" and
        Q = "\<lambda>_ s'. hart H e c s' \<and> data s' = data ?s4"]]) (use s3(2) h(3) in auto)
  have p5: "k_procs s5 = (k_procs s)[i := ?g]" using data_eqD(6) [OF s5(3)] by simp
  have run: "create_process entry s = Ok (k_nextpid s) s5"
    using s1(1) s2(1) s3(1) s5(1) p3 p5 len
    by (simp add: create_process_def exec_simps started_proc_def Let_def fresh_proc_def)
  have d5: "data s5 = data (s1\<lparr>k_procs := (k_procs s1)[i := ?g]\<rparr>)"
    using s5(3) s3(3) s2(3) s1(5) by simp
  have "slot_step i ({} \<union> {}) s1 s5"
    using slot_step_trans [OF slot_step_write [of i s1 ?g] slot_step_data [OF d5]] len s1(5) by simp
  then have st: "slot_step i (set xs) ?sn s5" using slot_step_trans [OF s1(6)] by fastforce
  have "same_pages (k_procs s1 ! i) ?g"
    using s1(5) len by (simp add: same_pages_def started_proc_def Let_def fresh_proc_def)
  from ptable_update [OF s1(3) i(1) this] have "ptable U s5 ys" using ptable_data [OF d5] by simp
  then have "Q (k_nextpid s) s5" by (rule Q [OF s5(2) _ s1(4,7) p5 st])
  with run show ?thesis by (rule wpI)
qed


section \<open>Properties\<close>

text \<open>The next pid does not wrap below \<open>2 ^ 31 - 1\<close>.\<close>

lemma sint_Suc: "sint x < 2147483647 \<Longrightarrow> sint (x + 1) = sint x + 1" for x :: i32
  using sint_ge [of x] by (simp add: sint_word_ariths signed_take_bit_int_eq_self)

lemma pids_ok_new:
  assumes "pids_ok s" and "length (k_procs s) = NPROC" and "i < NPROC" and "sint (k_nextpid s) < 2147483647"
    and "k_procs s' = (k_procs s)[i := p]" and "p_pid p = k_nextpid s" and "k_nextpid s' = k_nextpid s + 1"
  shows "pids_ok s'"
proof -
  note ok = assms(1) [unfolded pids_ok_def]
  have n: "sint (k_nextpid s') = sint (k_nextpid s) + 1" using assms(4,7) sint_Suc by simp
  have at: "k_procs s' ! j = (if j = i then p else k_procs s ! j)" if "j < NPROC" for j using that assms(2,3,5) by auto
  have "p_pid (k_procs s ! j) \<noteq> k_nextpid s" if "j < NPROC" "p_state (k_procs s ! j) \<noteq> UNUSED" for j
    using ok that by auto
  moreover have "1 \<le> sint (p_pid (k_procs s' ! j)) \<and> sint (p_pid (k_procs s' ! j)) < sint (k_nextpid s) + 1"
    if "j < NPROC" "p_state (k_procs s' ! j) \<noteq> UNUSED" for j
    using ok that assms(6) at [of j] by (cases "j = i") fastforce+
  ultimately show ?thesis
    using ok n at assms(6) unfolding pids_ok_def by (auto; metis)
qed

text \<open>A machine with free memory and an empty process table.\<close>

definition pool_table :: "nat option \<Rightarrow> bool \<Rightarrow> kstate" where
  "pool_table c e = (idle_state c e pool_link)\<lparr>k_mem := k_mem pool_state, k_freelist := k_freelist pool_state\<rparr>"

lemma pool_table_ok: "hart {} e c (pool_table c e)" "ptable (set pool_pages) (pool_table c e) pool_pages" "pids_ok (pool_table c e)"
  "unused (pool_table c e) = Some 0" "k_nextpid (pool_table c e) = 1" "k_procs (pool_table c e) = replicate NPROC zero_proc" "k_link (pool_table c e) = pool_link"
proof -
  show "hart {} e c (pool_table c e)" by (simp add: pool_table_def hart_idle)
  show n: "k_nextpid (pool_table c e) = 1" and p: "k_procs (pool_table c e) = replicate NPROC zero_proc" and "k_link (pool_table c e) = pool_link"
    by (simp_all add: pool_table_def)
  have "free_pages (pool_table c e) pool_pages"
    using kmem_rep_pool k_link_pool by (simp add: free_pages_def kmem_rep_def pool_table_def)
  then show "ptable (set pool_pages) (pool_table c e) pool_pages" by (simp add: ptable_def owned_def p proc_ok_def proc_pages_def) (simp add: zero_proc_def)
  show "pids_ok (pool_table c e)" by (simp add: pids_ok_def n p) (simp add: zero_proc_def)
  have "[0..<NPROC] = 0 # [1..<NPROC]" by (simp add: NPROC_def upt_conv_Cons)
  then show "unused (pool_table c e) = Some 0" by (simp add: unused_def p NPROC_def zero_proc_def)
qed

lemma pool_created:
  obtains s' ys where "create_process entry (pool_table c e) = Ok 1 s'" "hart {} e c s'" "ptable (set pool_pages) s' ys" "p_state (k_procs s' ! 0) = RUNNABLE" "p_parent (k_procs s' ! 0) = c"
proof -
  note t = pool_table_ok [where c = c and e = e]
  have pool: "6 \<le> length pool_pages" by (simp only: length_pool_pages)
  show ?thesis
    by (rule wpE [OF wp_create_process [OF t(1) _ _ _ t(2,4) pool, where entry = entry and Q = "\<lambda>r s'. r = 1 \<and> (\<exists>ys. hart {} e c s' \<and> ptable (set pool_pages) s' ys \<and>
        p_state (k_procs s' ! 0) = RUNNABLE \<and> p_parent (k_procs s' ! 0) = c)"]])
       (use t(5,6) that in \<open>auto simp: outside_def started_proc_def fresh_proc_def Let_def NPROC_def\<close>)
qed

text \<open>C9. \<open>create_process\<close> fills the first unused slot with a runnable child of the caller that will
  start in the given function on its own stack, under a pid no live process has. Page ownership and
  the uniqueness of pids are kept; no other slot changes. With a full table it panics and changes
  nothing.\<close>

theorem create_process_adds_child:
  assumes "hart {} e c s" and "ptable U s xs" and "pids_ok s" and "sint (k_nextpid s) < 2147483647" and "6 \<le> length xs"
  shows "case unused s of
      Some i \<Rightarrow> \<exists>s' ys tf pg. create_process entry s = Ok (k_nextpid s) s' \<and> hart {} e c s' \<and> ptable U s' ys \<and> set ys \<subseteq> set xs \<and> pids_ok s'
        \<and> k_procs s' = (k_procs s)[i := (k_procs s ! i)\<lparr>p_pid := k_nextpid s, p_trapframe := tf, p_pagetable := pg, p_parent := c,
            p_context := zero_context\<lparr>ctx_ra := l_forkret (k_link s), ctx_sp := p_kstack (k_procs s ! i) + PGSIZE, ctx_s0 := entry\<rparr>, p_state := RUNNABLE\<rparr>]
    | None \<Rightarrow> \<exists>s'. create_process entry s = Err (Panic ''create_process: alloc_process failed'') s' \<and> hart {} e c s' \<and> data s' = data s"
proof (cases "unused s")
  case None
  obtain s' where "alloc_process s = Ok None s'" "hart {} e c s'" "data s' = data s"
    by (rule wpE [OF alloc_process_full [OF assms(1) _ assms(2) None, where Q = "\<lambda>r s'. r = None \<and> hart {} e c s' \<and> data s' = data s"]]) auto
  then show ?thesis using None by (simp add: create_process_def exec_simps)
next
  case (Some i)
  let ?q = "\<lambda>tf pg. started_proc (k_link s) (k_nextpid s) tf pg c entry (k_procs s ! i)"
  have i: "i < NPROC" using unused_Some [OF Some] by simp
  have len: "length (k_procs s) = NPROC" using assms(2) by (simp add: ptable_def)
  obtain s' ys tf pg where s': "create_process entry s = Ok (k_nextpid s) s'" "hart {} e c s'" "ptable U s' ys" "set ys \<subseteq> set xs"
      "k_procs s' = (k_procs s)[i := ?q tf pg]" "slot_step i (set xs) (s\<lparr>k_nextpid := k_nextpid s + 1\<rparr>) s'"
    by (rule wpE [OF wp_create_process [OF assms(1) _ _ _ assms(2) Some assms(5), where entry = entry and Q = "\<lambda>r s'. r = k_nextpid s \<and> (\<exists>ys tf pg. hart {} e c s' \<and>
        ptable U s' ys \<and> set ys \<subseteq> set xs \<and> k_procs s' = (k_procs s)[i := ?q tf pg] \<and> slot_step i (set xs) (s\<lparr>k_nextpid := k_nextpid s + 1\<rparr>) s')"]])
       (auto simp: outside_def)
  have "pids_ok s'"
    by (rule pids_ok_new [OF assms(3) len i assms(4) s'(5)]) (use slot_stepD(5) [OF s'(6)] in \<open>simp_all add: started_proc_def fresh_proc_def Let_def\<close>)
  with s' Some show ?thesis by (auto simp: started_proc_def fresh_proc_def Let_def)
qed

theorem create_process_adds_child_witness:
  "\<exists>s'. create_process 0x80001200 (pool_table (Some 5) True) = Ok 1 s' \<and> pids_ok s' \<and> p_state (k_procs s' ! 0) = RUNNABLE \<and> p_parent (k_procs s' ! 0) = Some 5"
proof -
  note t = pool_table_ok [where c = "Some 5" and e = True]
  have "sint (1 :: i32) < 2147483647" "6 \<le> length pool_pages" by (simp, simp only: length_pool_pages)
  then show ?thesis
    using create_process_adds_child [OF t(1-3), of "0x80001200"] t(4-6) by (auto simp: NPROC_def)
qed

text \<open>C23. \<open>free_process\<close> gives back exactly the pages of the process (its trapframe page and the tables of
  its address space) and leaves the slot unused and blank.\<close>

theorem free_process_gives_back:
  assumes "hart H e c s" and "KmemLock \<notin> H" and "ptable U s xs" and "i < NPROC" and "p_state (k_procs s ! i) \<noteq> UNUSED"
  shows "\<exists>s' ys. free_process i s = Ok () s' \<and> hart H e c s' \<and> ptable U s' ys \<and> set ys = set xs \<union> proc_pages s (k_procs s ! i)
     \<and> p_state (k_procs s' ! i) = UNUSED \<and> (\<forall>j < NPROC. j \<noteq> i \<longrightarrow> k_procs s' ! j = k_procs s ! j)
     \<and> (\<forall>q. q \<notin> proc_pages s (k_procs s ! i) \<longrightarrow> same_page (k_mem s) (k_mem s') q)"
proof -
  have len: "length (k_procs s) = NPROC" using assms(3) by (simp add: ptable_def)
  obtain s' ys where "free_process i s = Ok () s'" "hart H e c s'" "ptable U s' ys" "set ys = set xs \<union> proc_pages s (k_procs s ! i)"
      "k_procs s' = (k_procs s)[i := cleared (k_procs s ! i)]" "slot_step i (proc_pages s (k_procs s ! i)) s s'"
    by (rule wpE [OF wp_free_process [OF assms, where Q = "\<lambda>_ s'. \<exists>ys. hart H e c s' \<and> ptable U s' ys \<and> set ys = set xs \<union> proc_pages s (k_procs s ! i) \<and>
        k_procs s' = (k_procs s)[i := cleared (k_procs s ! i)] \<and> slot_step i (proc_pages s (k_procs s ! i)) s s'"]]) auto
  then show ?thesis using len assms(4) slot_stepD(6) by (auto simp: cleared_def)
qed

theorem free_process_gives_back_witness:
  "\<exists>s s'. create_process 0x80001200 (pool_table None False) = Ok 1 s \<and> p_state (k_procs s ! 0) = RUNNABLE \<and> free_process 0 s = Ok () s' \<and> p_state (k_procs s' ! 0) = UNUSED"
proof -
  obtain s ys where s: "create_process 0x80001200 (pool_table None False) = Ok 1 s" "hart {} False None s" "ptable (set pool_pages) s ys" "p_state (k_procs s ! 0) = RUNNABLE"
    by (rule pool_created)
  have "0 < NPROC" by (simp add: NPROC_def)
  then show ?thesis using free_process_gives_back [OF s(2) _ s(3)] s(1,4) by fastforce
qed

end
