(* ===== verification/Sched.thy ===== *)
theory Sched
  imports Proc
begin

text \<open>
  Scheduling and synchronisation in \<open>kernel/proc.c\<close>: the functional behaviour of \<open>wakeup\<close>, \<open>sched\<close>,
  \<open>yield\<close>, \<open>sleep\<close>, \<open>exit_process\<close>, \<open>wait_process\<close> and of the scheduler's loop, each on the process
  table as a whole.

  The specifications are functions on the list of process records: \<open>woken\<close> (every sleeper on a channel
  becomes runnable), \<open>reparented_upto\<close> and \<open>left_behind\<close> (the children go to init, init and the parent
  are woken) and \<open>zombie\<close>. The lemmas say that the code computes them, which locks are held when it
  switches away, and that the invariant of the process table is kept.
\<close>

section \<open>Waking up\<close>

definition woken_proc :: "chan \<Rightarrow> proc \<Rightarrow> proc" where
  "woken_proc chn p = (if p_state p = SLEEPING \<and> p_chan p = chn then p\<lparr>p_state := RUNNABLE\<rparr> else p)"

definition woken :: "chan \<Rightarrow> nat option \<Rightarrow> proc list \<Rightarrow> proc list" where
  "woken chn me ps = map (\<lambda>i. if Some i = me then ps ! i else woken_proc chn (ps ! i)) [0..<length ps]"

lemma length_woken [simp]: "length (woken chn me ps) = length ps"
  by (simp add: woken_def)

lemma nth_woken: "i < length ps \<Longrightarrow> woken chn me ps ! i = (if Some i = me then ps ! i else woken_proc chn (ps ! i))"
  by (simp add: woken_def)

lemma woken_proc_pages:
  "p_state (woken_proc chn p) = UNUSED \<longleftrightarrow> p_state p = UNUSED" "p_parent (woken_proc chn p) = p_parent p"
  "p_state (woken_proc chn p) = ZOMBIE \<longleftrightarrow> p_state p = ZOMBIE" "p_pid (woken_proc chn p) = p_pid p"
  "p_killed (woken_proc chn p) = p_killed p" "p_chan (woken_proc chn p) = p_chan p"
  by (auto simp: woken_proc_def)

text \<open>One slot of the loop of \<open>wakeup\<close>.\<close>

lemma wp_wakeup_slot:
  assumes h: "hart H e c s" and i: "i < length (k_procs s)" "Some i \<noteq> c \<Longrightarrow> ProcLock i \<notin> H"
    and Q: "\<And>s'. hart H e c s' \<Longrightarrow>
      data s' = (data s)\<lparr>k_procs := (k_procs s)[i := if Some i = c then k_procs s ! i else woken_proc chn (k_procs s ! i)]\<rparr> \<Longrightarrow>
      k_uart s' = k_uart s \<Longrightarrow> Q () s'"
  shows "wp (bindM myproc (\<lambda>me. whenM (Some i \<noteq> me)
        (seqM (acquire (ProcLock i))
        (bindM (proc_read i (\<lambda>p. p_state p = SLEEPING \<and> p_chan p = chn)) (\<lambda>b.
         seqM (whenM b (proc_write i (\<lambda>p. p\<lparr>p_state := RUNNABLE\<rparr>)))
              (release (ProcLock i))))))) Q s"
proof (cases "Some i = c")
  case True
  have "(data s)\<lparr>k_procs := k_procs s\<rparr> = data s" by (simp add: data_def)
  then show ?thesis unfolding wp_simps using True Q by (intro wp_myproc [OF h]) simp
next
  case ne: False
  let ?m = "bindM (proc_read i (\<lambda>p. p_state p = SLEEPING \<and> p_chan p = chn)) (\<lambda>b.
      whenM b (proc_write i (\<lambda>p. p\<lparr>p_state := RUNNABLE\<rparr>)))"
  let ?P = "\<lambda>_ (d, u). d = (data s)\<lparr>k_procs := (k_procs s)[i := woken_proc chn (k_procs s ! i)]\<rparr> \<and> u = k_uart s"
  have "wp (seqM (acquire (ProcLock i)) (bindM ?m (\<lambda>a. seqM (release (ProcLock i)) (ret a)))) Q s1"
    if "hart H e c s1" "data s1 = data s" "k_uart s1 = k_uart s" for s1
  proof (rule wp_mono [OF klock.critical_section [OF that(1) i(2) [OF ne], where P = ?P]])
    fix s2
    assume h2: "hart (insert (ProcLock i) H) e c s2" and "(data s2, k_uart s2) = (data s1, k_uart s1)"
    then have d: "data s2 = data s" and u: "k_uart s2 = k_uart s" using that(2,3) by simp_all
    note p2 = data_eqD(6) [OF d]
    have "(data s)\<lparr>k_procs := k_procs s\<rparr> = data s" by (simp add: data_def)
    then show "wp ?m (\<lambda>a s3. hart (insert (ProcLock i) H) e c s3 \<and> ?P a (data s3, k_uart s3)) s2"
      unfolding wp_simps using h2 d u i(1) p2 by (intro wp_proc_read) (auto intro!: wp_proc_write simp: woken_proc_def)
  next
    fix a s'
    assume "hart H e c s' \<and> ?P a (data s', k_uart s')"
    then show "Q a s'" using Q ne by simp
  qed
  then show ?thesis unfolding wp_simps using ne by (intro wp_myproc [OF h]) (simp add: if_distrib [of "\<lambda>x. x _"] cong: if_cong)
qed

definition woken_upto :: "nat \<Rightarrow> chan \<Rightarrow> nat option \<Rightarrow> proc list \<Rightarrow> proc list" where
  "woken_upto k chn me ps =
     map (\<lambda>i. if i < k \<and> Some i \<noteq> me then woken_proc chn (ps ! i) else ps ! i) [0..<length ps]"

lemma woken_upto_step:
  assumes "k < length ps"
  shows "(woken_upto k chn me ps)[k := if Some k = me then woken_upto k chn me ps ! k else woken_proc chn (woken_upto k chn me ps ! k)]
    = woken_upto (Suc k) chn me ps"
  by (rule nth_equalityI) (use assms in \<open>auto simp: woken_upto_def nth_list_update less_Suc_eq\<close>)

lemma woken_upto_ends: "woken_upto 0 chn me ps = ps" "woken_upto (length ps) chn me ps = woken chn me ps"
  by (auto simp: woken_upto_def woken_def map_nth cong: map_cong)

lemma length_woken_upto [simp]: "length (woken_upto k chn me ps) = length ps"
  by (simp add: woken_upto_def)

lemma wp_wakeup:
  assumes h: "hart H e c s" and n: "length (k_procs s) = NPROC" "\<And>j. Some j \<noteq> c \<Longrightarrow> ProcLock j \<notin> H"
    and Q: "\<And>s'. hart H e c s' \<Longrightarrow> data s' = (data s)\<lparr>k_procs := woken chn c (k_procs s)\<rparr> \<Longrightarrow>
      k_uart s' = k_uart s \<Longrightarrow> Q () s'"
  shows "wp (wakeup chn) Q s"
  unfolding wakeup_def
proof (rule wp_forM_upt [where I = "\<lambda>k s'. hart H e c s' \<and> k_uart s' = k_uart s \<and> data s' = (data s)\<lparr>k_procs := woken_upto k chn c (k_procs s)\<rparr>"], goal_cases)
  case 1
  then show ?case using h by (simp add: woken_upto_ends data_def)
next
  case (2 i t)
  then have d: "data t = (data s)\<lparr>k_procs := woken_upto i chn c (k_procs s)\<rparr>" and "hart H e c t" "k_uart t = k_uart s" by simp_all
  moreover have p: "k_procs t = woken_upto i chn c (k_procs s)" using d [THEN arg_cong, of k_procs] by simp
  ultimately show ?case
    using 2(1) n woken_upto_step [of i "k_procs s" chn c] by (intro wp_wakeup_slot) auto
next
  case (3 t)
  then show ?case using Q woken_upto_ends(2) [of "k_procs s" chn c] by (simp add: n(1))
qed

lemma ptable_woken:
  assumes "ptable U s xs"
  shows "ptable U (s\<lparr>k_procs := woken chn me (k_procs s)\<rparr>) xs"
proof -
  have len: "length (k_procs s) = NPROC" using assms by (simp add: ptable_def)
  let ?s = "s\<lparr>k_procs := woken chn me (k_procs s)\<rparr>"
  have "proc_ok ?s (k_procs ?s ! i) = proc_ok s (k_procs s ! i) \<and> proc_pages ?s (k_procs ?s ! i) = proc_pages s (k_procs s ! i)"
    if "i < NPROC" for i
    using that len by (auto simp: nth_woken woken_proc_def proc_ok_def proc_pages_def tables_def space_ok_def translate_def fun_eq_iff)
  then show ?thesis using assms len owned_cong [of ?s s] by (simp add: ptable_def)
qed

section \<open>Leaving the processor\<close>

definition switched :: "nat \<Rightarrow> kcontext \<Rightarrow> (proc \<Rightarrow> proc) \<Rightarrow> kstate \<Rightarrow> kstate" where
  "switched p regs f d = d\<lparr>k_procs := (k_procs d)[p := (f (k_procs d ! p))\<lparr>p_context := regs\<rparr>]\<rparr>"

lemma wp_sched:
  assumes h: "hart {ProcLock p} e (Some p) s" and p: "p < length (k_procs s)" "p_state (k_procs s ! p) \<noteq> RUNNING"
    and Q: "\<And>s'. hart {ProcLock p} e (Some p) s' \<Longrightarrow> data s' = switched p regs id (data s) \<Longrightarrow>
      k_uart s' = k_uart s \<Longrightarrow> Q (p, e, cpu_context (cpu0 s)) s'"
  shows "wp (sched regs) Q s"
proof -
  obtain s1 where s1: "myproc s = Ok (Some p) s1" "hart {ProcLock p} e (Some p) s1" "data s1 = data s" "k_uart s1 = k_uart s"
    by (rule wpE [OF wp_myproc [OF h, where Q = "\<lambda>r s'. r = Some p \<and> hart {ProcLock p} e (Some p) s' \<and> data s' = data s \<and> k_uart s' = k_uart s"]]) auto
  note h1 = hartD [OF s1(2)] and d = data_eqD [OF s1(3)]
  let ?s2 = "s1\<lparr>k_procs := (k_procs s1)[p := (k_procs s1 ! p)\<lparr>p_context := regs\<rparr>]\<rparr>"
  have "cpu_intena (cpu0 s1) = e" using s1(2) by (simp add: hart_def)
  then have "sched regs s = Ok (p, e, cpu_context (cpu0 s)) ?s2"
    using s1(1) h1(1,4) h1(7) hart_holding [OF s1(2), of "ProcLock p"] p d(6,12) cpu_wf_one_cpu [OF h1(1)]
    by (simp add: sched_def swtch_def exec_simps)
  moreover have "Q (p, e, cpu_context (cpu0 s)) ?s2"
    by (rule Q) (use s1(2-4) d(6) in \<open>simp_all add: switched_def\<close>)
  ultimately show ?thesis by (rule wpI)
qed

lemma wp_yield:
  assumes h: "hart {} e (Some p) s" and p: "p < length (k_procs s)"
    and Q: "\<And>s'. hart {ProcLock p} e (Some p) s' \<Longrightarrow> data s' = switched p regs (p_state_update (\<lambda>_. RUNNABLE)) (data s) \<Longrightarrow>
      k_uart s' = k_uart s \<Longrightarrow> Q (p, e, cpu_context (cpu0 s)) s'"
  shows "wp (yield regs) Q s"
  unfolding yield_def wp_simps
proof (rule wp_myproc [OF h], unfold option.case wp_simps, rule wp_acquire, assumption, simp, rule wp_proc_write, goal_cases)
  case (1 s1 s2)
  then show ?case using p data_eqD(6) [of s1 s] data_eqD(6) [of s2 s1] by simp
next
  case (2 s1 s2)
  have d: "data s2 = data s" using 2 by simp
  note e = data_eqD [OF d]
  let ?s3 = "s2\<lparr>k_procs := (k_procs s2)[p := (k_procs s2 ! p)\<lparr>p_state := RUNNABLE\<rparr>]\<rparr>"
  show ?case
  proof (rule wp_sched)
    fix s'
    assume *: "hart {ProcLock p} e (Some p) s'" "data s' = switched p regs id (data ?s3)" "k_uart s' = k_uart ?s3"
    have "cpu_context (cpu0 ?s3) = cpu_context (cpu0 s)" using e(12) by simp
    with Q [OF *(1)] * p 2 d e(6) show "Q (p, e, cpu_context (cpu0 ?s3)) s'" by (simp add: switched_def)
  qed (use 2 p e in simp_all)
qed

lemma wp_sched_resume:
  assumes "hart {ProcLock p} e c s" and "\<And>s'. hart {ProcLock p} intena c s' \<Longrightarrow> data s' = data s \<Longrightarrow> k_uart s' = k_uart s \<Longrightarrow> Q () s'"
  shows "wp (sched_resume intena) Q s"
  unfolding sched_resume_def
proof (rule wp_mycpu_write [OF assms(1)], rule assms(2))
  show "hart {ProcLock p} intena c (on_cpu0 (\<lambda>c. c\<lparr>cpu_intena := intena\<rparr>) s)"
    using hart_on_cpu0 [OF assms(1), of "\<lambda>c. c\<lparr>cpu_intena := intena\<rparr>" intena] hartD(2) [OF assms(1)] by simp
qed (simp, simp add: on_cpu0_def)

lemma wp_yield_resume:
  assumes "hart {ProcLock p} e c s" and "\<And>s'. hart {} intena c s' \<Longrightarrow> data s' = data s \<Longrightarrow> k_uart s' = k_uart s \<Longrightarrow> Q () s'"
  shows "wp (yield_resume p intena) Q s"
  unfolding yield_resume_def wp_simps
  by (rule wp_sched_resume [OF assms(1)], rule wp_release, assumption) (use assms(2) in simp_all)

text \<open>\<open>sleep\<close> is called with one lock held; it leaves holding only the lock of the process.\<close>

definition asleep :: "chan \<Rightarrow> proc \<Rightarrow> proc" where
  "asleep chn q = q\<lparr>p_chan := chn, p_state := SLEEPING\<rparr>"

lemma wp_sleep:
  assumes h: "hart {l} e (Some p) s" and p: "p < length (k_procs s)"
    and Q: "\<And>s'. hart {ProcLock p} e (Some p) s' \<Longrightarrow> data s' = switched p regs (asleep chn) (data s) \<Longrightarrow>
      k_uart s' = k_uart s \<Longrightarrow> Q (p, e, cpu_context (cpu0 s)) s'"
  shows "wp (sleep chn (Some l) regs) Q s"
proof -
  have tail: "wp (seqM (proc_write p (\<lambda>q. q\<lparr>p_chan := chn\<rparr>)) (seqM (proc_write p (\<lambda>q. q\<lparr>p_state := SLEEPING\<rparr>)) (sched regs))) Q s2"
    if h2: "hart {ProcLock p} e (Some p) s2" and d: "data s2 = data s" and u: "k_uart s2 = k_uart s" for s2
  proof -
    note e = data_eqD [OF d]
    let ?s3 = "s2\<lparr>k_procs := (k_procs s2)[p := asleep chn (k_procs s2 ! p)]\<rparr>"
    have "wp (sched regs) Q ?s3"
    proof (rule wp_sched)
      fix s'
      assume *: "hart {ProcLock p} e (Some p) s'" "data s' = switched p regs id (data ?s3)" "k_uart s' = k_uart ?s3"
      have "cpu_context (cpu0 ?s3) = cpu_context (cpu0 s)" using e(12) by simp
      with Q [OF *(1)] * p d e(6) u show "Q (p, e, cpu_context (cpu0 ?s3)) s'" by (simp add: switched_def)
    qed (use h2 p e in \<open>simp_all add: asleep_def\<close>)
    then show ?thesis using p e(6) by (simp add: wp_def exec_simps asleep_def)
  qed
  show ?thesis
  proof (cases "l = ProcLock p")
    case True
    then show ?thesis using h
      by (simp only: sleep_def wp_bindM) (rule wp_myproc [OF h], simp add: whenM_def, subst wp_seqM, subst wp_ret, rule tail)
  next
    case False
    have "{ProcLock p, l} - {l} = {ProcLock p}" using False by blast
    then have lk: "wp (seqM (acquire (ProcLock p)) (release l)) (\<lambda>_ s2. hart {ProcLock p} e (Some p) s2 \<and> data s2 = data s \<and> k_uart s2 = k_uart s) s1"
      if "hart {l} e (Some p) s1" "data s1 = data s" "k_uart s1 = k_uart s" for s1
      unfolding wp_simps using that False
      by (intro wp_acquire [OF that(1)] wp_release [where H = "{ProcLock p, l}" and e = e and c = "Some p"]) simp_all
    have "wp (seqM (seqM (acquire (ProcLock p)) (release l)) (seqM (proc_write p (\<lambda>q. q\<lparr>p_chan := chn\<rparr>))
        (seqM (proc_write p (\<lambda>q. q\<lparr>p_state := SLEEPING\<rparr>)) (sched regs)))) Q s1"
      if "hart {l} e (Some p) s1" "data s1 = data s" "k_uart s1 = k_uart s" for s1
      by (subst wp_seqM) (rule wp_mono [OF lk [OF that]], use tail in blast)
    then show ?thesis using False
      by (simp only: sleep_def wp_bindM) (rule wp_myproc [OF h], simp add: whenM_def)
  qed
qed

lemma wp_sleep_resume:
  assumes h: "hart {ProcLock p} e c s" and p: "p < length (k_procs s)"
    and Q: "\<And>s'. hart {l} intena c s' \<Longrightarrow> data s' = (data s)\<lparr>k_procs := (k_procs s)[p := (k_procs s ! p)\<lparr>p_chan := NoChan\<rparr>]\<rparr> \<Longrightarrow>
      k_uart s' = k_uart s \<Longrightarrow> Q () s'"
  shows "wp (sleep_resume p l intena) Q s"
  unfolding sleep_resume_def wp_simps
proof (rule wp_sched_resume [OF h], rule wp_proc_write, goal_cases)
  case (1 s1)
  then show ?case using p data_eqD(6) [of s1 s] by simp
next
  case (2 s1)
  let ?s2 = "s1\<lparr>k_procs := (k_procs s1)[p := (k_procs s1 ! p)\<lparr>p_chan := NoChan\<rparr>]\<rparr>"
  have d: "data ?s2 = (data s)\<lparr>k_procs := (k_procs s)[p := (k_procs s ! p)\<lparr>p_chan := NoChan\<rparr>]\<rparr>"
    using 2(2) data_eqD(6) [OF 2(2)] by simp
  have h2: "hart {ProcLock p} intena c ?s2" using 2(1) by simp
  show ?case
  proof (cases "l = ProcLock p")
    case True
    then show ?thesis using Q [OF _ d] h2 2(3) by simp
  next
    case False
    have "wp (release (ProcLock p)) (\<lambda>_. wp (acquire l) Q) ?s2"
      by (rule wp_release [OF h2], simp, rule wp_acquire, assumption) (use False Q d 2 in simp_all)
    with False show ?thesis by simp
  qed
qed

section \<open>Exit\<close>

text \<open>The loop over the children of \<open>me\<close>, after \<open>k\<close> slots: they have gone to init, and init has been
  woken when one of them was a zombie.\<close>

definition adopted :: "nat option \<Rightarrow> nat option \<Rightarrow> proc \<Rightarrow> proc" where
  "adopted me init q = (if p_parent q = me then q\<lparr>p_parent := init\<rparr> else q)"

definition orphan_zombie :: "nat \<Rightarrow> nat option \<Rightarrow> proc list \<Rightarrow> bool" where
  "orphan_zombie k me ps = (\<exists>i < k. p_parent (ps ! i) = me \<and> p_state (ps ! i) = ZOMBIE)"

definition reparented_upto :: "nat \<Rightarrow> nat option \<Rightarrow> nat option \<Rightarrow> proc list \<Rightarrow> proc list" where
  "reparented_upto k me init ps =
     (let qs = map (\<lambda>i. if i < k then adopted me init (ps ! i) else ps ! i) [0..<length ps]
      in case init of Some n \<Rightarrow> if orphan_zombie k me ps then woken (ChanProc n) me qs else qs | None \<Rightarrow> qs)"

lemma length_reparented_upto [simp]: "length (reparented_upto k me init ps) = length ps"
  by (simp add: reparented_upto_def Let_def split: option.split)

lemma nth_reparented_upto:
  "i < length ps \<Longrightarrow> reparented_upto k me init ps ! i =
    (let q = if i < k then adopted me init (ps ! i) else ps ! i
     in case init of Some n \<Rightarrow> if orphan_zombie k me ps \<and> Some i \<noteq> me then woken_proc (ChanProc n) q else q | None \<Rightarrow> q)"
  by (auto simp: reparented_upto_def Let_def nth_woken split: option.split)

lemma orphan_zombie_Suc: "orphan_zombie (Suc k) me ps \<longleftrightarrow> orphan_zombie k me ps \<or> p_parent (ps ! k) = me \<and> p_state (ps ! k) = ZOMBIE"
  by (auto simp: orphan_zombie_def less_Suc_eq)

lemma woken_proc_adopted:
  "woken_proc chn (adopted me init q) = adopted me init (woken_proc chn q)" "woken_proc chn (woken_proc chn q) = woken_proc chn q"
  "woken_proc chn (q\<lparr>p_parent := x\<rparr>) = (woken_proc chn q)\<lparr>p_parent := x\<rparr>"
  by (simp_all add: woken_proc_def adopted_def)

lemma reparented_fields:
  assumes "i < length ps" and "k \<le> i"
  shows "p_parent (reparented_upto k me init ps ! i) = p_parent (ps ! i)"
    and "p_state (reparented_upto k me init ps ! i) = ZOMBIE \<longleftrightarrow> p_state (ps ! i) = ZOMBIE"
  using assms by (auto simp: nth_reparented_upto Let_def woken_proc_pages split: option.split)

text \<open>One slot of the loop, on the list of processes.\<close>

lemma reparented_step:
  fixes me init :: "nat option"
  assumes k: "k < length ps"
  defines "rs \<equiv> reparented_upto k me init ps"
  shows "p_parent (ps ! k) \<noteq> me \<Longrightarrow> reparented_upto (Suc k) me init ps = rs"
    and "p_parent (ps ! k) = me \<Longrightarrow> init = Some n \<and> p_state (ps ! k) = ZOMBIE \<Longrightarrow>
      reparented_upto (Suc k) me init ps = woken (ChanProc n) me (rs[k := (rs ! k)\<lparr>p_parent := init\<rparr>])"
    and "p_parent (ps ! k) = me \<Longrightarrow> init = None \<or> p_state (ps ! k) \<noteq> ZOMBIE \<Longrightarrow>
      reparented_upto (Suc k) me init ps = rs[k := (rs ! k)\<lparr>p_parent := init\<rparr>]"
  using k unfolding rs_def
  by (auto intro!: nth_equalityI simp: nth_reparented_upto Let_def nth_woken nth_list_update orphan_zombie_Suc less_Suc_eq
      adopted_def woken_proc_adopted split: option.split)

lemma wp_reparent:
  assumes h: "hart H e me s" and n: "length (k_procs s) = NPROC" "\<And>j. Some j \<noteq> me \<Longrightarrow> ProcLock j \<notin> H"
    and Q: "\<And>s'. hart H e me s' \<Longrightarrow> data s' = (data s)\<lparr>k_procs := reparented_upto NPROC me (k_initproc s) (k_procs s)\<rparr> \<Longrightarrow>
      k_uart s' = k_uart s \<Longrightarrow> Q () s'"
  shows "wp (reparent me) Q s"
  unfolding reparent_def
proof (rule wp_forM_upt [where I = "\<lambda>k s'. hart H e me s' \<and> k_uart s' = k_uart s \<and>
    data s' = (data s)\<lparr>k_procs := reparented_upto k me (k_initproc s) (k_procs s)\<rparr>"], goal_cases)
  case 1
  have "reparented_upto 0 me init ps = ps" for init ps
    by (auto simp: reparented_upto_def orphan_zombie_def map_nth split: option.split)
  then show ?case using h by (simp add: data_def)
next
  case (2 k t)
  let ?init = "k_initproc s" and ?ps = "k_procs s"
  let ?rs = "reparented_upto k me ?init ?ps"
  have ht: "hart H e me t" "k_uart t = k_uart s" and d: "data t = (data s)\<lparr>k_procs := ?rs\<rparr>" using 2 by simp_all
  have pr: "k_procs t = ?rs" and init: "k_initproc t = ?init"
    using d [THEN arg_cong, of k_procs] d [THEN arg_cong, of k_initproc] by simp_all
  have k: "k < length ?ps" using 2 n by simp
  note f = reparented_fields [OF k order_refl, of me ?init] and step = reparented_step [OF k, of me ?init]
  let ?t = "t\<lparr>k_procs := ?rs[k := (?rs ! k)\<lparr>p_parent := ?init\<rparr>]\<rparr>"
  show ?case
  proof (cases "p_parent (?ps ! k) = me")
    case False
    then show ?thesis unfolding wp_simps using k pr f ht d step(1) by (intro wp_proc_read) simp_all
  next
    case True
    have "wp (case ?init of None \<Rightarrow> ret () | Some n \<Rightarrow> whenM (p_state (?rs ! k) = ZOMBIE) (wakeup (ChanProc n)))
        (\<lambda>_ s'. hart H e me s' \<and> k_uart s' = k_uart s \<and> data s' = (data s)\<lparr>k_procs := reparented_upto (Suc k) me ?init ?ps\<rparr>) ?t"
    proof (cases "\<exists>n. ?init = Some n \<and> p_state (?ps ! k) = ZOMBIE")
      case False
      then show ?thesis using ht d f step(3) [OF True] by (auto simp: wp_simps split: option.split)
    next
      case z: True
      then obtain m where m: "?init = Some m" "p_state (?ps ! k) = ZOMBIE" by blast
      have "wp (wakeup (ChanProc m)) (\<lambda>_ s'. hart H e me s' \<and> k_uart s' = k_uart s \<and> data s' = (data s)\<lparr>k_procs := reparented_upto (Suc k) me ?init ?ps\<rparr>) ?t"
        by (rule wp_wakeup) (use ht d n step(2) [OF True conjI [OF m]] in simp_all)
      then show ?thesis using m f by (simp add: wp_simps)
    qed
    then show ?thesis using k pr init True f by (simp add: wp_def exec_simps)
  qed
next
  case (3 t)
  then show ?case using Q by simp
qed

text \<open>What \<open>exit_process\<close> leaves of the table when process \<open>p\<close> gives up the processor.\<close>

definition zombie :: "i32 \<Rightarrow> proc \<Rightarrow> proc" where
  "zombie status q = q\<lparr>p_xstate := status, p_state := ZOMBIE\<rparr>"

definition left_behind :: "nat \<Rightarrow> nat option \<Rightarrow> proc list \<Rightarrow> proc list" where
  "left_behind p init ps =
     (let qs = reparented_upto (length ps) (Some p) init ps
      in case p_parent (qs ! p) of None \<Rightarrow> qs | Some q \<Rightarrow> woken (ChanProc q) (Some p) qs)"

lemma length_left_behind [simp]: "length (left_behind p init ps) = length ps"
  by (simp add: left_behind_def Let_def split: option.split)

lemma wp_exit_process:
  assumes h: "hart {} e (Some p) s" and n: "length (k_procs s) = NPROC" "p < NPROC" and init: "k_initproc s \<noteq> Some p"
    and Q: "\<And>s'. hart {ProcLock p} e (Some p) s' \<Longrightarrow>
      data s' = switched p regs (zombie status) ((data s)\<lparr>k_procs := left_behind p (k_initproc s) (k_procs s)\<rparr>) \<Longrightarrow>
      Q (p, e, cpu_context (cpu0 s)) s'"
  shows "wp (exit_process status regs) Q s"
proof -
  let ?init = "k_initproc s" and ?ps = "k_procs s"
  let ?rs = "reparented_upto NPROC (Some p) ?init ?ps" and ?ls = "left_behind p ?init ?ps"
  have at: "data t = (data s)\<lparr>k_procs := xs\<rparr> \<Longrightarrow> k_procs t = xs \<and> k_initproc t = ?init \<and> cpu_context (cpu0 t) = cpu_context (cpu0 s)" for t xs
    by (drule arg_cong [where f = "\<lambda>d. (k_procs d, k_initproc d, cpu_context (cpu0 d))"]) simp
  obtain s1 where s1: "myproc s = Ok (Some p) s1" "hart {} e (Some p) s1" "data s1 = data s"
    by (rule wpE [OF wp_myproc [OF h, where Q = "\<lambda>r s'. r = Some p \<and> hart {} e (Some p) s' \<and> data s' = data s"]]) auto
  obtain s2 where s2: "acquire WaitLock s1 = Ok () s2" "hart {WaitLock} e (Some p) s2" "data s2 = data s"
    by (rule wpE [OF wp_acquire [OF s1(2), where lk = WaitLock and Q = "\<lambda>_ s'. hart {WaitLock} e (Some p) s' \<and> data s' = data s"]])
       (use s1(3) in auto)
  note d1 = data_eqD [OF s1(3)] and d2 = data_eqD [OF s2(3)]
  obtain s3 where s3: "reparent (Some p) s2 = Ok () s3" "hart {WaitLock} e (Some p) s3" "data s3 = (data s)\<lparr>k_procs := ?rs\<rparr>"
    by (rule wpE [OF wp_reparent [OF s2(2), where Q = "\<lambda>_ s'. hart {WaitLock} e (Some p) s' \<and> data s' = (data s)\<lparr>k_procs := ?rs\<rparr>"]])
       (use n d2 s2(3) in auto)
  obtain s4 where s4: "(case p_parent (?rs ! p) of None \<Rightarrow> ret () | Some q \<Rightarrow> wakeup (ChanProc q)) s3 = Ok () s4"
    "hart {WaitLock} e (Some p) s4" "data s4 = (data s)\<lparr>k_procs := ?ls\<rparr>"
  proof (cases "p_parent (?rs ! p)")
    case None
    then show ?thesis using that s3 n by (auto simp: ret_def left_behind_def)
  next
    case (Some q)
    show ?thesis
      by (rule wpE [OF wp_wakeup [OF s3(2), where chn = "ChanProc q" and Q = "\<lambda>_ s'. hart {WaitLock} e (Some p) s' \<and> data s' = (data s)\<lparr>k_procs := ?ls\<rparr>"]])
         (use that Some at [OF s3(3)] s3 n in \<open>auto simp: left_behind_def\<close>)
  qed
  obtain s5 where s5: "acquire (ProcLock p) s4 = Ok () s5" "hart {ProcLock p, WaitLock} e (Some p) s5" "data s5 = data s4"
    by (rule wpE [OF wp_acquire [OF s4(2), where lk = "ProcLock p" and Q = "\<lambda>_ s'. hart {ProcLock p, WaitLock} e (Some p) s' \<and> data s' = data s4"]]) auto
  have p: "p < length ?ls" using n by simp
  have e5: "k_procs s5 = ?ls" "cpu_context (cpu0 s5) = cpu_context (cpu0 s)" using at [of s5 ?ls] s5(3) s4(3) by simp_all
  let ?s6 = "s5\<lparr>k_procs := ?ls[p := zombie status (?ls ! p)]\<rparr>"
  obtain s7 where s7: "release WaitLock ?s6 = Ok () s7" "hart {ProcLock p} e (Some p) s7" "data s7 = data ?s6"
    by (rule wpE [OF wp_release [where s = ?s6 and H = "{ProcLock p, WaitLock}" and e = e and c = "Some p" and lk = WaitLock and
        Q = "\<lambda>_ s'. hart {ProcLock p} e (Some p) s' \<and> data s' = data ?s6"]]) (use s5 in \<open>auto simp: insert_Diff_if\<close>)
  note d7 = data_eqD [OF s7(3)]
  have "wp (sched regs) Q s7"
  proof (rule wp_sched [OF s7(2)])
    fix s'
    assume "hart {ProcLock p} e (Some p) s'" "data s' = switched p regs id (data s7)"
    moreover have "cpu_context (cpu0 s7) = cpu_context (cpu0 s)" using d7(12) e5(2) by simp
    ultimately show "Q (p, e, cpu_context (cpu0 s7)) s'"
      using Q s7(3) s5(3) s4(3) p by (simp add: switched_def zombie_def)
  qed (use d7(6) p in \<open>simp_all add: zombie_def\<close>)
  moreover have "exit_process status regs s = sched regs s7"
    using s1(1) s2(1) s3(1) s4(1) s5(1) s7(1) d1(7) init p e5 at [OF s3(3)] n
    by (simp add: exit_process_def exec_simps zombie_def)
  ultimately show ?thesis by (simp add: wp_def)
qed

section \<open>Wait\<close>

text \<open>The child a scan of the slots \<open>js\<close> reaps: the first one that is a zombie.\<close>

definition zombie_child :: "nat option \<Rightarrow> nat list \<Rightarrow> proc list \<Rightarrow> nat option" where
  "zombie_child me js ps = find (\<lambda>i. p_parent (ps ! i) = me \<and> p_state (ps ! i) = ZOMBIE) js"

definition has_kid :: "nat option \<Rightarrow> nat list \<Rightarrow> proc list \<Rightarrow> bool" where
  "has_kid me js ps = (\<exists>i \<in> set js. p_parent (ps ! i) = me)"

lemma zombie_child_Some: "zombie_child me js ps = Some z \<Longrightarrow> z \<in> set js \<and> p_parent (ps ! z) = me \<and> p_state (ps ! z) = ZOMBIE"
  unfolding zombie_child_def find_Some_iff by auto

text \<open>A scan that finds no zombie only reads.\<close>

lemma wp_wait_scan_none:
  assumes "hart {WaitLock} e c s" and "\<And>j. j \<in> set js \<Longrightarrow> j < length (k_procs s)" and "zombie_child me js (k_procs s) = None"
    and "\<And>s'. hart {WaitLock} e c s' \<Longrightarrow> data s' = data s \<Longrightarrow> k_uart s' = k_uart s \<Longrightarrow>
      Q (Inr (hk \<or> has_kid me js (k_procs s))) s'"
  shows "wp (wait_scan me js hk) Q s"
  using assms
proof (induction js arbitrary: hk s)
  case Nil
  then show ?case by (simp add: wp_def has_kid_def)
next
  case (Cons i js)
  have i: "i < length (k_procs s)" using Cons.prems(2) by simp
  have none: "zombie_child me js (k_procs s) = None" "\<not> (p_parent (k_procs s ! i) = me \<and> p_state (k_procs s ! i) = ZOMBIE)"
    using Cons.prems(3) by (auto simp: zombie_child_def split: if_splits)
  show ?case
  proof (cases "p_parent (k_procs s ! i) = me")
    case False
    have "wp (wait_scan me js hk) Q s"
      using Cons.prems none False by (intro Cons.IH) (auto simp: has_kid_def)
    then show ?thesis using False i by (simp add: wp_def exec_simps)
  next
    case True
    obtain s1 where s1: "acquire (ProcLock i) s = Ok () s1" "hart {ProcLock i, WaitLock} e c s1" "data s1 = data s" "k_uart s1 = k_uart s"
      by (rule wpE [OF wp_acquire [OF Cons.prems(1), where lk = "ProcLock i" and
          Q = "\<lambda>_ s'. hart {ProcLock i, WaitLock} e c s' \<and> data s' = data s \<and> k_uart s' = k_uart s"]]) auto
    obtain s2 where s2: "release (ProcLock i) s1 = Ok () s2" "hart {WaitLock} e c s2" "data s2 = data s" "k_uart s2 = k_uart s"
      by (rule wpE [OF wp_release [OF s1(2), where lk = "ProcLock i" and
          Q = "\<lambda>_ s'. hart {WaitLock} e c s' \<and> data s' = data s \<and> k_uart s' = k_uart s"]])
         (use s1 in \<open>auto simp: insert_Diff_if\<close>)
    note d1 = data_eqD(6) [OF s1(3)] and d2 = data_eqD(6) [OF s2(3)]
    have "wp (wait_scan me js True) Q s2"
      using Cons.prems none True s2 d2 by (intro Cons.IH) (auto simp: has_kid_def)
    then show ?thesis using True none i s1(1) s2(1) d1 by (simp add: wp_def exec_simps)
  qed
qed

text \<open>The head of a scan that is a zombie child is reaped, and both locks are let go.\<close>

lemma wp_wait_scan_head:
  assumes h: "hart {WaitLock} e c s" and pt: "ptable U s xs" and z: "z < NPROC" "p_parent (k_procs s ! z) = me" "p_state (k_procs s ! z) = ZOMBIE"
    and Q: "\<And>s' ys. hart {} e c s' \<Longrightarrow> ptable U s' ys \<Longrightarrow> set ys = set xs \<union> proc_pages s (k_procs s ! z) \<Longrightarrow>
      k_procs s' = (k_procs s)[z := cleared (k_procs s ! z)] \<Longrightarrow> slot_step z (proc_pages s (k_procs s ! z)) s s' \<Longrightarrow>
      Q (Inl (p_pid (k_procs s ! z), p_xstate (k_procs s ! z))) s'"
  shows "wp (wait_scan me (z # js) hk) Q s"
proof -
  let ?p = "k_procs s ! z" and ?H = "{ProcLock z, WaitLock}"
  have len: "z < length (k_procs s)" using pt z by (simp add: ptable_def)
  obtain s1 where s1: "acquire (ProcLock z) s = Ok () s1" "hart ?H e c s1" "data s1 = data s"
    by (rule wpE [OF wp_acquire [OF h, where lk = "ProcLock z" and Q = "\<lambda>_ s'. hart ?H e c s' \<and> data s' = data s"]]) auto
  note d1 = data_eqD(6) [OF s1(3)] and pg = proc_ok_data(3) [OF s1(3)] and pt1 = ptable_data [OF s1(3)]
  obtain s2 ys where s2: "free_process z s1 = Ok () s2" "hart ?H e c s2" "ptable U s2 ys" "set ys = set xs \<union> proc_pages s ?p"
      "k_procs s2 = (k_procs s)[z := cleared ?p]" "slot_step z (proc_pages s ?p) s1 s2"
    by (rule wpE [OF wp_free_process [OF s1(2), where i = z and xs = xs and Q = "\<lambda>_ s'. \<exists>ys. hart ?H e c s' \<and> ptable U s' ys
        \<and> set ys = set xs \<union> proc_pages s ?p \<and> k_procs s' = (k_procs s)[z := cleared ?p] \<and> slot_step z (proc_pages s ?p) s1 s'"]])
       (use pt pt1 z d1 pg in auto)
  have "wp (seqM (release (ProcLock z)) (release WaitLock)) (\<lambda>_ s'. hart {} e c s' \<and> data s' = data s2) s2"
    unfolding wp_simps by (rule wp_release [OF s2(2)], simp, rule wp_release, assumption) (auto simp: insert_Diff_if)
  then obtain s3 s4 where s3: "release (ProcLock z) s2 = Ok () s3" "release WaitLock s3 = Ok () s4" and
      s4: "hart {} e c s4" "data s4 = data s2"
    unfolding wp_simps by (auto simp: wp_def)
  have "slot_step z (proc_pages s ?p) s s4"
    using slot_step_trans [OF slot_step_trans [OF slot_step_data [OF s1(3)] s2(6)] slot_step_data [OF s4(2)]] by simp
  with Q [OF s4(1)] s2 ptable_data [OF s4(2)] data_eqD(6) [OF s4(2)] have "Q (Inl (p_pid ?p, p_xstate ?p)) s4" by simp
  then show ?thesis using z len s1(1) s2(1) s3 d1 by (simp add: wp_def exec_simps)
qed

lemma wait_scan_append:
  "wait_scan me as hk s = Ok (Inr hk') s' \<Longrightarrow> wait_scan me (as @ bs) hk s = wait_scan me bs hk' s'"
proof (induction me as hk s rule: wait_scan.induct)
  case (2 me i "is" hk s)
  then show ?case by (auto simp: exec_simps split: res.splits if_splits)
qed simp

lemma zombie_child_split:
  "zombie_child me js ps = Some z \<Longrightarrow> \<exists>as bs. js = as @ z # bs \<and> zombie_child me as ps = None"
proof (induction js)
  case (Cons i js)
  show ?case
  proof (cases "p_parent (ps ! i) = me \<and> p_state (ps ! i) = ZOMBIE")
    case True
    then have "i # js = [] @ z # js" "zombie_child me [] ps = None" using Cons.prems by (simp_all add: zombie_child_def)
    then show ?thesis by blast
  next
    case False
    then have "zombie_child me js ps = Some z" using Cons.prems by (auto simp: zombie_child_def)
    from Cons.IH [OF this] obtain as bs where "i # js = (i # as) @ z # bs" "zombie_child me as ps = None" by auto
    moreover from False this(2) have "zombie_child me (i # as) ps = None" by (auto simp: zombie_child_def)
    ultimately show ?thesis by blast
  qed
qed (simp add: zombie_child_def)

lemma wp_wait_scan_reap:
  assumes h: "hart {WaitLock} e c s" and pt: "ptable U s xs" and js: "\<And>j. j \<in> set js \<Longrightarrow> j < NPROC"
    and z: "zombie_child me js (k_procs s) = Some z"
    and Q: "\<And>s' ys. hart {} e c s' \<Longrightarrow> ptable U s' ys \<Longrightarrow> set ys = set xs \<union> proc_pages s (k_procs s ! z) \<Longrightarrow>
      k_procs s' = (k_procs s)[z := cleared (k_procs s ! z)] \<Longrightarrow> slot_step z (proc_pages s (k_procs s ! z)) s s' \<Longrightarrow>
      Q (Inl (p_pid (k_procs s ! z), p_xstate (k_procs s ! z))) s'"
  shows "wp (wait_scan me js hk) Q s"
proof -
  obtain as bs where split: "js = as @ z # bs" "zombie_child me as (k_procs s) = None" using zombie_child_split [OF z] by blast
  have len: "length (k_procs s) = NPROC" using pt by (simp add: ptable_def)
  obtain hk' s1 where s1: "wait_scan me as hk s = Ok (Inr hk') s1" "hart {WaitLock} e c s1" "data s1 = data s"
    by (rule wpE [OF wp_wait_scan_none [OF h _ split(2), where
        Q = "\<lambda>r s'. \<exists>b. r = Inr b \<and> hart {WaitLock} e c s' \<and> data s' = data s"]]) (use js split len in auto)
  note d = data_eqD(6) [OF s1(3)] proc_ok_data(3) [OF s1(3)] ptable_data [OF s1(3)]
  have "wp (wait_scan me (z # bs) hk') Q s1"
  proof (rule wp_wait_scan_head [OF s1(2)])
    fix s' ys
    assume *: "hart {} e c s'" "ptable U s' ys" "set ys = set xs \<union> proc_pages s1 (k_procs s1 ! z)"
      "k_procs s' = (k_procs s1)[z := cleared (k_procs s1 ! z)]" "slot_step z (proc_pages s1 (k_procs s1 ! z)) s1 s'"
    have "slot_step z (proc_pages s (k_procs s ! z)) s s'"
      using slot_step_trans [OF slot_step_data [OF s1(3)] *(5)] by (simp add: d)
    with Q [OF *(1,2)] *(3,4) show "Q (Inl (p_pid (k_procs s1 ! z), p_xstate (k_procs s1 ! z))) s'" by (simp add: d)
  qed (use zombie_child_Some [OF z] js pt d in auto)
  with wait_scan_append [OF s1(1)] split(1) show ?thesis by (simp add: wp_def)
qed

lemma wait_scan_none_run:
  assumes "hart {WaitLock} e c s" and "length (k_procs s) = NPROC" and "zombie_child me [0..<NPROC] (k_procs s) = None"
  obtains s1 where "wait_scan me [0..<NPROC] False s = Ok (Inr (has_kid me [0..<NPROC] (k_procs s))) s1"
    "hart {WaitLock} e c s1" "data s1 = data s" "k_uart s1 = k_uart s"
  by (rule wpE [OF wp_wait_scan_none [OF assms(1) _ assms(3), where hk = False and
      Q = "\<lambda>r s'. r = Inr (has_kid me [0..<NPROC] (k_procs s)) \<and> hart {WaitLock} e c s' \<and> data s' = data s \<and> k_uart s' = k_uart s"]])
     (use assms(2) in auto)

text \<open>The three ways a round of \<open>wait_process\<close> ends.\<close>

lemma wp_wait_reap:
  assumes h: "hart {WaitLock} e c s" and pt: "ptable U s xs" and z: "zombie_child me [0..<NPROC] (k_procs s) = Some z"
    and Q: "\<And>s' ys. hart {} e c s' \<Longrightarrow> ptable U s' ys \<Longrightarrow> set ys = set xs \<union> proc_pages s (k_procs s ! z) \<Longrightarrow>
      k_procs s' = (k_procs s)[z := cleared (k_procs s ! z)] \<Longrightarrow> slot_step z (proc_pages s (k_procs s ! z)) s s' \<Longrightarrow>
      Q (Waited (p_pid (k_procs s ! z)) (if want then Some (p_xstate (k_procs s ! z)) else None)) s'"
  shows "wp (wait_round me want regs) Q s"
  unfolding wait_round_def wp_bindM
  by (rule wp_wait_scan_reap [OF h pt _ z]) (use Q in \<open>simp_all add: wp_ret\<close>)

lemma wp_wait_none:
  assumes h: "hart {WaitLock} e c s" and len: "length (k_procs s) = NPROC" and z: "zombie_child (Some p) [0..<NPROC] (k_procs s) = None"
    and stop: "p < NPROC" "\<not> has_kid (Some p) [0..<NPROC] (k_procs s) \<or> p_killed (k_procs s ! p) \<noteq> 0"
    and Q: "\<And>s'. hart {} e c s' \<Longrightarrow> data s' = data s \<Longrightarrow> k_uart s' = k_uart s \<Longrightarrow> Q (Waited (-1) None) s'"
  shows "wp (wait_round (Some p) want regs) Q s"
proof -
  obtain s1 where s1: "wait_scan (Some p) [0..<NPROC] False s = Ok (Inr (has_kid (Some p) [0..<NPROC] (k_procs s))) s1"
      "hart {WaitLock} e c s1" "data s1 = data s" "k_uart s1 = k_uart s"
    by (rule wait_scan_none_run [OF h len z])
  have "wp (release WaitLock) (\<lambda>_. Q (Waited (-1) None)) s1"
    by (rule wp_release [OF s1(2)]) (use Q s1 in simp_all)
  then show ?thesis
    using s1(1) stop data_eqD(6) [OF s1(3)] len by (auto simp: wp_def wait_round_def exec_simps)
qed

lemma wp_wait_sleep:
  assumes h: "hart {WaitLock} e (Some p) s" and len: "length (k_procs s) = NPROC" and z: "zombie_child (Some p) [0..<NPROC] (k_procs s) = None"
    and go: "p < NPROC" "has_kid (Some p) [0..<NPROC] (k_procs s)" "p_killed (k_procs s ! p) = 0"
    and Q: "\<And>s'. hart {ProcLock p} e (Some p) s' \<Longrightarrow> data s' = switched p regs (asleep (ChanProc p)) (data s) \<Longrightarrow> k_uart s' = k_uart s \<Longrightarrow>
      Q (Asleep p e (cpu_context (cpu0 s))) s'"
  shows "wp (wait_round (Some p) want regs) Q s"
proof -
  obtain s1 where s1: "wait_scan (Some p) [0..<NPROC] False s = Ok (Inr (has_kid (Some p) [0..<NPROC] (k_procs s))) s1"
      "hart {WaitLock} e (Some p) s1" "data s1 = data s" "k_uart s1 = k_uart s"
    by (rule wait_scan_none_run [OF h len z])
  note d = data_eqD [OF s1(3)]
  have "wp (sleep (ChanProc p) (Some WaitLock) regs) (\<lambda>(q, intena, r). Q (Asleep q intena r)) s1"
    by (rule wp_sleep [OF s1(2)]) (use go len d(6,12) s1(3,4) Q in simp_all)
  then show ?thesis
    using s1(1) go d(6) len by (auto simp: wp_def wait_round_def exec_simps)
qed

lemma wp_wait_process:
  assumes h: "hart {} e c s" and round: "\<And>s'. hart {WaitLock} e c s' \<Longrightarrow> data s' = data s \<Longrightarrow> k_uart s' = k_uart s \<Longrightarrow> wp (wait_round c want regs) Q s'"
  shows "wp (wait_process want regs) Q s"
  unfolding wait_process_def wp_simps
  by (rule wp_myproc [OF h], rule wp_acquire, assumption) (use round in simp_all)

section \<open>The scheduler\<close>

lemma wp_scheduler_visit_idle:
  assumes h: "hart {} e c s" and i: "i < length (k_procs s)" "p_state (k_procs s ! i) \<noteq> RUNNABLE"
    and Q: "\<And>s'. hart {} e c s' \<Longrightarrow> data s' = data s \<Longrightarrow> k_uart s' = k_uart s \<Longrightarrow> Q None s'"
  shows "wp (scheduler_visit i regs) Q s"
proof -
  obtain s1 where s1: "acquire (ProcLock i) s = Ok () s1" "hart {ProcLock i} e c s1" "data s1 = data s" "k_uart s1 = k_uart s"
    by (rule wpE [OF wp_acquire [OF h, where lk = "ProcLock i" and Q = "\<lambda>_ s'. hart {ProcLock i} e c s' \<and> data s' = data s \<and> k_uart s' = k_uart s"]]) auto
  have "wp (release (ProcLock i)) (\<lambda>_. Q None) s1" by (rule wp_release [OF s1(2)]) (use s1 Q in simp_all)
  then show ?thesis using s1(1) i data_eqD(6) [OF s1(3)] by (auto simp: wp_def scheduler_visit_def exec_simps)
qed

text \<open>Switching to process \<open>i\<close>: its state, the current process and the scheduler's context change.\<close>

definition dispatched :: "nat \<Rightarrow> kcontext \<Rightarrow> kstate \<Rightarrow> kstate" where
  "dispatched i regs s = (data s)\<lparr>k_cpus := [zero_cpu\<lparr>cpu_context := regs\<rparr>],
     k_procs := (k_procs s)[i := (k_procs s ! i)\<lparr>p_state := RUNNING\<rparr>]\<rparr>"

lemma wp_scheduler_visit_run:
  assumes h: "hart {} e c s" and i: "i < length (k_procs s)" "p_state (k_procs s ! i) = RUNNABLE"
    and Q: "\<And>s'. hart {ProcLock i} e (Some i) s' \<Longrightarrow> data s' = dispatched i regs s \<Longrightarrow> k_uart s' = k_uart s \<Longrightarrow>
      Q (Some (p_context (k_procs s ! i))) s'"
  shows "wp (scheduler_visit i regs) Q s"
proof -
  obtain s1 where s1: "acquire (ProcLock i) s = Ok () s1" "hart {ProcLock i} e c s1" "data s1 = data s" "k_uart s1 = k_uart s"
    by (rule wpE [OF wp_acquire [OF h, where lk = "ProcLock i" and Q = "\<lambda>_ s'. hart {ProcLock i} e c s' \<and> data s' = data s \<and> k_uart s' = k_uart s"]]) auto
  note d = data_eqD [OF s1(3)]
  let ?f = "\<lambda>c. c\<lparr>cpu_proc := Some i, cpu_context := regs\<rparr>"
  let ?s2 = "on_cpu0 ?f (s1\<lparr>k_procs := (k_procs s)[i := (k_procs s ! i)\<lparr>p_state := RUNNING\<rparr>]\<rparr>)"
  have one: "one_cpu s1" using hartD(1) [OF s1(2)] by (rule cpu_wf_one_cpu)
  have run: "scheduler_visit i regs s = Ok (Some (p_context (k_procs s ! i))) ?s2"
    using s1(1) i d(6) one by (simp add: scheduler_visit_def swtch_def exec_simps) (simp add: on_cpu0_def cpu0_def)
  have h2: "hart {ProcLock i} e (Some i) ?s2"
    using hart_on_cpu0 [where H = "{ProcLock i}" and e = e and c = c and e' = e and f = ?f and s = "s1\<lparr>k_procs := (k_procs s)[i := (k_procs s ! i)\<lparr>p_state := RUNNING\<rparr>]\<rparr>"] s1(2)
    by (simp add: hart_def)
  have "data ?s2 = dispatched i regs s"
    using s1(3) by (simp add: dispatched_def data_on_cpu0)
  moreover have "k_uart ?s2 = k_uart s" using s1(4) by simp
  ultimately show ?thesis using Q [OF h2] run by (simp add: wp_def)
qed

lemma wp_scheduler_return:
  assumes h: "hart {ProcLock i} e c s" and Q: "\<And>s'. hart {} e None s' \<Longrightarrow> data s' = data s \<Longrightarrow> k_uart s' = k_uart s \<Longrightarrow> Q () s'"
  shows "wp (scheduler_return i) Q s"
  unfolding scheduler_return_def wp_simps
proof (rule wp_mycpu_write [OF h], rule wp_release)
  have "cpu_intena (cpu0 s) = e" using h by (simp add: hart_def)
  then show "hart {ProcLock i} e None (on_cpu0 (\<lambda>c. c\<lparr>cpu_proc := None\<rparr>) s)"
    using hart_on_cpu0 [OF h, of "\<lambda>c. c\<lparr>cpu_proc := None\<rparr>" e] by simp
qed (use Q in simp_all)

section \<open>Properties\<close>

text \<open>A machine with one live process, in a given state.\<close>

lemma pool_slot:
  assumes "st \<noteq> UNUSED"
  obtains s ys where "hart {} e c s" "ptable (set pool_pages) s ys" "p_state (k_procs s ! 0) = st" "p_chan (k_procs s ! 0) = chn" "p_parent (k_procs s ! 0) = c"
proof -
  obtain s ys where s: "hart {} e c s" "ptable (set pool_pages) s ys" "p_state (k_procs s ! 0) = RUNNABLE" "p_parent (k_procs s ! 0) = c" by (rule pool_created)
  let ?p = "(k_procs s ! 0)\<lparr>p_state := st, p_chan := chn\<rparr>"
  have n: "0 < NPROC" "length (k_procs s) = NPROC" using s(2) by (simp_all add: ptable_def NPROC_def)
  have "ptable (set pool_pages) (s\<lparr>k_procs := (k_procs s)[0 := ?p]\<rparr>) ys" by (rule ptable_update [OF s(2) n(1)]) (simp add: same_pages_def s(3) assms)
  then show ?thesis using that [of "s\<lparr>k_procs := (k_procs s)[0 := ?p]\<rparr>" ys] s(1,4) n by simp
qed

text \<open>C20. \<open>wakeup\<close> makes exactly the processes runnable that sleep on the channel, the caller excepted;
  it changes nothing else, keeps page ownership and prints nothing.\<close>

theorem wakeup_wakes_sleepers:
  assumes "hart H e c s" and "ptable U s xs" and "\<And>j. Some j \<noteq> c \<Longrightarrow> ProcLock j \<notin> H"
  shows "\<exists>s'. wakeup chn s = Ok () s' \<and> hart H e c s' \<and> ptable U s' xs \<and> k_uart s' = k_uart s \<and> k_mem s' = k_mem s
     \<and> (\<forall>i < NPROC. k_procs s' ! i = (if Some i \<noteq> c \<and> p_state (k_procs s ! i) = SLEEPING \<and> p_chan (k_procs s ! i) = chn
          then (k_procs s ! i)\<lparr>p_state := RUNNABLE\<rparr> else k_procs s ! i))"
proof -
  have len: "length (k_procs s) = NPROC" using assms(2) by (simp add: ptable_def)
  obtain s' where s': "wakeup chn s = Ok () s'" "hart H e c s'" "data s' = (data s)\<lparr>k_procs := woken chn c (k_procs s)\<rparr>" "k_uart s' = k_uart s"
    by (rule wpE [OF wp_wakeup [OF assms(1) len assms(3), where Q = "\<lambda>_ s'. hart H e c s' \<and> data s' = (data s)\<lparr>k_procs := woken chn c (k_procs s)\<rparr> \<and> k_uart s' = k_uart s"]]) auto
  have "data s' = data (s\<lparr>k_procs := woken chn c (k_procs s)\<rparr>)" using s'(3) by simp
  note d = data_eqD [OF this] and pt = ptable_data [OF this]
  show ?thesis using s' len d pt ptable_woken [OF assms(2)] by (auto simp: nth_woken woken_proc_def)
qed

theorem wakeup_wakes_sleepers_witness:
  "\<exists>s s'. p_state (k_procs s ! 0) = SLEEPING \<and> wakeup ChanTicks s = Ok () s' \<and> p_state (k_procs s' ! 0) = RUNNABLE"
proof -
  obtain s ys where s: "hart {} False None s" "ptable (set pool_pages) s ys" "p_state (k_procs s ! 0) = SLEEPING" "p_chan (k_procs s ! 0) = ChanTicks"
    by (rule pool_slot [where st = SLEEPING and chn = ChanTicks and c = None]) auto
  then show ?thesis using wakeup_wakes_sleepers [OF s(1,2), of ChanTicks] by (auto simp: NPROC_def)
qed

text \<open>C21. \<open>sched\<close> switches to the scheduler's context only from a process that holds its own lock and no
  other and is no longer \<open>RUNNING\<close>; it saves the registers in the process and what \<open>intena\<close> was. In
  every other case it panics before it changes anything but \<open>intena\<close>.\<close>

theorem sched_switches_or_panics:
  assumes "hart H e (Some p) s" and "p < length (k_procs s)"
  shows "\<exists>s'. sched regs s =
       (if ProcLock p \<notin> H then Err (Panic ''sched p->lock'') s'
        else if H \<noteq> {ProcLock p} then Err (Panic ''sched locks'') s'
        else if p_state (k_procs s ! p) = RUNNING then Err (Panic ''sched RUNNING'') s'
        else Ok (p, e, cpu_context (cpu0 s)) s')
     \<and> hart H e (Some p) s'
     \<and> data s' = (if H = {ProcLock p} \<and> p_state (k_procs s ! p) \<noteq> RUNNING then switched p regs id (data s) else data s)"
proof (cases "H = {ProcLock p} \<and> p_state (k_procs s ! p) \<noteq> RUNNING")
  case True
  show ?thesis
    by (rule wpE [OF wp_sched [where regs = regs, OF assms(1) [unfolded conjunct1 [OF True]] assms(2) conjunct2 [OF True], where Q = "\<lambda>r s'. r = (p, e, cpu_context (cpu0 s)) \<and>
        hart {ProcLock p} e (Some p) s' \<and> data s' = switched p regs id (data s)"]]) (use True in auto)
next
  case False
  obtain s1 where s1: "myproc s = Ok (Some p) s1" "hart H e (Some p) s1" "data s1 = data s"
    by (rule wpE [OF wp_myproc [OF assms(1), where Q = "\<lambda>r s'. r = Some p \<and> hart H e (Some p) s' \<and> data s' = data s"]]) auto
  note h1 = hartD [OF s1(2)] and d = data_eqD [OF s1(3)]
  have one: "one_cpu s1" using h1(1) by (rule cpu_wf_one_cpu)
  have "cpu_noff (cpu0 s1) = 1 \<longleftrightarrow> H = {ProcLock p}" if "ProcLock p \<in> H"
    using h1(3,4) that by (auto simp: card_1_singleton_iff)
  then have "sched regs s = (if ProcLock p \<notin> H then Err (Panic ''sched p->lock'') s1
        else if H \<noteq> {ProcLock p} then Err (Panic ''sched locks'') s1 else Err (Panic ''sched RUNNING'') s1)"
    using s1(1) one hart_holding [OF s1(2), of "ProcLock p"] assms(2) d(6) False by (auto simp: sched_def exec_simps)
  then show ?thesis using s1(2,3) False by (intro exI [of _ s1]) auto
qed

theorem sched_switches_or_panics_witness:
  "\<exists>s'. sched zero_context (pool_table (Some 5) True) = Err (Panic ''sched p->lock'') s'"
  using sched_switches_or_panics [OF pool_table_ok(1) [where c = "Some 5" and e = True], of zero_context]
  by (simp add: pool_table_ok(6) NPROC_def) blast

text \<open>\<open>sleep\<close> on one hart: it switches away asleep on the channel with only the lock of the process held;
  when it is switched to again it leaves the channel and takes the caller's lock back. That no wakeup is
  lost on the way, whatever other harts do, is shown in \<open>Wakeups\<close>.\<close>

lemma sleep_until_wakeup:
  assumes "hart {l} e (Some p) s" and "ptable (set pool_pages) s xs" and "p < NPROC" and "p_state (k_procs s ! p) = RUNNING"
  shows "\<exists>s1. sleep chn (Some l) regs s = Ok (p, e, cpu_context (cpu0 s)) s1 \<and> hart {ProcLock p} e (Some p) s1 \<and> ptable (set pool_pages) s1 xs
     \<and> p_state (k_procs s1 ! p) = SLEEPING \<and> p_chan (k_procs s1 ! p) = chn \<and> p_context (k_procs s1 ! p) = regs
     \<and> (\<forall>c. c \<noteq> Some p \<longrightarrow> p_state (woken chn c (k_procs s1) ! p) = RUNNABLE)
     \<and> (\<forall>t e'. hart {ProcLock p} e' (Some p) t \<longrightarrow> length (k_procs t) = NPROC \<longrightarrow>
          (\<exists>t'. sleep_resume p l e t = Ok () t' \<and> hart {l} e (Some p) t' \<and> p_chan (k_procs t' ! p) = NoChan))"
proof -
  have len: "length (k_procs s) = NPROC" using assms(2) by (simp add: ptable_def)
  obtain s1 where s1: "sleep chn (Some l) regs s = Ok (p, e, cpu_context (cpu0 s)) s1" "hart {ProcLock p} e (Some p) s1"
      "data s1 = switched p regs (asleep chn) (data s)"
    by (rule wpE [OF wp_sleep [where chn = chn and regs = regs, OF assms(1), where Q = "\<lambda>r s'. r = (p, e, cpu_context (cpu0 s)) \<and> hart {ProcLock p} e (Some p) s' \<and> data s' = switched p regs (asleep chn) (data s)"]])
       (use assms(3) len in auto)
  have procs: "k_procs s1 = (k_procs s)[p := (asleep chn (k_procs s ! p))\<lparr>p_context := regs\<rparr>]"
    using s1(3) [THEN arg_cong, of k_procs] by (simp add: switched_def)
  let ?t = "s\<lparr>k_procs := (k_procs s)[p := (asleep chn (k_procs s ! p))\<lparr>p_context := regs\<rparr>]\<rparr>"
  have "ptable (set pool_pages) ?t xs" by (rule ptable_update [OF assms(2,3)]) (use assms(4) in \<open>simp add: same_pages_def asleep_def\<close>)
  moreover have "data s1 = data ?t" using s1(3) by (simp add: switched_def)
  ultimately have "ptable (set pool_pages) s1 xs" using ptable_data by blast
  moreover have "\<exists>t'. sleep_resume p l e t = Ok () t' \<and> hart {l} e (Some p) t' \<and> p_chan (k_procs t' ! p) = NoChan"
    if t: "hart {ProcLock p} e' (Some p) t" "length (k_procs t) = NPROC" for t e'
  proof -
    have "wp (sleep_resume p l e) (\<lambda>_ t'. hart {l} e (Some p) t' \<and> p_chan (k_procs t' ! p) = NoChan) t"
    proof (rule wp_sleep_resume [OF t(1)])
      fix t'
      assume t': "hart {l} e (Some p) t'" "data t' = (data t)\<lparr>k_procs := (k_procs t)[p := (k_procs t ! p)\<lparr>p_chan := NoChan\<rparr>]\<rparr>"
      have "k_procs t' = (k_procs t)[p := (k_procs t ! p)\<lparr>p_chan := NoChan\<rparr>]" using t'(2) [THEN arg_cong, of k_procs] by simp
      then show "hart {l} e (Some p) t' \<and> p_chan (k_procs t' ! p) = NoChan" using t'(1) t(2) assms(3) by simp
    qed (use t(2) assms(3) in simp)
    then show ?thesis by (auto simp: wp_def)
  qed
  ultimately show ?thesis using s1(1,2) procs len assms(3) by (auto simp: asleep_def nth_woken woken_proc_def)
qed

lemma sleep_until_wakeup_example:
  "\<exists>s r s1. sleep ChanTicks (Some TicksLock) zero_context s = Ok r s1 \<and> p_state (k_procs s1 ! 0) = SLEEPING \<and> \<not> lock_held s1 TicksLock"
proof -
  obtain s ys where s: "hart {} True (Some 0) s" "ptable (set pool_pages) s ys" "p_state (k_procs s ! 0) = RUNNING"
    by (rule pool_slot [where st = RUNNING and chn = NoChan and c = "Some 0"]) auto
  have "hart {TicksLock} True (Some 0) (acq TicksLock s)" "ptable (set pool_pages) (acq TicksLock s) ys" "p_state (k_procs (acq TicksLock s) ! 0) = RUNNING"
    using hart_acq [OF s(1), of TicksLock] ptable_data [of "acq TicksLock s" s] s(2,3) by simp_all
  then obtain r s1 where s1: "sleep ChanTicks (Some TicksLock) zero_context (acq TicksLock s) = Ok r s1" "hart {ProcLock 0} True (Some 0) s1" "p_state (k_procs s1 ! 0) = SLEEPING"
    using sleep_until_wakeup [of TicksLock True 0 "acq TicksLock s" ys ChanTicks zero_context] by (auto simp: NPROC_def)
  have "\<not> lock_held s1 TicksLock" using hartD(6) [OF s1(2), of TicksLock] by (simp add: lock_free_def lock_held_def)
  with s1 show ?thesis by blast
qed

text \<open>Slots whose pages and whose being unused do not change.\<close>

lemma ptable_similar:
  assumes "ptable U s xs" and "length ps = NPROC"
    and "\<And>i. i < NPROC \<Longrightarrow> ps ! i = k_procs s ! i \<or> same_pages (k_procs s ! i) (ps ! i)"
  shows "ptable U (s\<lparr>k_procs := ps\<rparr>) xs"
proof -
  let ?s = "s\<lparr>k_procs := ps\<rparr>"
  have "proc_ok ?s (ps ! i) \<and> proc_pages ?s (ps ! i) = proc_pages s (k_procs s ! i)" if "i < NPROC" for i
    using assms(3) [OF that] ptableD(3) [OF assms(1) that]
    by (auto simp: same_pages_def proc_ok_def proc_pages_def tables_def space_ok_def translate_def fun_eq_iff)
  then show ?thesis using assms(1,2) owned_cong [of ?s s] by (simp add: ptable_def)
qed

text \<open>What an exiting process leaves behind, slot by slot.\<close>

lemma nth_reparented:
  assumes "i < length ps"
  shows "\<exists>q. reparented_upto (length ps) me init ps ! i = q \<and> (q = adopted me init (ps ! i) \<or> q = woken_proc (ChanProc (the init)) (adopted me init (ps ! i)))"
  using assms by (auto simp: reparented_upto_def Let_def nth_woken split: option.split)

lemma adopted_fields [simp]:
  "p_state (adopted me init q) = p_state q" "p_chan (adopted me init q) = p_chan q" "p_parent (adopted me init q) = (if p_parent q = me then init else p_parent q)"
  "p_trapframe (adopted me init q) = p_trapframe q" "p_pagetable (adopted me init q) = p_pagetable q"
  by (simp_all add: adopted_def)

lemma woken_proc_fields [simp]:
  "p_state (woken_proc chn q) = (if p_state q = SLEEPING \<and> p_chan q = chn then RUNNABLE else p_state q)" "p_chan (woken_proc chn q) = p_chan q"
  "p_parent (woken_proc chn q) = p_parent q" "p_trapframe (woken_proc chn q) = p_trapframe q" "p_pagetable (woken_proc chn q) = p_pagetable q"
  by (simp_all add: woken_proc_def)

lemma nth_left_behind:
  assumes "i < length ps" and "p < length ps"
  shows "p_parent (left_behind p init ps ! i) = (if p_parent (ps ! i) = Some p then init else p_parent (ps ! i))"
    "p_state (left_behind p init ps ! i) = p_state (ps ! i) \<or> p_state (ps ! i) = SLEEPING \<and> p_state (left_behind p init ps ! i) = RUNNABLE"
    "p_trapframe (left_behind p init ps ! i) = p_trapframe (ps ! i)" "p_pagetable (left_behind p init ps ! i) = p_pagetable (ps ! i)"
    "p_parent (ps ! p) = Some i \<Longrightarrow> i \<noteq> p \<Longrightarrow> p_state (ps ! i) = SLEEPING \<Longrightarrow> p_chan (ps ! i) = ChanProc i \<Longrightarrow> p_state (left_behind p init ps ! i) = RUNNABLE"
proof -
  let ?qs = "reparented_upto (length ps) (Some p) init ps"
  have len: "length ?qs = length ps" by (simp add: reparented_upto_def Let_def split: option.split)
  obtain q where q: "?qs ! i = q" "q = adopted (Some p) init (ps ! i) \<or> q = woken_proc (ChanProc (the init)) (adopted (Some p) init (ps ! i))"
    using nth_reparented [OF assms(1)] by blast
  obtain r where r: "?qs ! p = r" "r = adopted (Some p) init (ps ! p) \<or> r = woken_proc (ChanProc (the init)) (adopted (Some p) init (ps ! p))"
    using nth_reparented [OF assms(2)] by blast
  have par: "p_parent (?qs ! p) = (if p_parent (ps ! p) = Some p then init else p_parent (ps ! p))" using r by auto
  have lb: "left_behind p init ps ! i = (case p_parent (?qs ! p) of None \<Rightarrow> q | Some k \<Rightarrow> if i = p then q else woken_proc (ChanProc k) q)"
    using assms(1) len q(1) by (auto simp: left_behind_def nth_woken split: option.split)
  show "p_parent (left_behind p init ps ! i) = (if p_parent (ps ! i) = Some p then init else p_parent (ps ! i))"
    "p_state (left_behind p init ps ! i) = p_state (ps ! i) \<or> p_state (ps ! i) = SLEEPING \<and> p_state (left_behind p init ps ! i) = RUNNABLE"
    "p_trapframe (left_behind p init ps ! i) = p_trapframe (ps ! i)" "p_pagetable (left_behind p init ps ! i) = p_pagetable (ps ! i)"
    using q(2) by (auto simp: lb split: option.split if_split_asm)
  assume "p_parent (ps ! p) = Some i" "i \<noteq> p" "p_state (ps ! i) = SLEEPING" "p_chan (ps ! i) = ChanProc i"
  then show "p_state (left_behind p init ps ! i) = RUNNABLE" using q(2) par by (auto simp: lb split: if_split_asm)
qed

lemma left_behind_unused:
  assumes "i < length ps" and "i \<noteq> p" and "p_state (ps ! i) = UNUSED" and "p_parent (ps ! i) = None"
  shows "left_behind p init ps ! i = ps ! i"
proof -
  have idle: "woken_proc chn (ps ! i) = ps ! i" "adopted (Some p) init (ps ! i) = ps ! i" for chn
    using assms(3,4) by (simp_all add: woken_proc_def adopted_def)
  then have "reparented_upto (length ps) (Some p) init ps ! i = ps ! i" using nth_reparented [OF assms(1), of "Some p" init] by auto
  then show ?thesis using assms(1,2) idle by (simp add: left_behind_def Let_def nth_woken split: option.split)
qed

text \<open>C8. \<open>exit_process\<close> makes the caller a zombie with its exit status and switches away for good: its
  children go to the init process, a parent asleep in \<open>wait_process\<close> is made runnable, and it keeps
  its pages until it is reaped. The init process may not exit.\<close>

theorem exit_process_leaves_zombie:
  assumes "hart {} e (Some p) s" and "ptable U s xs" and "p < NPROC" and "p_state (k_procs s ! p) = RUNNING"
  shows "if k_initproc s = Some p then \<exists>s'. exit_process status regs s = Err (Panic ''init exiting'') s' \<and> data s' = data s
     else \<exists>s'. exit_process status regs s = Ok (p, e, cpu_context (cpu0 s)) s' \<and> hart {ProcLock p} e (Some p) s' \<and> ptable U s' xs
       \<and> p_state (k_procs s' ! p) = ZOMBIE \<and> p_xstate (k_procs s' ! p) = status
       \<and> (\<forall>i < NPROC. p_parent (k_procs s' ! i) = (if p_parent (k_procs s ! i) = Some p then k_initproc s else p_parent (k_procs s ! i)))
       \<and> (\<forall>q < NPROC. p_parent (k_procs s ! p) = Some q \<longrightarrow> q \<noteq> p \<longrightarrow> p_state (k_procs s ! q) = SLEEPING \<longrightarrow>
            p_chan (k_procs s ! q) = ChanProc q \<longrightarrow> p_state (k_procs s' ! q) = RUNNABLE)"
proof (cases "k_initproc s = Some p")
  case True
  obtain s1 where "myproc s = Ok (Some p) s1" "data s1 = data s"
    by (rule wpE [OF wp_myproc [OF assms(1), where Q = "\<lambda>r s'. r = Some p \<and> data s' = data s"]]) auto
  then show ?thesis using True data_eqD(7) [of s1 s] by (simp add: exit_process_def exec_simps)
next
  case False
  have len: "length (k_procs s) = NPROC" using assms(2) by (simp add: ptable_def)
  let ?ls = "left_behind p (k_initproc s) (k_procs s)"
  let ?z = "\<lambda>ls. (zombie status (ls ! p))\<lparr>p_context := regs\<rparr>"
  obtain s' where s': "exit_process status regs s = Ok (p, e, cpu_context (cpu0 s)) s'" "hart {ProcLock p} e (Some p) s'"
      "data s' = switched p regs (zombie status) ((data s)\<lparr>k_procs := ?ls\<rparr>)"
    by (rule wpE [OF wp_exit_process [where status = status and regs = regs, OF assms(1) len assms(3) False, where Q = "\<lambda>r s'. r = (p, e, cpu_context (cpu0 s)) \<and> hart {ProcLock p} e (Some p) s' \<and>
        data s' = switched p regs (zombie status) ((data s)\<lparr>k_procs := ?ls\<rparr>)"]]) auto
  have procs: "k_procs s' = ?ls[p := ?z ?ls]" using s'(3) [THEN arg_cong, of k_procs] by (simp add: switched_def)
  note n = nth_left_behind [where ps = "k_procs s" and p = p and init = "k_initproc s", unfolded len, OF _ assms(3)]
  have "ptable U (s\<lparr>k_procs := ?ls[p := ?z ?ls]\<rparr>) xs"
  proof (rule ptable_similar [OF assms(2)])
    fix i assume i: "i < NPROC"
    show "?ls[p := ?z ?ls] ! i = k_procs s ! i \<or> same_pages (k_procs s ! i) (?ls[p := ?z ?ls] ! i)"
    proof (cases "p_state (k_procs s ! i) = UNUSED")
      case True
      then have "p_parent (k_procs s ! i) = None" "i \<noteq> p" using ptableD(3) [OF assms(2) i] assms(4) by (auto simp: proc_ok_def)
      then show ?thesis using True i len left_behind_unused [of i "k_procs s"] by simp
    next
      case False
      then show ?thesis using n(2-4) [OF i] n(2-4) [OF assms(3)] assms(3,4) i len by (cases "i = p") (auto simp: same_pages_def zombie_def)
    qed
  qed (simp add: len)
  moreover have "data s' = data (s\<lparr>k_procs := ?ls[p := ?z ?ls]\<rparr>)" using s'(3) by (simp add: switched_def)
  ultimately have "ptable U s' xs" using ptable_data by blast
  moreover have "p_parent (k_procs s' ! i) = (if p_parent (k_procs s ! i) = Some p then k_initproc s else p_parent (k_procs s ! i))" if "i < NPROC" for i
    using n(1) [OF that] procs len that by (cases "i = p") (simp_all add: zombie_def)
  ultimately show ?thesis using False s'(1,2) procs len assms(3) n(5) by (auto simp: zombie_def)
qed

theorem exit_process_leaves_zombie_witness:
  "\<exists>s r s'. exit_process 7 zero_context s = Ok r s' \<and> p_state (k_procs s' ! 0) = ZOMBIE \<and> p_xstate (k_procs s' ! 0) = 7"
proof -
  obtain s ys where s: "hart {} True (Some 0) s" "ptable (set pool_pages) s ys" "p_state (k_procs s ! 0) = RUNNING"
    by (rule pool_slot [where st = RUNNING and chn = NoChan and c = "Some 0"]) auto
  let ?s = "s\<lparr>k_initproc := Some 5\<rparr>"
  have "ptable (set pool_pages) ?s ys" using s(2) ptable_cong [of ?s s] by simp
  then show ?thesis
    using exit_process_leaves_zombie [of True 0 ?s "set pool_pages" ys 7 zero_context] s(1,3) by (simp add: NPROC_def) blast
qed

text \<open>C7. \<open>wait_process\<close> reaps the first zombie child: it returns its pid and exit status, the slot is
  unused again and exactly the child's pages are free. Without children, or when the caller has been
  killed, it returns -1; otherwise it sleeps on the caller's own channel, having released
  \<open>wait_lock\<close>.\<close>

theorem wait_process_outcomes:
  assumes "hart {} e (Some p) s" and "ptable U s xs" and "p < NPROC"
  shows "case zombie_child (Some p) [0..<NPROC] (k_procs s) of
      Some z \<Rightarrow> \<exists>s' ys. wait_process True regs s = Ok (Waited (p_pid (k_procs s ! z)) (Some (p_xstate (k_procs s ! z)))) s' \<and> hart {} e (Some p) s'
        \<and> ptable U s' ys \<and> set ys = set xs \<union> proc_pages s (k_procs s ! z) \<and> k_procs s' = (k_procs s)[z := cleared (k_procs s ! z)]
    | None \<Rightarrow> if \<not> has_kid (Some p) [0..<NPROC] (k_procs s) \<or> p_killed (k_procs s ! p) \<noteq> 0
        then \<exists>s'. wait_process True regs s = Ok (Waited (-1) None) s' \<and> hart {} e (Some p) s' \<and> data s' = data s
        else \<exists>s'. wait_process True regs s = Ok (Asleep p e (cpu_context (cpu0 s))) s' \<and> hart {ProcLock p} e (Some p) s'
          \<and> k_procs s' = (k_procs s)[p := (asleep (ChanProc p) (k_procs s ! p))\<lparr>p_context := regs\<rparr>]"
proof (cases "zombie_child (Some p) [0..<NPROC] (k_procs s)")
  case (Some z)
  have "wp (wait_process True regs) (\<lambda>r s'. r = Waited (p_pid (k_procs s ! z)) (Some (p_xstate (k_procs s ! z))) \<and> hart {} e (Some p) s' \<and>
      (\<exists>ys. ptable U s' ys \<and> set ys = set xs \<union> proc_pages s (k_procs s ! z)) \<and> k_procs s' = (k_procs s)[z := cleared (k_procs s ! z)]) s"
  proof (rule wp_wait_process [OF assms(1)])
    fix s1
    assume s1: "hart {WaitLock} e (Some p) s1" "data s1 = data s"
    note d = data_eqD(6) [OF s1(2)] proc_ok_data(3) [OF s1(2)] ptable_data [OF s1(2)]
    show "wp (wait_round (Some p) True regs) (\<lambda>r s'. r = Waited (p_pid (k_procs s ! z)) (Some (p_xstate (k_procs s ! z))) \<and> hart {} e (Some p) s' \<and>
      (\<exists>ys. ptable U s' ys \<and> set ys = set xs \<union> proc_pages s (k_procs s ! z)) \<and> k_procs s' = (k_procs s)[z := cleared (k_procs s ! z)]) s1"
      by (rule wp_wait_reap [OF s1(1), where xs = xs and z = z]) (use d assms(2) Some in auto)
  qed
  then show ?thesis using Some by (auto simp: wp_def)
next
  case None
  have len: "length (k_procs s) = NPROC" using assms(2) by (simp add: ptable_def)
  let ?stop = "\<not> has_kid (Some p) [0..<NPROC] (k_procs s) \<or> p_killed (k_procs s ! p) \<noteq> 0"
  let ?ps = "(k_procs s)[p := (asleep (ChanProc p) (k_procs s ! p))\<lparr>p_context := regs\<rparr>]"
  let ?Q = "\<lambda>r s'. if ?stop then r = Waited (-1) None \<and> hart {} e (Some p) s' \<and> data s' = data s
    else r = Asleep p e (cpu_context (cpu0 s)) \<and> hart {ProcLock p} e (Some p) s' \<and> k_procs s' = ?ps"
  have "wp (wait_process True regs) ?Q s"
  proof (rule wp_wait_process [OF assms(1)])
    fix s1
    assume s1: "hart {WaitLock} e (Some p) s1" "data s1 = data s"
    note d = data_eqD(6,12) [OF s1(2)]
    show "wp (wait_round (Some p) True regs) ?Q s1"
    proof (cases ?stop)
      case True
      then show ?thesis by (intro wp_wait_none [OF s1(1)]) (use d len None assms(3) s1(2) in auto)
    next
      case False
      have procs: "data s2 = switched p regs (asleep (ChanProc p)) (data s1) \<Longrightarrow> k_procs s2 = ?ps" for s2
        by (drule arg_cong [where f = k_procs]) (simp add: switched_def d)
      show ?thesis using False by (intro wp_wait_sleep [OF s1(1)]) (use procs d len None assms(3) in auto)
    qed
  qed
  then show ?thesis using None by (auto simp: wp_def)
qed

theorem wait_process_outcomes_witness:
  "\<exists>s s' pid st. p_state (k_procs s ! 0) = ZOMBIE \<and> wait_process True zero_context s = Ok (Waited pid st) s' \<and> p_state (k_procs s' ! 0) = UNUSED"
proof -
  obtain s ys where s: "hart {} True (Some 5) s" "ptable (set pool_pages) s ys" "p_state (k_procs s ! 0) = ZOMBIE" "p_parent (k_procs s ! 0) = Some 5"
    by (rule pool_slot [where st = ZOMBIE and chn = NoChan and c = "Some 5"]) auto
  have n: "[0..<NPROC] = 0 # [1..<NPROC]" "5 < NPROC" "length (k_procs s) = NPROC" using s(2) by (simp_all add: NPROC_def upt_conv_Cons ptable_def)
  then have "zombie_child (Some 5) [0..<NPROC] (k_procs s) = Some 0" using s(3,4) by (simp add: zombie_child_def)
  then obtain s' where "wait_process True zero_context s = Ok (Waited (p_pid (k_procs s ! 0)) (Some (p_xstate (k_procs s ! 0)))) s'"
      "k_procs s' = (k_procs s)[0 := cleared (k_procs s ! 0)]"
    using wait_process_outcomes [OF s(1,2) n(2), of zero_context] by auto
  moreover from this(2) have "p_state (k_procs s' ! 0) = UNUSED" using n(2,3) by (simp add: cleared_def)
  ultimately show ?thesis using s(3) by blast
qed

text \<open>C22. The scheduler runs a process only if it is runnable: it marks it running and current, loads its
  registers and goes on holding its lock, which the process releases; any other slot is left as it
  is and its lock is free again.\<close>

theorem scheduler_runs_runnable:
  assumes "hart {} e c s" and "i < length (k_procs s)"
  shows "if p_state (k_procs s ! i) = RUNNABLE
     then \<exists>s'. scheduler_visit i regs s = Ok (Some (p_context (k_procs s ! i))) s' \<and> hart {ProcLock i} e (Some i) s'
       \<and> k_procs s' = (k_procs s)[i := (k_procs s ! i)\<lparr>p_state := RUNNING\<rparr>] \<and> cpu_context (cpu0 s') = regs
     else \<exists>s'. scheduler_visit i regs s = Ok None s' \<and> hart {} e c s' \<and> data s' = data s"
proof (cases "p_state (k_procs s ! i) = RUNNABLE")
  case True
  have f: "data s' = dispatched i regs s \<Longrightarrow> k_procs s' = (k_procs s)[i := (k_procs s ! i)\<lparr>p_state := RUNNING\<rparr>] \<and> cpu_context (cpu0 s') = regs" for s'
  proof -
    have "cpu0 (t\<lparr>k_cpus := [x]\<rparr>) = x" for t :: kstate and x by (simp add: cpu0_def)
    then show "data s' = dispatched i regs s \<Longrightarrow> ?thesis"
      by (drule_tac f = "\<lambda>d. (k_procs d, cpu_context (cpu0 d))" in arg_cong) (simp add: dispatched_def)
  qed
  show ?thesis
    by (rule wpE [OF wp_scheduler_visit_run [OF assms True, where regs = regs and Q = "\<lambda>r s'. r = Some (p_context (k_procs s ! i)) \<and> hart {ProcLock i} e (Some i) s' \<and>
        data s' = dispatched i regs s"]]) (use True f in auto)
next
  case False
  show ?thesis
    by (rule wpE [OF wp_scheduler_visit_idle [OF assms False, where regs = regs and Q = "\<lambda>r s'. r = None \<and> hart {} e c s' \<and> data s' = data s"]]) (use False in auto)
qed

theorem scheduler_runs_runnable_witness:
  "\<exists>s r s'. p_state (k_procs s ! 0) = RUNNABLE \<and> scheduler_visit 0 zero_context s = Ok (Some r) s' \<and> p_state (k_procs s' ! 0) = RUNNING"
proof -
  obtain s ys where s: "hart {} False None s" "ptable (set pool_pages) s ys" "p_state (k_procs s ! 0) = RUNNABLE"
    by (rule pool_slot [where st = RUNNABLE and chn = NoChan and c = None]) auto
  have "0 < length (k_procs s)" using s(2) by (simp add: ptable_def NPROC_def)
  then show ?thesis using scheduler_runs_runnable [OF s(1), of 0 zero_context] s(3) by auto
qed

end
