(* ===== verification/Wakeups.thy ===== *)
theory Wakeups
  imports Sched
begin

text \<open>
  \<open>sleep\<close> and \<open>wakeup\<close> with several harts: no wakeup is lost, whatever order the steps of a process that
  goes to sleep and of those that wake it come in. On one hart the order in which \<open>sleep\<close> takes the
  lock of the process and gives up the lock of the condition could not be observed.

  A program is a list of pieces: taking a lock, giving one up, one access to the process table. \<open>alone\<close>
  runs a program as one hart does that nobody disturbs, and \<open>sleep_is_pieces\<close>, \<open>wakeup_is_pieces\<close>,
  \<open>wakeup_pieces_run\<close> and \<open>exit_is_pieces\<close> show that \<open>sleep\<close>, \<open>wakeup\<close> and the end of \<open>exit_process\<close> are such
  programs. \<open>wake_step\<close> lets any number of harts take turns after each
  piece; a hart that wants a lock waits until it is free (\<open>Smp\<close> shows that \<open>acquire\<close> and \<open>release\<close>
  give just that).
\<close>

section \<open>Definitions\<close>

datatype piece = Take lockid | Drop lockid | Do "bool \<Rightarrow> kstate \<Rightarrow> (kstate, bool) res"

fun alone :: "piece list \<Rightarrow> bool \<Rightarrow> kstate \<Rightarrow> (kstate, bool) res" where
  "alone [] b s = Ok b s"
| "alone (Take lk # ps) b s = seqM (acquire lk) (alone ps b) s"
| "alone (Drop lk # ps) b s = seqM (release lk) (alone ps b) s"
| "alone (Do f # ps) b s = bindM (f b) (alone ps) s"

text \<open>\<open>sleep\<close> up to the call of \<open>sched\<close>.\<close>

definition set_chan :: "nat \<Rightarrow> chan \<Rightarrow> bool \<Rightarrow> kstate \<Rightarrow> (kstate, bool) res" where
  "set_chan p chn b = seqM (proc_write p (\<lambda>q. q\<lparr>p_chan := chn\<rparr>)) (ret b)"

definition set_asleep :: "nat \<Rightarrow> bool \<Rightarrow> kstate \<Rightarrow> (kstate, bool) res" where
  "set_asleep p b = seqM (proc_write p (\<lambda>q. q\<lparr>p_state := SLEEPING\<rparr>)) (ret b)"

definition sleep_pieces :: "nat \<Rightarrow> chan \<Rightarrow> lockid \<Rightarrow> piece list" where
  "sleep_pieces p chn l = (if l \<noteq> ProcLock p then [Take (ProcLock p), Drop l] else []) @ [Do (set_chan p chn), Do (set_asleep p)]"

text \<open>One turn of the loop of \<open>wakeup\<close>: the two tests and the write are separate accesses.\<close>

definition is_asleep :: "nat \<Rightarrow> bool \<Rightarrow> kstate \<Rightarrow> (kstate, bool) res" where
  "is_asleep i b = proc_read i (\<lambda>p. p_state p = SLEEPING)"

definition is_on_chan :: "nat \<Rightarrow> chan \<Rightarrow> bool \<Rightarrow> kstate \<Rightarrow> (kstate, bool) res" where
  "is_on_chan i chn b = (if b then proc_read i (\<lambda>p. p_chan p = chn) else ret False)"

definition set_runnable :: "nat \<Rightarrow> bool \<Rightarrow> kstate \<Rightarrow> (kstate, bool) res" where
  "set_runnable i b = seqM (whenM b (proc_write i (\<lambda>p. p\<lparr>p_state := RUNNABLE\<rparr>))) (ret b)"

definition wake_slot :: "chan \<Rightarrow> nat \<Rightarrow> piece list" where
  "wake_slot chn i = [Take (ProcLock i), Do (is_asleep i), Do (is_on_chan i chn), Do (set_runnable i), Drop (ProcLock i)]"

definition wakeup_pieces :: "nat option \<Rightarrow> chan \<Rightarrow> piece list" where
  "wakeup_pieces me chn = concat (map (\<lambda>i. if Some i \<noteq> me then wake_slot chn i else []) [0..<NPROC])"

text \<open>The end of \<open>exit_process\<close>, from the wakeup of the parent to the release of \<open>wait_lock\<close>.\<close>

definition set_xstate :: "nat \<Rightarrow> i32 \<Rightarrow> bool \<Rightarrow> kstate \<Rightarrow> (kstate, bool) res" where
  "set_xstate q status b = seqM (proc_write q (\<lambda>p. p\<lparr>p_xstate := status\<rparr>)) (ret b)"

definition set_zombie :: "nat \<Rightarrow> bool \<Rightarrow> kstate \<Rightarrow> (kstate, bool) res" where
  "set_zombie q b = seqM (proc_write q (\<lambda>p. p\<lparr>p_state := ZOMBIE\<rparr>)) (ret b)"

definition zombie_pieces :: "nat \<Rightarrow> i32 \<Rightarrow> piece list" where
  "zombie_pieces q status = [Take (ProcLock q), Do (set_xstate q status), Do (set_zombie q)]"

text \<open>Hart 0 goes to sleep; the scheduler, to which it switches, gives up the lock of the process. The
  others wake, within a section of the condition's lock that may do more before and after, and more
  after its end.\<close>

definition sleeper :: "nat \<Rightarrow> chan \<Rightarrow> lockid \<Rightarrow> piece list" where
  "sleeper p chn l = sleep_pieces p chn l @ [Drop (ProcLock p)]"

definition waker :: "lockid \<Rightarrow> nat option \<Rightarrow> chan \<Rightarrow> piece list \<Rightarrow> piece list \<Rightarrow> piece list \<Rightarrow> piece list" where
  "waker l me chn before after rest = Take l # before @ wakeup_pieces me chn @ after @ Drop l # rest"

record harts =
  h_mem :: kstate
  h_todo :: "nat \<Rightarrow> piece list"
  h_flag :: "nat \<Rightarrow> bool"

definition with_lock :: "lockid \<Rightarrow> spinlock \<Rightarrow> kstate \<Rightarrow> kstate" where
  "with_lock lk l s = s\<lparr>k_locks := (k_locks s)(lk := l)\<rparr>"

inductive wake_step :: "harts \<Rightarrow> harts \<Rightarrow> bool" where
  take: "h_todo m h = Take lk # ps \<Longrightarrow> lk_locked (k_locks (h_mem m) lk) = 0 \<Longrightarrow>
    wake_step m (m\<lparr>h_mem := with_lock lk ((k_locks (h_mem m) lk)\<lparr>lk_locked := 1, lk_cpu := Some (int h)\<rparr>) (h_mem m), h_todo := (h_todo m)(h := ps)\<rparr>)"
| drop: "h_todo m h = Drop lk # ps \<Longrightarrow> lk_locked (k_locks (h_mem m) lk) \<noteq> 0 \<Longrightarrow> lk_cpu (k_locks (h_mem m) lk) = Some (int h) \<Longrightarrow>
    wake_step m (m\<lparr>h_mem := with_lock lk ((k_locks (h_mem m) lk)\<lparr>lk_locked := 0, lk_cpu := None\<rparr>) (h_mem m), h_todo := (h_todo m)(h := ps)\<rparr>)"
| do: "h_todo m h = Do f # ps \<Longrightarrow> f (h_flag m h) (h_mem m) = Ok b s \<Longrightarrow>
    wake_step m (m\<lparr>h_mem := s, h_todo := (h_todo m)(h := ps), h_flag := (h_flag m)(h := b)\<rparr>)"

inductive wake_reach :: "harts \<Rightarrow> harts \<Rightarrow> bool" for m where
  refl: "wake_reach m m"
| step: "wake_reach m m' \<Longrightarrow> wake_step m' m'' \<Longrightarrow> wake_reach m m''"

text \<open>The locks that a program gives up without having taken them, so those its hart holds; no lock is
  taken that is held, or given up that is not.\<close>

fun holds :: "piece list \<Rightarrow> lockid set" where
  "holds [] = {}"
| "holds (Take lk # ps) = holds ps - {lk}"
| "holds (Drop lk # ps) = insert lk (holds ps)"
| "holds (Do f # ps) = holds ps"

fun balanced :: "piece list \<Rightarrow> bool" where
  "balanced [] \<longleftrightarrow> True"
| "balanced (Take lk # ps) \<longleftrightarrow> lk \<in> holds ps \<and> balanced ps"
| "balanced (Drop lk # ps) \<longleftrightarrow> lk \<notin> holds ps \<and> balanced ps"
| "balanced (Do f # ps) \<longleftrightarrow> balanced ps"

fun waits :: "piece \<Rightarrow> bool" where
  "waits (Take lk) \<longleftrightarrow> True" | "waits x \<longleftrightarrow> False"

text \<open>What a waker may do besides: accesses that succeed and leave the slot of the sleeper and the locks
  alone, and other locks.\<close>

abbreviation keeps_slot :: "nat \<Rightarrow> (bool \<Rightarrow> kstate \<Rightarrow> (kstate, bool) res) \<Rightarrow> bool" where
  "keeps_slot p f \<equiv> \<forall>b s. length (k_procs s) = NPROC \<longrightarrow> (\<exists>b' s'. f b s = Ok b' s' \<and> k_locks s' = k_locks s
     \<and> length (k_procs s') = NPROC \<and> k_procs s' ! p = k_procs s ! p)"

fun elsewhere :: "nat \<Rightarrow> lockid \<Rightarrow> piece \<Rightarrow> bool" where
  "elsewhere p l (Do f) \<longleftrightarrow> keeps_slot p f"
| "elsewhere p l (Take lk) \<longleftrightarrow> lk \<noteq> l \<and> lk \<noteq> ProcLock p"
| "elsewhere p l (Drop lk) \<longleftrightarrow> lk \<noteq> l \<and> lk \<noteq> ProcLock p"

definition beside :: "nat \<Rightarrow> lockid \<Rightarrow> piece list \<Rightarrow> piece list \<Rightarrow> piece list \<Rightarrow> bool" where
  "beside p l before after rest \<longleftrightarrow> (\<forall>x \<in> set before \<union> set after \<union> set rest. elsewhere p l x) \<and> (\<forall>x \<in> set rest. \<not> waits x)
     \<and> holds (before @ [Drop l]) = {l} \<and> balanced (before @ [Drop l]) \<and> holds (after @ Drop l # rest) = {l} \<and> balanced (after @ Drop l # rest)"

text \<open>Hart 0, in process \<open>p\<close>, holds the lock \<open>l\<close> of the condition and calls \<open>sleep\<close>; harts 1 to \<open>n\<close>, in other
  processes, are about to take \<open>l\<close> and to wake the channel.\<close>

definition about_to_sleep :: "nat \<Rightarrow> nat \<Rightarrow> chan \<Rightarrow> lockid \<Rightarrow> (nat \<Rightarrow> nat option) \<Rightarrow> (nat \<Rightarrow> piece list) \<Rightarrow> (nat \<Rightarrow> piece list) \<Rightarrow> (nat \<Rightarrow> piece list) \<Rightarrow> harts \<Rightarrow> bool" where
  "about_to_sleep n p chn l me before after rest m \<longleftrightarrow>
     p < NPROC \<and> length (k_procs (h_mem m)) = NPROC \<and> (\<forall>j. l \<noteq> ProcLock j)
     \<and> lk_locked (k_locks (h_mem m) l) \<noteq> 0 \<and> lk_cpu (k_locks (h_mem m) l) = Some 0
     \<and> (\<forall>lk. lk \<noteq> l \<longrightarrow> lk_locked (k_locks (h_mem m) lk) = 0)
     \<and> h_todo m 0 = sleeper p chn l
     \<and> (\<forall>h. 1 \<le> h \<and> h \<le> n \<longrightarrow> me h \<noteq> Some p \<and> beside p l (before h) (after h) (rest h)
          \<and> h_todo m h = waker l (me h) chn (before h) (after h) (rest h))
     \<and> (\<forall>h. n < h \<longrightarrow> h_todo m h = [])"

definition pieces_left :: "nat \<Rightarrow> harts \<Rightarrow> nat" where
  "pieces_left n m = (\<Sum>h\<le>n. length (h_todo m h))"

section \<open>The functions are the programs\<close>

lemmas piece_defs = set_chan_def set_asleep_def is_asleep_def is_on_chan_def set_runnable_def set_xstate_def set_zombie_def

lemma piece_run:
  assumes "p < length (k_procs s)"
  shows "set_chan p chn b s = Ok b' s' \<longleftrightarrow> b' = b \<and> s' = s\<lparr>k_procs := (k_procs s)[p := (k_procs s ! p)\<lparr>p_chan := chn\<rparr>]\<rparr>"
    and "set_asleep p b s = Ok b' s' \<longleftrightarrow> b' = b \<and> s' = s\<lparr>k_procs := (k_procs s)[p := (k_procs s ! p)\<lparr>p_state := SLEEPING\<rparr>]\<rparr>"
    and "is_asleep p b s = Ok b' s' \<longleftrightarrow> b' = (p_state (k_procs s ! p) = SLEEPING) \<and> s' = s"
    and "is_on_chan p chn b s = Ok b' s' \<longleftrightarrow> b' = (b \<and> p_chan (k_procs s ! p) = chn) \<and> s' = s"
    and "set_runnable p b s = Ok b' s' \<longleftrightarrow> b' = b \<and> s' = (if b then s\<lparr>k_procs := (k_procs s)[p := (k_procs s ! p)\<lparr>p_state := RUNNABLE\<rparr>]\<rparr> else s)"
  using assms by (auto simp: piece_defs proc_read_def proc_write_def exec_simps)

lemma sleep_is_pieces:
  "sleep chn (Some l) regs = bindM myproc (\<lambda>me. case me of None \<Rightarrow> fail (Panic ''sleep'')
     | Some p \<Rightarrow> bindM (alone (sleep_pieces p chn l) False) (\<lambda>_. sched regs))"
proof -
  have "seqM (whenM (l \<noteq> ProcLock p) (seqM (acquire (ProcLock p)) (release l)))
      (seqM (proc_write p (\<lambda>q. q\<lparr>p_chan := chn\<rparr>)) (seqM (proc_write p (\<lambda>q. q\<lparr>p_state := SLEEPING\<rparr>)) (sched regs)))
    = bindM (alone (sleep_pieces p chn l) False) (\<lambda>_. sched regs)" for p
    by (auto simp: sleep_pieces_def piece_defs seqM_def bindM_def whenM_def ret_def fun_eq_iff split: res.split)
  then show ?thesis by (simp add: sleep_def cong: option.case_cong)
qed

lemma wakeup_is_pieces:
  "wakeup chn = forM [0..<NPROC] (\<lambda>i. bindM myproc (\<lambda>me.
     whenM (Some i \<noteq> me) (bindM (alone (wake_slot chn i) False) (\<lambda>_. ret ()))))"
proof -
  have "seqM (acquire (ProcLock i)) (bindM (proc_read i (\<lambda>p. p_state p = SLEEPING \<and> p_chan p = chn)) (\<lambda>b.
      seqM (whenM b (proc_write i (\<lambda>p. p\<lparr>p_state := RUNNABLE\<rparr>))) (release (ProcLock i))))
    = bindM (alone (wake_slot chn i) False) (\<lambda>_. ret ())" for i
    by (auto simp: wake_slot_def piece_defs seqM_def bindM_def whenM_def ret_def proc_read_def proc_write_def fun_eq_iff split: res.split)
  then show ?thesis by (simp add: wakeup_def)
qed

lemma alone_append: "alone (ps @ qs) b = bindM (alone ps b) (alone qs)"
proof (induction ps arbitrary: b)
  case (Cons x ps)
  then show ?case by (cases x) (auto simp: seqM_def bindM_def fun_eq_iff split: res.split)
qed (simp add: bindM_def fun_eq_iff)

lemma wakeup_pieces_run:
  "bindM (alone (wakeup_pieces me chn) b) (\<lambda>_. ret ()) = forM [0..<NPROC] (\<lambda>i.
     whenM (Some i \<noteq> me) (bindM (alone (wake_slot chn i) False) (\<lambda>_. ret ())))"
proof -
  have flag: "alone (wake_slot chn i) b = alone (wake_slot chn i) False" for i b
    by (simp add: wake_slot_def is_asleep_def fun_eq_iff seqM_def bindM_def split: res.split)
  have "bindM (alone (concat (map (\<lambda>i. if Some i \<noteq> me then wake_slot chn i else []) is)) b) (\<lambda>_. ret ())
      = forM is (\<lambda>i. whenM (Some i \<noteq> me) (bindM (alone (wake_slot chn i) False) (\<lambda>_. ret ())))" for "is"
  proof (induction "is" arbitrary: b)
    case (Cons i "is")
    let ?C = "concat (map (\<lambda>i. if Some i \<noteq> me then wake_slot chn i else []) is)" and ?w = "alone (wake_slot chn i) False"
      and ?F = "forM is (\<lambda>i. whenM (Some i \<noteq> me) (bindM (alone (wake_slot chn i) False) (\<lambda>_. ret ())))"
    have "bindM (alone (wake_slot chn i @ ?C) b) (\<lambda>_. ret ()) = bindM ?w (\<lambda>b. bindM (alone ?C b) (\<lambda>_. ret ()))"
      by (simp add: alone_append flag [of i b]) (simp add: bindM_def fun_eq_iff split: res.split)
    also have "\<dots> = bindM ?w (\<lambda>_. ?F)" by (simp only: Cons.IH)
    also have "\<dots> = seqM (bindM ?w (\<lambda>_. ret ())) ?F" by (simp add: seqM_def bindM_def ret_def fun_eq_iff split: res.split)
    finally have "bindM (alone (wake_slot chn i @ ?C) b) (\<lambda>_. ret ()) = seqM (bindM ?w (\<lambda>_. ret ())) ?F" .
    moreover have "seqM (ret ()) ?F = ?F" by (simp add: seqM_def bindM_def ret_def fun_eq_iff)
    moreover have "forM (i # is) f = seqM (f i) (forM is f)" for f :: "nat \<Rightarrow> kstate \<Rightarrow> (kstate, unit) res"
      by (simp add: seqM_def bindM_def fun_eq_iff split: res.split)
    ultimately show ?case using Cons.IH [of b] by (simp add: whenM_def del: forM.simps)
  qed (simp add: bindM_def ret_def fun_eq_iff)
  then show ?thesis by (simp add: wakeup_pieces_def)
qed

lemma exit_is_pieces:
  "exit_process status regs = bindM myproc (\<lambda>me. bindM (readM k_initproc) (\<lambda>init.
     if me = init then fail (Panic ''init exiting'') else seqM (acquire WaitLock) (seqM (reparent me)
       (case me of None \<Rightarrow> fail Fault | Some q \<Rightarrow> bindM (proc_read q p_parent) (\<lambda>par.
          seqM (case par of None \<Rightarrow> ret () | Some p \<Rightarrow> wakeup (ChanProc p))
               (bindM (alone (zombie_pieces q status @ [Drop WaitLock]) False) (\<lambda>_. sched regs)))))))"
proof -
  have "seqM (acquire (ProcLock p)) (seqM (proc_write p (\<lambda>q. q\<lparr>p_xstate := status\<rparr>)) (seqM (proc_write p (\<lambda>q. q\<lparr>p_state := ZOMBIE\<rparr>))
      (seqM (release WaitLock) (sched regs))))
    = bindM (alone (zombie_pieces p status @ [Drop WaitLock]) False) (\<lambda>_. sched regs)" for p
    by (auto simp: zombie_pieces_def piece_defs seqM_def bindM_def ret_def fun_eq_iff split: res.split)
  then show ?thesis by (simp add: exit_process_def cong: option.case_cong if_cong)
qed

section \<open>Locks\<close>

definition held_by :: "spinlock \<Rightarrow> (nat \<Rightarrow> bool) \<Rightarrow> bool" where
  "held_by l f \<longleftrightarrow> (if lk_locked l = 0 then \<forall>h. \<not> f h else \<exists>h. lk_cpu l = Some (int h) \<and> (\<forall>h'. f h' \<longleftrightarrow> h' = h))"

definition locks_ok :: "harts \<Rightarrow> bool" where
  "locks_ok m \<longleftrightarrow> (\<forall>h. balanced (h_todo m h)) \<and> (\<forall>lk. held_by (k_locks (h_mem m) lk) (\<lambda>h. lk \<in> holds (h_todo m h)))"

lemma locks_okD:
  assumes "locks_ok m" and "lk \<in> holds (h_todo m h)"
  shows "lk_locked (k_locks (h_mem m) lk) \<noteq> 0" "lk_cpu (k_locks (h_mem m) lk) = Some (int h)" "lk \<in> holds (h_todo m h') \<longleftrightarrow> h' = h"
proof -
  have "held_by (k_locks (h_mem m) lk) (\<lambda>h. lk \<in> holds (h_todo m h))" using assms(1) by (simp add: locks_ok_def)
  with assms(2) show "lk_locked (k_locks (h_mem m) lk) \<noteq> 0" "lk_cpu (k_locks (h_mem m) lk) = Some (int h)" "lk \<in> holds (h_todo m h') \<longleftrightarrow> h' = h"
    by (auto simp: held_by_def split: if_splits)
qed

lemma locks_ok_held: "locks_ok m \<Longrightarrow> lk_locked (k_locks (h_mem m) lk) \<noteq> 0 \<Longrightarrow> \<exists>h. lk \<in> holds (h_todo m h)"
  unfolding locks_ok_def held_by_def by (metis (full_types))

lemma locks_okI:
  assumes "locks_ok m" and "balanced ps" and "h_todo m' = (h_todo m)(h := ps)"
    and "\<And>lk'. lk' \<notin> L \<Longrightarrow> k_locks (h_mem m') lk' = k_locks (h_mem m) lk' \<and> (lk' \<in> holds ps \<longleftrightarrow> lk' \<in> holds (h_todo m h))"
    and "\<And>lk'. lk' \<in> L \<Longrightarrow> held_by (k_locks (h_mem m') lk') (\<lambda>h. lk' \<in> holds (h_todo m' h))"
  shows "locks_ok m'"
proof -
  have "held_by (k_locks (h_mem m') lk') (\<lambda>h. lk' \<in> holds (h_todo m' h))" for lk'
  proof (cases "lk' \<in> L")
    case False
    then have "(\<lambda>h. lk' \<in> holds (h_todo m' h)) = (\<lambda>h. lk' \<in> holds (h_todo m h))" using assms(3,4) by auto
    then show ?thesis using assms(1) assms(4) [OF False] by (simp add: locks_ok_def)
  qed (rule assms(5))
  then show ?thesis using assms(1-3) by (simp add: locks_ok_def)
qed

lemma locks_ok_step:
  assumes ok: "locks_ok m" and "wake_step m m'" and "\<And>h f b b' s'. Do f \<in> set (h_todo m h) \<Longrightarrow> f b (h_mem m) = Ok b' s' \<Longrightarrow> k_locks s' = k_locks (h_mem m)"
  shows "locks_ok m'"
  using assms(2)
proof cases
  case (take h lk ps)
  have b: "lk \<in> holds ps" "balanced ps" using ok take(2) unfolding locks_ok_def by (metis balanced.simps(2))+
  have "\<forall>h. lk \<notin> holds (h_todo m h)" using locks_okD(1) [OF ok] take(3) by blast
  then show ?thesis using b take
    by (intro locks_okI [OF ok b(2), of m' h "{lk}"]) (auto simp: with_lock_def held_by_def)
next
  case (drop h lk ps)
  have b: "lk \<notin> holds ps" "balanced ps" using ok drop(2) unfolding locks_ok_def by (metis balanced.simps(3))+
  have "\<forall>h'. lk \<in> holds (h_todo m h') \<longleftrightarrow> h' = h" using locks_okD(3) [OF ok, of lk h] drop(2) by simp
  then show ?thesis using b drop
    by (intro locks_okI [OF ok b(2), of m' h "{lk}"]) (auto simp: with_lock_def held_by_def)
next
  case (do h f ps b s)
  have "k_locks s = k_locks (h_mem m)" by (rule assms(3) [of f h "h_flag m h" b s]) (use do in simp_all)
  moreover have "holds (h_todo m h) = holds ps" "balanced ps" using ok do(2) unfolding locks_ok_def by (simp, metis balanced.simps(4))
  ultimately show ?thesis using do by (intro locks_okI [OF ok, of ps m' h "{}"]) simp_all
qed

section \<open>The invariant\<close>

text \<open>Every access succeeds and leaves the locks alone; those of a waker, its turn for the sleeper's slot
  apart, leave that slot alone too.\<close>

fun succeeds :: "piece \<Rightarrow> bool" where
  "succeeds (Do f) \<longleftrightarrow> (\<forall>b s. length (k_procs s) = NPROC \<longrightarrow> (\<exists>b' s'. f b s = Ok b' s' \<and> k_locks s' = k_locks s \<and> length (k_procs s') = NPROC))"
| "succeeds x \<longleftrightarrow> True"

fun aside :: "nat \<Rightarrow> piece \<Rightarrow> bool" where
  "aside p (Do f) \<longleftrightarrow> keeps_slot p f"
| "aside p (Take lk) \<longleftrightarrow> lk \<noteq> ProcLock p"
| "aside p (Drop lk) \<longleftrightarrow> lk \<noteq> ProcLock p"

fun uses :: "lockid \<Rightarrow> piece \<Rightarrow> bool" where
  "uses lk (Take k) \<longleftrightarrow> k = lk" | "uses lk (Drop k) \<longleftrightarrow> k = lk" | "uses lk (Do f) \<longleftrightarrow> False"

abbreviation slot_of :: "nat \<Rightarrow> harts \<Rightarrow> proc" where
  "slot_of p m \<equiv> k_procs (h_mem m) ! p"

definition sleeper_ok :: "nat \<Rightarrow> chan \<Rightarrow> lockid \<Rightarrow> harts \<Rightarrow> bool" where
  "sleeper_ok p chn l m \<longleftrightarrow>
     h_todo m 0 = [Take (ProcLock p), Drop l, Do (set_chan p chn), Do (set_asleep p), Drop (ProcLock p)]
   \<or> h_todo m 0 = [Drop l, Do (set_chan p chn), Do (set_asleep p), Drop (ProcLock p)]
   \<or> h_todo m 0 = [Do (set_chan p chn), Do (set_asleep p), Drop (ProcLock p)]
   \<or> h_todo m 0 = [Do (set_asleep p), Drop (ProcLock p)] \<and> p_chan (slot_of p m) = chn
   \<or> h_todo m 0 = [Drop (ProcLock p)] \<and> p_chan (slot_of p m) = chn \<and> p_state (slot_of p m) = SLEEPING
   \<or> h_todo m 0 = [] \<and> p_chan (slot_of p m) = chn \<and> p_state (slot_of p m) \<in> {SLEEPING, RUNNABLE}"

text \<open>Where a waker is: before its turn for the sleeper, within it, or past it.\<close>

definition before_turn :: "nat \<Rightarrow> chan \<Rightarrow> piece list \<Rightarrow> bool" where
  "before_turn p chn ps \<longleftrightarrow> (\<exists>u v. ps = u @ wake_slot chn p @ v \<and> (\<forall>x \<in> set u \<union> set v. aside p x))"

definition in_turn :: "nat \<Rightarrow> chan \<Rightarrow> bool \<Rightarrow> procstate \<Rightarrow> piece list \<Rightarrow> bool" where
  "in_turn p chn b st ps \<longleftrightarrow> (\<exists>v. (\<forall>x \<in> set v. aside p x) \<and>
     (ps = [Do (is_asleep p), Do (is_on_chan p chn), Do (set_runnable p), Drop (ProcLock p)] @ v
    \<or> ps = [Do (is_on_chan p chn), Do (set_runnable p), Drop (ProcLock p)] @ v \<and> b = (st = SLEEPING)
    \<or> ps = [Do (set_runnable p), Drop (ProcLock p)] @ v \<and> b = (st = SLEEPING)
    \<or> ps = [Drop (ProcLock p)] @ v \<and> st \<noteq> SLEEPING))"

definition past_turn :: "nat \<Rightarrow> procstate \<Rightarrow> piece list \<Rightarrow> bool" where
  "past_turn p st ps \<longleftrightarrow> (\<forall>x \<in> set ps. aside p x) \<and> st \<noteq> SLEEPING"

definition waker_ok :: "nat \<Rightarrow> chan \<Rightarrow> harts \<Rightarrow> nat \<Rightarrow> bool" where
  "waker_ok p chn m h \<longleftrightarrow> before_turn p chn (h_todo m h)
     \<or> h_todo m 0 = [] \<and> (in_turn p chn (h_flag m h) (p_state (slot_of p m)) (h_todo m h) \<or> past_turn p (p_state (slot_of p m)) (h_todo m h))"

text \<open>Either a waker has not taken \<open>l\<close> yet and holds nothing, or it holds \<open>l\<close>, or it will take no lock any more.\<close>

definition section_ok :: "lockid \<Rightarrow> piece list \<Rightarrow> bool" where
  "section_ok l ps \<longleftrightarrow> (\<forall>x \<in> set ps. \<not> waits x) \<or> (\<exists>qs rs. (\<forall>x \<in> set qs \<union> set rs. \<not> uses l x) \<and> (\<forall>x \<in> set rs. \<not> waits x)
     \<and> (ps = qs @ Drop l # rs \<or> ps = Take l # qs @ Drop l # rs \<and> holds ps = {}))"

definition wake_inv :: "nat \<Rightarrow> nat \<Rightarrow> chan \<Rightarrow> lockid \<Rightarrow> harts \<Rightarrow> bool" where
  "wake_inv n p chn l m \<longleftrightarrow> p < NPROC \<and> (\<forall>j. l \<noteq> ProcLock j) \<and> length (k_procs (h_mem m)) = NPROC \<and> locks_ok m
     \<and> (\<forall>h. \<forall>x \<in> set (h_todo m h). succeeds x) \<and> sleeper_ok p chn l m
     \<and> (\<forall>h. 1 \<le> h \<and> h \<le> n \<longrightarrow> waker_ok p chn m h \<and> section_ok l (h_todo m h)) \<and> (\<forall>h. n < h \<longrightarrow> h_todo m h = [])"

lemma wake_step_shape:
  assumes "wake_step m m'"
  obtains h x ps where "h_todo m h = x # ps" "h_todo m' = (h_todo m)(h := ps)" "\<And>h'. h' \<noteq> h \<Longrightarrow> h_flag m' h' = h_flag m h'"
    "case x of Do f \<Rightarrow> f (h_flag m h) (h_mem m) = Ok (h_flag m' h) (h_mem m')
       | Take lk \<Rightarrow> k_procs (h_mem m') = k_procs (h_mem m) \<and> lk_locked (k_locks (h_mem m) lk) = 0
       | Drop lk \<Rightarrow> k_procs (h_mem m') = k_procs (h_mem m)"
  using assms
proof cases
  case (take h lk ps)
  then show ?thesis using that [of h "Take lk" ps] by (simp add: with_lock_def)
next
  case (drop h lk ps)
  then show ?thesis using that [of h "Drop lk" ps] by (simp add: with_lock_def)
next
  case (do h f ps b s)
  then show ?thesis using that [of h "Do f" ps] by simp
qed

lemma section_ok_tl:
  assumes "section_ok l (x # ps)"
  shows "section_ok l ps"
proof (cases "\<forall>y \<in> set (x # ps). \<not> waits y")
  case False
  then obtain qs rs where qs: "\<forall>x \<in> set qs \<union> set rs. \<not> uses l x" "\<forall>x \<in> set rs. \<not> waits x" "x # ps = qs @ Drop l # rs \<or> x # ps = Take l # qs @ Drop l # rs"
    using assms unfolding section_ok_def by blast
  show ?thesis
  proof (cases "x # ps = qs @ Drop l # rs")
    case True
    with qs(1,2) show ?thesis by (cases qs) (auto simp: section_ok_def)
  qed (use qs in \<open>auto simp: section_ok_def\<close>)
qed (simp add: section_ok_def)

lemma section_ok_holds:
  assumes "section_ok l ps" and "\<exists>x \<in> set ps. waits x"
  shows "l \<in> holds ps \<or> (\<exists>qs. ps = Take l # qs) \<and> holds ps = {}"
proof -
  have "l \<in> holds (qs @ Drop l # rs)" if "\<forall>x \<in> set qs. \<not> uses l x" for qs rs
    using that
  proof (induction qs)
    case (Cons x qs)
    then show ?case by (cases x) auto
  qed simp
  then show ?thesis using assms unfolding section_ok_def by (metis UnI1)
qed

lemma aside_holds: "\<forall>x \<in> set u. aside p x \<Longrightarrow> ProcLock p \<in> holds (u @ v) \<longleftrightarrow> ProcLock p \<in> holds v"
proof (induction u)
  case (Cons x u)
  then show ?case by (cases x) auto
qed simp

lemma in_turn_holds: "in_turn p chn b st ps \<Longrightarrow> ProcLock p \<in> holds ps"
  by (auto simp: in_turn_def)

lemma before_turn_holds: "before_turn p chn ps \<Longrightarrow> ProcLock p \<notin> holds ps"
  by (auto simp: before_turn_def aside_holds wake_slot_def)

lemma past_turn_holds: "past_turn p st ps \<Longrightarrow> ProcLock p \<notin> holds ps"
  using aside_holds [of ps p "[]"] by (simp add: past_turn_def)

text \<open>An access beside the sleeper's slot.\<close>

lemma aside_step:
  assumes "aside p x" and "length (k_procs (h_mem m)) = NPROC"
    and "case x of Do f \<Rightarrow> f b (h_mem m) = Ok b' (h_mem m') | Take lk \<Rightarrow> k_procs (h_mem m') = k_procs (h_mem m) \<and> L | Drop lk \<Rightarrow> k_procs (h_mem m') = k_procs (h_mem m)"
  shows "slot_of p m' = slot_of p m"
  using assms by (cases x) (auto, metis res.inject(1))

text \<open>The sleeper's own step leaves the wakers where they are: all before their turn.\<close>

lemma sleeper_step:
  assumes i: "wake_inv n p chn l m" and t: "h_todo m 0 = x # ps" "h_todo m' 0 = ps"
    and x: "case x of Do f \<Rightarrow> f (h_flag m 0) (h_mem m) = Ok (h_flag m' 0) (h_mem m')
       | Take lk \<Rightarrow> k_procs (h_mem m') = k_procs (h_mem m) \<and> lk_locked (k_locks (h_mem m) lk) = 0 | Drop lk \<Rightarrow> k_procs (h_mem m') = k_procs (h_mem m)"
  shows "sleeper_ok p chn l m'"
proof -
  have p: "p < length (k_procs (h_mem m))" and ok: "sleeper_ok p chn l m" using i by (simp_all add: wake_inv_def)
  from ok [unfolded sleeper_ok_def] t x p show ?thesis
    by (elim disjE) (auto simp: sleeper_ok_def piece_run)
qed

text \<open>A waker's step: its own place, and what it does to the sleeper's slot.\<close>

lemma turn_free:
  assumes i: "wake_inv n p chn l m" and h: "1 \<le> h" "h \<le> n" and t: "h_todo m h = Take (ProcLock p) # ps" and free: "lk_locked (k_locks (h_mem m) (ProcLock p)) = 0"
  shows "h_todo m 0 = []"
proof -
  note w = i [unfolded wake_inv_def]
  have ok: "locks_ok m" and "l \<noteq> ProcLock p" using w by auto
  have "section_ok l (h_todo m h)" using w h by blast
  then have "l \<in> holds (h_todo m h)" using section_ok_holds [of l "h_todo m h"] t \<open>l \<noteq> ProcLock p\<close> by auto
  then have "l \<notin> holds (h_todo m 0)" using locks_okD(3) [OF ok, of l h 0] h by simp
  moreover have "ProcLock p \<notin> holds (h_todo m 0)" using locks_okD(1) [OF ok, of "ProcLock p" 0] free by blast
  ultimately show ?thesis using w \<open>l \<noteq> ProcLock p\<close> by (auto simp: sleeper_ok_def)
qed

lemma waker_step:
  assumes i: "wake_inv n p chn l m" and h: "1 \<le> h" "h \<le> n" and t: "h_todo m h = x # ps" "h_todo m' = (h_todo m)(h := ps)"
    and x: "case x of Do f \<Rightarrow> f (h_flag m h) (h_mem m) = Ok (h_flag m' h) (h_mem m')
       | Take lk \<Rightarrow> k_procs (h_mem m') = k_procs (h_mem m) \<and> lk_locked (k_locks (h_mem m) lk) = 0 | Drop lk \<Rightarrow> k_procs (h_mem m') = k_procs (h_mem m)"
  shows "waker_ok p chn m' h \<and> (slot_of p m' = slot_of p m \<or> h_todo m 0 = [] \<and> slot_of p m' = (slot_of p m)\<lparr>p_state := RUNNABLE\<rparr> \<and> ProcLock p \<in> holds (h_todo m h))"
proof -
  note w = i [unfolded wake_inv_def]
  have p: "p < length (k_procs (h_mem m))" "length (k_procs (h_mem m)) = NPROC" using w by simp_all
  have t': "h_todo m' h = ps" "h_todo m' 0 = h_todo m 0" using t h by simp_all
  have "waker_ok p chn m h" using w h by blast
  then consider (before) u v where "x # ps = u @ wake_slot chn p @ v" "\<forall>x \<in> set u \<union> set v. aside p x"
    | (inside) "h_todo m 0 = []" "in_turn p chn (h_flag m h) (p_state (slot_of p m)) (x # ps)"
    | (past) "h_todo m 0 = []" "past_turn p (p_state (slot_of p m)) (x # ps)"
    unfolding waker_ok_def before_turn_def t(1) by blast
  then show ?thesis
  proof cases
    case before
    show ?thesis
    proof (cases u)
      case Nil
      then have xs: "x = Take (ProcLock p)" "ps = [Do (is_asleep p), Do (is_on_chan p chn), Do (set_runnable p), Drop (ProcLock p)] @ v"
        using before(1) by (simp_all add: wake_slot_def)
      then have "h_todo m 0 = []" "slot_of p m' = slot_of p m" using turn_free [OF i h] t(1) x by simp_all
      moreover have "in_turn p chn b st ps" for b st unfolding in_turn_def using xs(2) before(2) by auto
      ultimately show ?thesis using t' by (simp add: waker_ok_def)
    next
      case (Cons y u')
      then have y: "aside p x" "before_turn p chn ps" using before by (auto simp: before_turn_def)
      then show ?thesis using aside_step [OF y(1) p(2), where m' = m' and b = "h_flag m h" and b' = "h_flag m' h"] x t' by (auto simp: waker_ok_def split: piece.splits)
    qed
  next
    case inside
    have chan: "p_chan (slot_of p m) = chn" using w inside(1) by (auto simp: sleeper_ok_def)
    have r: "ProcLock p \<in> holds (h_todo m h)" using in_turn_holds [OF inside(2)] t(1) by simp
    from inside(2) [unfolded in_turn_def] obtain v where v: "\<forall>x \<in> set v. aside p x" and
      alt: "x # ps = [Do (is_asleep p), Do (is_on_chan p chn), Do (set_runnable p), Drop (ProcLock p)] @ v
        \<or> x # ps = [Do (is_on_chan p chn), Do (set_runnable p), Drop (ProcLock p)] @ v \<and> h_flag m h = (p_state (slot_of p m) = SLEEPING)
        \<or> x # ps = [Do (set_runnable p), Drop (ProcLock p)] @ v \<and> h_flag m h = (p_state (slot_of p m) = SLEEPING)
        \<or> x # ps = [Drop (ProcLock p)] @ v \<and> p_state (slot_of p m) \<noteq> SLEEPING" by blast
    have "(in_turn p chn (h_flag m' h) (p_state (slot_of p m')) ps \<or> past_turn p (p_state (slot_of p m')) ps)
        \<and> (slot_of p m' = slot_of p m \<or> slot_of p m' = (slot_of p m)\<lparr>p_state := RUNNABLE\<rparr>)"
      using alt x p v chan unfolding in_turn_def past_turn_def
      by (elim disjE) (auto simp: piece_run split: if_splits)
    then show ?thesis using inside(1) t' r by (auto simp: waker_ok_def)
  next
    case past
    then have y: "aside p x" "past_turn p (p_state (slot_of p m)) ps" by (auto simp: past_turn_def)
    then show ?thesis using past(1) aside_step [OF y(1) p(2), where m' = m' and b = "h_flag m h" and b' = "h_flag m' h"] x t' by (auto simp: waker_ok_def split: piece.splits)
  qed
qed

lemma other_waker:
  assumes i: "wake_inv n p chn l m" and "waker_ok p chn m g" and "h_todo m' g = h_todo m g" "h_todo m' 0 = h_todo m 0" "h_flag m' g = h_flag m g"
    and "slot_of p m' = slot_of p m \<or> slot_of p m' = (slot_of p m)\<lparr>p_state := RUNNABLE\<rparr> \<and> ProcLock p \<in> holds (h_todo m h)" and "h \<noteq> g"
  shows "waker_ok p chn m' g"
proof (cases "slot_of p m' = slot_of p m")
  case False
  then have s: "slot_of p m' = (slot_of p m)\<lparr>p_state := RUNNABLE\<rparr>" "ProcLock p \<in> holds (h_todo m h)" using assms(6) by auto
  have "ProcLock p \<notin> holds (h_todo m g)" using locks_okD(3) [of m "ProcLock p" h g] i s(2) assms(7) by (simp add: wake_inv_def)
  then have "\<not> in_turn p chn (h_flag m g) st (h_todo m g)" for st using in_turn_holds by blast
  then show ?thesis using assms(2-5) s(1) by (auto simp: waker_ok_def past_turn_def)
qed (use assms(2-5) in \<open>simp add: waker_ok_def\<close>)

lemma wake_inv_step:
  assumes i: "wake_inv n p chn l m" and st: "wake_step m m'"
  shows "wake_inv n p chn l m'"
proof -
  note w = i [unfolded wake_inv_def]
  have len: "length (k_procs (h_mem m)) = NPROC" using w by blast
  have tot: "succeeds x" if "x \<in> set (h_todo m h)" for x h using w that by blast
  obtain h x ps where t: "h_todo m h = x # ps" "h_todo m' = (h_todo m)(h := ps)" and fl: "\<And>h'. h' \<noteq> h \<Longrightarrow> h_flag m' h' = h_flag m h'"
    and x: "case x of Do f \<Rightarrow> f (h_flag m h) (h_mem m) = Ok (h_flag m' h) (h_mem m')
       | Take lk \<Rightarrow> k_procs (h_mem m') = k_procs (h_mem m) \<and> lk_locked (k_locks (h_mem m) lk) = 0 | Drop lk \<Rightarrow> k_procs (h_mem m') = k_procs (h_mem m)"
    using wake_step_shape [OF st] by blast
  have basic: "p < NPROC" "\<forall>j. l \<noteq> ProcLock j" using w by blast+
  have locks: "locks_ok m'"
  proof (rule locks_ok_step [OF _ st])
    show "locks_ok m" using w by blast
    fix g f b b' s'
    assume "Do f \<in> set (h_todo m g)" "f b (h_mem m) = Ok b' s'"
    moreover have "\<exists>b'' s''. f b (h_mem m) = Ok b'' s'' \<and> k_locks s'' = k_locks (h_mem m)"
      using tot [OF calculation(1)] len unfolding succeeds.simps by metis
    ultimately show "k_locks s' = k_locks (h_mem m)" by auto
  qed
  have len': "length (k_procs (h_mem m')) = NPROC"
  proof (cases x)
    case (Do f)
    have "succeeds (Do f)" using tot [of x h] t(1) Do by simp
    then have "\<exists>b s'. f (h_flag m h) (h_mem m) = Ok b s' \<and> length (k_procs s') = NPROC" using len unfolding succeeds.simps by blast
    then show ?thesis using x Do by auto
  qed (use x len in simp_all)
  have tot': "\<forall>g. \<forall>y \<in> set (h_todo m' g). succeeds y"
  proof (intro allI ballI)
    fix g y assume "y \<in> set (h_todo m' g)"
    then have "y \<in> set (h_todo m g)" using t by (cases "g = h") simp_all
    then show "succeeds y" by (rule tot)
  qed
  have idle: "h_todo m' g = []" if "n < g" for g
  proof -
    have "h_todo m g = []" using w that by blast
    then show ?thesis using t by (cases "g = h") simp_all
  qed
  have wok: "waker_ok p chn m g" "section_ok l (h_todo m g)" if "1 \<le> g" "g \<le> n" for g using w that by blast+
  have sok: "sleeper_ok p chn l m" using w by blast
  have main: "sleeper_ok p chn l m' \<and> (\<forall>g. 1 \<le> g \<and> g \<le> n \<longrightarrow> waker_ok p chn m' g)"
  proof (cases "h = 0")
    case True
    have "h_todo m 0 \<noteq> []" using t True by simp
    then have "waker_ok p chn m' g" if "1 \<le> g" "g \<le> n" for g
      using wok(1) [OF that] that t(2) True by (simp add: waker_ok_def)
    moreover have "sleeper_ok p chn l m'" by (rule sleeper_step [OF i _ _ x [unfolded True]]) (use t True in simp_all)
    ultimately show ?thesis by blast
  next
    case False
    have "h_todo m h \<noteq> []" using t(1) by simp
    then have h: "1 \<le> h" "h \<le> n" using w False by (auto simp: not_less [symmetric])
    note s = waker_step [OF i h t x]
    have t0: "h_todo m' 0 = h_todo m 0" using t(2) False by simp
    have "sleeper_ok p chn l m'"
      using s sok t0 by (auto simp: sleeper_ok_def)
    moreover have "waker_ok p chn m' g" if g: "1 \<le> g" "g \<le> n" for g
    proof (cases "g = h")
      case False
      have "h_todo m' g = h_todo m g" "h_flag m' g = h_flag m g" using t(2) False fl by auto
      moreover have "slot_of p m' = slot_of p m \<or> slot_of p m' = (slot_of p m)\<lparr>p_state := RUNNABLE\<rparr> \<and> ProcLock p \<in> holds (h_todo m h)"
        using s by blast
      ultimately show ?thesis using False by (intro other_waker [OF i wok(1) [OF g] _ t0]) auto
    qed (use s in simp)
    ultimately show ?thesis by blast
  qed
  have "section_ok l (h_todo m' g)" if "1 \<le> g" "g \<le> n" for g
    using wok(2) [OF that] t section_ok_tl [of l x ps] by (cases "g = h") simp_all
  then show ?thesis unfolding wake_inv_def using basic len' locks tot' idle main by blast
qed

lemma wake_inv_reach: "wake_reach m m' \<Longrightarrow> wake_inv n p chn l m \<Longrightarrow> wake_inv n p chn l m'"
  by (induction rule: wake_reach.induct) (auto intro: wake_inv_step)

section \<open>Nobody waits for ever\<close>

lemma step_exists:
  assumes i: "wake_inv n p chn l m" and t: "h_todo m h = x # ps" and free: "\<And>lk. x = Take lk \<Longrightarrow> lk_locked (k_locks (h_mem m) lk) = 0"
  shows "\<exists>m'. wake_step m m'"
proof (cases x)
  case (Take lk)
  then show ?thesis using wake_step.take [of m h lk ps] t free by blast
next
  case (Drop lk)
  then have "lk \<in> holds (h_todo m h)" using t by simp
  then have "lk_locked (k_locks (h_mem m) lk) \<noteq> 0" "lk_cpu (k_locks (h_mem m) lk) = Some (int h)" using locks_okD i by (auto simp: wake_inv_def)
  then show ?thesis using wake_step.drop [of m h lk ps] t Drop by blast
next
  case (Do f)
  have "\<forall>y \<in> set (h_todo m h). succeeds y" and len: "length (k_procs (h_mem m)) = NPROC" using i by (simp_all add: wake_inv_def)
  then have "succeeds (Do f)" using t Do by (metis list.set_intros(1))
  then obtain b s where "f (h_flag m h) (h_mem m) = Ok b s" using len by auto metis
  then show ?thesis using wake_step.do [of m h f ps b s] t Do by blast
qed

lemma wake_progress:
  assumes i: "wake_inv n p chn l m" and h: "h_todo m h \<noteq> []"
  shows "\<exists>m'. wake_step m m'"
proof (cases "h_todo m 0 = []")
  case False
  note w = i [unfolded wake_inv_def]
  have "lk_locked (k_locks (h_mem m) (ProcLock p)) = 0" if "ProcLock p \<notin> holds (h_todo m 0)"
  proof (rule ccontr)
    assume "lk_locked (k_locks (h_mem m) (ProcLock p)) \<noteq> 0"
    then obtain g where g: "ProcLock p \<in> holds (h_todo m g)" using locks_ok_held w by blast
    have "1 \<le> g" using that g by (cases g) auto
    moreover have "g \<le> n" using g w by (metis emptyE holds.simps(1) not_less)
    ultimately have "waker_ok p chn m g" using w by blast
    then show False using False g before_turn_holds by (auto simp: waker_ok_def)
  qed
  then obtain x ps where t: "h_todo m 0 = x # ps" and "\<And>lk. x = Take lk \<Longrightarrow> lk_locked (k_locks (h_mem m) lk) = 0"
    using False w by (auto simp: sleeper_ok_def)
  then show ?thesis by (rule step_exists [OF i])
next
  case True
  note w = i [unfolded wake_inv_def]
  have sec: "section_ok l (h_todo m g)" for g using w True by (cases "g = 0"; cases "n < g") (auto simp: section_ok_def)
  show ?thesis
  proof (cases "\<exists>g. h_todo m g \<noteq> [] \<and> (\<forall>x \<in> set (h_todo m g). \<not> waits x)")
    case True
    then obtain g x ps where t: "h_todo m g = x # ps" "\<not> waits x" by (metis list.set_intros(1) neq_Nil_conv)
    then show ?thesis by (intro step_exists [OF i t(1)]) auto
  next
    case False
    then have busy: "h_todo m g \<noteq> [] \<Longrightarrow> \<exists>x \<in> set (h_todo m g). waits x" for g by blast
    have has: "l \<in> holds (h_todo m g)" if "lk \<in> holds (h_todo m g)" for g lk
      using section_ok_holds [OF sec busy, of g] that by (cases "h_todo m g = []") auto
    show ?thesis
  proof (cases "\<exists>g. l \<in> holds (h_todo m g)")
    case True
    then obtain g where g: "l \<in> holds (h_todo m g)" by blast
    then obtain x ps where t: "h_todo m g = x # ps" by (cases "h_todo m g") auto
    have "lk_locked (k_locks (h_mem m) lk) = 0" if "x = Take lk" for lk
    proof (rule ccontr)
      assume "lk_locked (k_locks (h_mem m) lk) \<noteq> 0"
      then obtain k where k: "lk \<in> holds (h_todo m k)" using locks_ok_held w by blast
      then have "k = g" using has [OF k] locks_okD(3) [OF _ g, of k] w by blast
      then show False using k t that by simp
    qed
    then show ?thesis by (rule step_exists [OF i t])
  next
    case False
    then obtain qs where t: "h_todo m h = Take l # qs" using section_ok_holds [OF sec busy [OF h]] by blast
    have "lk_locked (k_locks (h_mem m) l) = 0" using locks_ok_held False w by blast
    then show ?thesis using step_exists [OF i t] by blast
  qed
  qed
qed

lemma pieces_left_step:
  assumes i: "wake_inv n p chn l m" and st: "wake_step m m'"
  shows "pieces_left n m' < pieces_left n m"
proof -
  obtain h x ps where t: "h_todo m h = x # ps" "h_todo m' = (h_todo m)(h := ps)" using wake_step_shape [OF st] by metis
  then have h: "h \<le> n" using i by (auto simp: wake_inv_def not_less [symmetric])
  have "(\<Sum>g\<le>n. length (h_todo m' g)) < (\<Sum>g\<le>n. length (h_todo m g))"
    by (rule sum_strict_mono_ex1) (use t h in auto)
  then show ?thesis by (simp add: pieces_left_def)
qed

text \<open>So every run comes to an end, where all programs are.\<close>

lemma wake_finishes:
  assumes "wake_inv n p chn l m"
  shows "\<exists>m'. wake_reach m m' \<and> (\<forall>h. h_todo m' h = [])"
  using assms
proof (induction "pieces_left n m" arbitrary: m rule: less_induct)
  case less
  show ?case
  proof (cases "\<forall>h. h_todo m h = []")
    case False
    then obtain m1 where m1: "wake_step m m1" using wake_progress [OF less.prems] by blast
    then obtain m' where m': "wake_reach m1 m'" "\<forall>h. h_todo m' h = []"
      using less.hyps [of m1] pieces_left_step [OF less.prems m1] wake_inv_step [OF less.prems m1] by blast
    have "wake_reach m m'" using m'(1) by (induction rule: wake_reach.induct) (use m1 wake_reach.refl wake_reach.step in blast)+
    with m' show ?thesis by blast
  qed (use wake_reach.refl in blast)
qed

section \<open>The start\<close>

lemma elsewhereD: "elsewhere p l x \<Longrightarrow> succeeds x \<and> (l \<noteq> ProcLock p \<longrightarrow> aside p x) \<and> \<not> uses l x"
  by (cases x) (auto, metis)

lemma holds_cong: "holds v = holds w \<Longrightarrow> balanced v \<longleftrightarrow> balanced w \<Longrightarrow> holds (u @ v) = holds (u @ w) \<and> (balanced (u @ v) \<longleftrightarrow> balanced (u @ w))"
proof (induction u)
  case (Cons x u)
  then show ?case by (cases x) auto
qed simp

lemma wake_slots:
  assumes "\<And>j. ProcLock j \<notin> holds v"
  shows "holds (concat (map (\<lambda>i. if Some i \<noteq> me then wake_slot chn i else []) is) @ v) = holds v"
    "balanced (concat (map (\<lambda>i. if Some i \<noteq> me then wake_slot chn i else []) is) @ v) \<longleftrightarrow> balanced v"
  using assms by (induction "is") (auto simp: wake_slot_def)

lemma slot_total: "i < NPROC \<Longrightarrow> x \<in> set (wake_slot chn i) \<Longrightarrow> succeeds x"
  by (auto simp: wake_slot_def piece_defs proc_read_def proc_write_def exec_simps)

lemma slot_aside: "i \<noteq> p \<Longrightarrow> i < NPROC \<Longrightarrow> x \<in> set (wake_slot chn i) \<Longrightarrow> aside p x"
  by (auto simp: wake_slot_def piece_defs proc_read_def proc_write_def exec_simps)

lemma wakeup_split:
  assumes "p < NPROC" and "me \<noteq> Some p"
  obtains u v where "wakeup_pieces me chn = u @ wake_slot chn p @ v" "\<forall>x \<in> set u \<union> set v. aside p x"
proof -
  let ?f = "\<lambda>i. if Some i \<noteq> me then wake_slot chn i else []"
  have "[0..<NPROC] = [0..<p] @ p # [Suc p..<NPROC]"
    using assms(1) by (metis le0 less_imp_le_nat upt_add_eq_append upt_conv_Cons le_add_diff_inverse)
  then have "wakeup_pieces me chn = concat (map ?f [0..<p]) @ wake_slot chn p @ concat (map ?f [Suc p..<NPROC])"
    using assms(2) unfolding wakeup_pieces_def by auto
  moreover have a: "\<forall>x \<in> set (concat (map ?f is)). aside p x" if "\<forall>i \<in> set is. i \<noteq> p \<and> i < NPROC" for "is"
  proof
    fix x assume "x \<in> set (concat (map ?f is))"
    then obtain i where "i \<in> set is" "x \<in> set (wake_slot chn i)" by (auto split: if_splits)
    then show "aside p x" using slot_aside that by blast
  qed
  have "\<forall>x \<in> set (concat (map ?f [0..<p])). aside p x" "\<forall>x \<in> set (concat (map ?f [Suc p..<NPROC])). aside p x"
    using assms(1) by (intro a; simp)+
  ultimately show ?thesis by (intro that ball_Un [THEN iffD2] conjI)
qed

lemma waker_start:
  assumes l: "\<And>j. l \<noteq> ProcLock j" and e: "beside p l before after rest" and p: "p < NPROC" "me \<noteq> Some p"
    and ps_def: "ps = waker l me chn before after rest"
  shows "holds ps = {}" "balanced ps" "\<forall>x \<in> set ps. succeeds x" "before_turn p chn ps" "section_ok l ps"
proof -
  have l': "\<forall>j. l \<noteq> ProcLock j" using l by blast
  have x: "succeeds x" "aside p x" "\<not> uses l x" if "x \<in> set before \<union> set after \<union> set rest" for x
  proof -
    have "elsewhere p l x" using e that unfolding beside_def by blast
    then show "succeeds x" "aside p x" "\<not> uses l x" using elsewhereD [of p l x] l' by blast+
  qed
  have tail: "holds (after @ Drop l # rest) = {l}" "balanced (after @ Drop l # rest)" using e by (simp_all add: beside_def)
  have mid: "holds (wakeup_pieces me chn @ after @ Drop l # rest) = {l}" "balanced (wakeup_pieces me chn @ after @ Drop l # rest)"
  proof -
    have "ProcLock j \<notin> holds (after @ Drop l # rest)" for j using tail(1) l by (simp add: l [symmetric])
    from wake_slots [OF this] tail
    show "holds (wakeup_pieces me chn @ after @ Drop l # rest) = {l}" "balanced (wakeup_pieces me chn @ after @ Drop l # rest)"
      unfolding wakeup_pieces_def by blast+
  qed
  have "holds (before @ [Drop l]) = {l}" "balanced (before @ [Drop l])" using e by (simp_all add: beside_def)
  with mid show h: "holds ps = {}" "balanced ps"
    using holds_cong [of "wakeup_pieces me chn @ after @ Drop l # rest" "[Drop l]" before] by (simp_all add: ps_def waker_def)
  have wt: "succeeds x" if "x \<in> set (wakeup_pieces me chn)" for x
    using that slot_total by (auto simp: wakeup_pieces_def split: if_splits)
  have wu: "\<not> uses l x" if "x \<in> set (wakeup_pieces me chn)" for x
    using that l' by (auto simp: wakeup_pieces_def wake_slot_def split: if_splits)
  show "\<forall>x \<in> set ps. succeeds x" using wt x(1) by (auto simp: ps_def waker_def)
  obtain u v where uv: "wakeup_pieces me chn = u @ wake_slot chn p @ v" "\<forall>x \<in> set u \<union> set v. aside p x" using wakeup_split [OF p] by blast
  have "ps = (Take l # before @ u) @ wake_slot chn p @ (v @ after @ Drop l # rest)" using uv(1) by (simp add: ps_def waker_def)
  moreover have "\<forall>x \<in> set (Take l # before @ u) \<union> set (v @ after @ Drop l # rest). aside p x"
    using uv(2) x(2) l' by auto
  ultimately show "before_turn p chn ps" unfolding before_turn_def by blast
  have "\<forall>x \<in> set (before @ wakeup_pieces me chn @ after) \<union> set rest. \<not> uses l x" using wu x(3) by auto
  moreover have "ps = Take l # (before @ wakeup_pieces me chn @ after) @ Drop l # rest" by (simp add: ps_def waker_def)
  moreover have "\<forall>x \<in> set rest. \<not> waits x" using e by (simp add: beside_def)
  ultimately show "section_ok l ps" using h(1) unfolding section_ok_def by blast
qed

lemma sleeper_start:
  assumes "p < NPROC" and "l \<noteq> ProcLock p"
  shows "holds (sleeper p chn l) = {l}" "balanced (sleeper p chn l)" "\<forall>x \<in> set (sleeper p chn l). succeeds x"
  using assms by (auto simp: sleeper_def sleep_pieces_def piece_defs proc_write_def exec_simps)

lemma wake_inv_start:
  assumes "about_to_sleep n p chn l me before after rest m"
  shows "wake_inv n p chn l m"
proof -
  note a = assms [unfolded about_to_sleep_def]
  have l: "\<And>j. l \<noteq> ProcLock j" and p: "p < NPROC" and t0: "h_todo m 0 = sleeper p chn l" using a by auto
  have w: "h_todo m h = waker l (me h) chn (before h) (after h) (rest h)" "me h \<noteq> Some p" "beside p l (before h) (after h) (rest h)"
    if "1 \<le> h" "h \<le> n" for h using a that by blast+
  have t: "holds (h_todo m h) = (if h = 0 then {l} else {}) \<and> balanced (h_todo m h) \<and> (\<forall>x \<in> set (h_todo m h). succeeds x)" for h
  proof -
    consider "h = 0" | "1 \<le> h" "h \<le> n" | "0 < h" "n < h" by linarith
    then show ?thesis
    proof cases
      case 1
      then show ?thesis using sleeper_start [OF p l] t0 by simp
    next
      case 2
      then show ?thesis using waker_start(1-3) [OF l w(3) p w(2) w(1)] by simp
    qed (use a in simp)
  qed
  have "held_by (k_locks (h_mem m) lk) (\<lambda>h. lk \<in> holds (h_todo m h))" for lk
    using t a by (cases "lk = l") (auto simp: held_by_def intro!: exI [of _ 0])
  then have "locks_ok m" using t by (simp add: locks_ok_def)
  moreover have "waker_ok p chn m h \<and> section_ok l (h_todo m h)" if "1 \<le> h" "h \<le> n" for h
    using waker_start(4,5) [OF l w(3) p w(2) w(1)] that by (simp add: waker_ok_def)
  moreover have "sleeper_ok p chn l m" using t0 l by (simp add: sleeper_ok_def sleeper_def sleep_pieces_def)
  ultimately show ?thesis unfolding wake_inv_def using t a by blast
qed

lemma wake_inv_woken:
  assumes "wake_inv n p chn l m" and "1 \<le> h" "h \<le> n" and "h_todo m h = []"
  shows "h_todo m 0 = []" "p_state (slot_of p m) = RUNNABLE" "p_chan (slot_of p m) = chn"
proof -
  have "waker_ok p chn m h" "sleeper_ok p chn l m" using assms by (auto simp: wake_inv_def)
  then show "h_todo m 0 = []" "p_state (slot_of p m) = RUNNABLE" "p_chan (slot_of p m) = chn"
    using assms(4) by (auto simp: waker_ok_def before_turn_def in_turn_def past_turn_def sleeper_ok_def wake_slot_def)
qed


section \<open>Properties\<close>

text \<open>C10. No wakeup is lost. A process that holds the lock of a condition calls \<open>sleep\<close> on one hart, while any
  number of others are about to take that lock and to call \<open>wakeup\<close> for the channel, among other things;
  all take turns after each piece in any order. \<open>sleep\<close> and \<open>wakeup\<close> are those pieces. As soon as one of
  the others has come to its end, the sleeper has gone to sleep, with its channel set, and has been made
  runnable again. Until all have come to their end somebody can go on, each piece brings the end nearer,
  and it is reached.\<close>

theorem no_lost_wakeup:
  assumes "about_to_sleep n p chn l me before after rest m0" and "wake_reach m0 m"
  shows "(sleep chn (Some l) regs = bindM myproc (\<lambda>me. case me of None \<Rightarrow> fail (Panic ''sleep'')
      | Some p \<Rightarrow> bindM (alone (sleep_pieces p chn l) False) (\<lambda>_. sched regs)))
    \<and> (wakeup chn = forM [0..<NPROC] (\<lambda>i. bindM myproc (\<lambda>me.
        whenM (Some i \<noteq> me) (bindM (alone (wake_slot chn i) False) (\<lambda>_. ret ())))))
    \<and> (\<forall>h. 1 \<le> h \<and> h \<le> n \<and> h_todo m h = [] \<longrightarrow>
        h_todo m 0 = [] \<and> p_chan (k_procs (h_mem m) ! p) = chn \<and> p_state (k_procs (h_mem m) ! p) = RUNNABLE)
    \<and> ((\<exists>h. h_todo m h \<noteq> []) \<longrightarrow> (\<exists>m'. wake_step m m'))
    \<and> (\<forall>m'. wake_step m m' \<longrightarrow> pieces_left n m' < pieces_left n m)
    \<and> (\<exists>m'. wake_reach m m' \<and> (\<forall>h. h_todo m' h = []))"
proof -
  have i: "wake_inv n p chn l m" by (rule wake_inv_reach [OF assms(2) wake_inv_start [OF assms(1)]])
  show ?thesis
    using sleep_is_pieces wakeup_is_pieces wake_inv_woken [OF i] wake_progress [OF i] pieces_left_step [OF i] wake_finishes [OF i]
    by blast
qed

text \<open>Process 0 is in \<open>wait_process\<close>, about to sleep with \<open>wait_lock\<close>, while its children 1 and 2 exit on two
  other harts: there is a run to the end, and the parent is runnable then.\<close>

definition exits :: "nat \<Rightarrow> piece list" where
  "exits h = waker WaitLock (Some h) (ChanProc 0) [] (zombie_pieces h 7) [Drop (ProcLock h)]"

definition two_exits :: harts where
  "two_exits = \<lparr>h_mem = with_lock WaitLock (zero_lock\<lparr>lk_locked := 1, lk_cpu := Some 0\<rparr>) (boot_state demo_link),
     h_todo = (\<lambda>_. [])(0 := sleeper 0 (ChanProc 0) WaitLock, 1 := exits 1, 2 := exits 2), h_flag = (\<lambda>_. False)\<rparr>"

lemma zombie_elsewhere: "q \<noteq> p \<Longrightarrow> q < NPROC \<Longrightarrow> x \<in> set (zombie_pieces q status) \<Longrightarrow> elsewhere p WaitLock x"
  by (auto simp: zombie_pieces_def piece_defs proc_write_def exec_simps)

lemma two_exits_start:
  "about_to_sleep 2 0 (ChanProc 0) WaitLock Some (\<lambda>_. []) (\<lambda>h. zombie_pieces h 7) (\<lambda>h. [Drop (ProcLock h)]) two_exits"
proof -
  have t: "h_todo two_exits h = exits h" "h < NPROC" if "1 \<le> h" "h \<le> 2" for h
  proof -
    have "h = 1 \<or> h = 2" using that by linarith
    then show "h_todo two_exits h = exits h" "h < NPROC" by (auto simp: two_exits_def NPROC_def)
  qed
  have b: "beside 0 WaitLock [] (zombie_pieces h 7) [Drop (ProcLock h)]" if "1 \<le> h" "h < NPROC" for h
  proof -
    have "\<forall>x \<in> set (zombie_pieces h 7). elsewhere 0 WaitLock x" using zombie_elsewhere [of h 0] that by simp
    moreover have "holds (zombie_pieces h 7 @ [Drop WaitLock, Drop (ProcLock h)]) = {WaitLock}"
      "balanced (zombie_pieces h 7 @ [Drop WaitLock, Drop (ProcLock h)])" by (auto simp: zombie_pieces_def)
    ultimately show ?thesis using that by (simp add: beside_def)
  qed
  have "Some h \<noteq> Some 0 \<and> beside 0 WaitLock [] (zombie_pieces h 7) [Drop (ProcLock h)]
      \<and> h_todo two_exits h = waker WaitLock (Some h) (ChanProc 0) [] (zombie_pieces h 7) [Drop (ProcLock h)]" if "1 \<le> h" "h \<le> 2" for h
    using t [OF that] b [of h] that by (simp add: exits_def)
  moreover have "h_todo two_exits h = []" if "2 < h" for h using that by (simp add: two_exits_def)
  moreover have "0 < NPROC" "length (k_procs (h_mem two_exits)) = NPROC" "h_todo two_exits 0 = sleeper 0 (ChanProc 0) WaitLock"
    by (simp_all add: two_exits_def with_lock_def boot_state_def NPROC_def)
  moreover have "lk_locked (k_locks (h_mem two_exits) WaitLock) \<noteq> 0" "lk_cpu (k_locks (h_mem two_exits) WaitLock) = Some 0"
    "\<forall>lk. lk \<noteq> WaitLock \<longrightarrow> lk_locked (k_locks (h_mem two_exits) lk) = 0"
    by (simp_all add: two_exits_def with_lock_def boot_state_def zero_lock_def)
  ultimately show ?thesis unfolding about_to_sleep_def by (intro conjI) simp_all
qed

theorem no_lost_wakeup_witness:
  "\<exists>m. wake_reach two_exits m \<and> (\<forall>h. h_todo m h = []) \<and> p_chan (k_procs (h_mem m) ! 0) = ChanProc 0 \<and> p_state (k_procs (h_mem m) ! 0) = RUNNABLE"
proof -
  note * = no_lost_wakeup [OF two_exits_start, THEN conjunct2, THEN conjunct2]
  obtain m where m: "wake_reach two_exits m" "\<forall>h. h_todo m h = []"
    using * [OF wake_reach.refl] by blast
  moreover have "h_todo m 2 = []" using m(2) by blast
  ultimately have "p_chan (k_procs (h_mem m) ! 0) = ChanProc 0 \<and> p_state (k_procs (h_mem m) ! 0) = RUNNABLE"
    using * [OF m(1), THEN conjunct1] by (metis one_le_numeral le_refl)
  then show ?thesis using m by blast
qed

end
