(* ===== verification/Smp.thy ===== *)
theory Smp
  imports Kalloc
begin

text \<open>
  The spin locks of \<open>kernel/spinlock.c\<close> with several harts: \<open>acquire\<close> and \<open>release\<close> cut at each access to
  a field that harts share, and every interleaving of any number of harts that take and release locks
  in any order.

  The state is the kernel's memory with the control registers of each hart. The pieces are made of the
  same operations as the functions in \<open>Spinlock\<close>, and \<open>acquire_pieces\<close> and \<open>release_pieces\<close> show that
  these are the uninterrupted runs of the pieces. Each access is atomic and accesses are seen in the
  order they are made: the fences and the \<open>aq\<close>/\<open>rl\<close> bits of the swap are assumed to give that.
  \<open>push_off\<close> and \<open>pop_off\<close> are one piece each, because they touch only the registers and the \<open>struct cpu\<close>
  of the hart itself. The component \<open>m_inside\<close> records for the specification which critical sections a
  hart is in: from the end of \<open>acquire\<close> until \<open>release\<close> has passed its check.
\<close>

section \<open>Definitions\<close>

datatype point = Ready
  | AcqPush lockid | AcqCheck lockid | AcqCheckCpu lockid | AcqSwap lockid | AcqOwner lockid
  | RelCheck lockid | RelCheckCpu lockid | RelOwner lockid | RelUnlock lockid | RelPop
  | Stopped err

fun hart_step :: "point \<Rightarrow> kstate \<Rightarrow> (kstate, point) res" where
  "hart_step Ready s = ret Ready s"
| "hart_step (AcqPush lk) s = seqM push_off (ret (AcqCheck lk)) s"
| "hart_step (AcqCheck lk) s =
     bindM (readM (\<lambda>s. lk_locked (k_locks s lk))) (\<lambda>l. ret (if l \<noteq> 0 then AcqCheckCpu lk else AcqSwap lk)) s"
| "hart_step (AcqCheckCpu lk) s =
     bindM (readM (\<lambda>s. lk_cpu (k_locks s lk) = Some (mycpu s))) (\<lambda>h.
     if h then fail (Panic ''acquire'') else ret (AcqSwap lk)) s"
| "hart_step (AcqSwap lk) s =
     bindM (test_and_set lk) (\<lambda>old. ret (if old \<noteq> 0 then AcqSwap lk else AcqOwner lk)) s"
| "hart_step (AcqOwner lk) s =
     bindM (readM mycpu) (\<lambda>c. seqM (lock_write lk (\<lambda>l. l\<lparr>lk_cpu := Some c\<rparr>)) (ret Ready)) s"
| "hart_step (RelCheck lk) s =
     bindM (readM (\<lambda>s. lk_locked (k_locks s lk))) (\<lambda>l.
     if l \<noteq> 0 then ret (RelCheckCpu lk) else fail (Panic ''release'')) s"
| "hart_step (RelCheckCpu lk) s =
     bindM (readM (\<lambda>s. lk_cpu (k_locks s lk) = Some (mycpu s))) (\<lambda>h.
     if h then ret (RelOwner lk) else fail (Panic ''release'')) s"
| "hart_step (RelOwner lk) s = seqM (lock_write lk (\<lambda>l. l\<lparr>lk_cpu := None\<rparr>)) (ret (RelUnlock lk)) s"
| "hart_step (RelUnlock lk) s = seqM (lock_write lk (\<lambda>l. l\<lparr>lk_locked := 0\<rparr>)) (ret RelPop) s"
| "hart_step RelPop s = seqM pop_off (ret Ready) s"
| "hart_step (Stopped e) s = ret (Stopped e) s"

record smp =
  m_shared :: kstate
  m_csr :: "nat \<Rightarrow> csrs"
  m_at :: "nat \<Rightarrow> point"
  m_inside :: "nat \<Rightarrow> lockid set"

definition view :: "nat \<Rightarrow> smp \<Rightarrow> kstate" where
  "view h m = (m_shared m)\<lparr>k_csr := m_csr m h\<rparr>"

fun crossing :: "point \<Rightarrow> point \<Rightarrow> lockid set \<Rightarrow> lockid set" where
  "crossing (AcqOwner lk) q L = insert lk L"
| "crossing (RelCheckCpu lk) q L = (if q = RelOwner lk then L - {lk} else L)"
| "crossing p q L = L"

definition advance :: "nat \<Rightarrow> point \<Rightarrow> kstate \<Rightarrow> smp \<Rightarrow> smp" where
  "advance h q s m = m\<lparr>m_shared := s, m_csr := (m_csr m)(h := k_csr s), m_at := (m_at m)(h := q),
     m_inside := (m_inside m)(h := crossing (m_at m h) q (m_inside m h))\<rparr>"

text \<open>One step of one of \<open>n\<close> harts: it calls \<open>acquire\<close> or \<open>release\<close> on any lock; it goes on within a call,
  or stops in it by a panic; outside every critical section it does what it likes with its own
  registers, such as enabling interrupts.\<close>

inductive smp_step :: "nat \<Rightarrow> smp \<Rightarrow> smp \<Rightarrow> bool" for n where
  call: "h < n \<Longrightarrow> m_at m h = Ready \<Longrightarrow> q = AcqPush lk \<or> q = RelCheck lk \<Longrightarrow> smp_step n m (m\<lparr>m_at := (m_at m)(h := q)\<rparr>)"
| go: "h < n \<Longrightarrow> hart_step (m_at m h) (view h m) = Ok q s \<Longrightarrow> smp_step n m (advance h q s m)"
| stop: "h < n \<Longrightarrow> hart_step (m_at m h) (view h m) = Err e s \<Longrightarrow> smp_step n m (advance h (Stopped e) s m)"
| own: "h < n \<Longrightarrow> m_at m h = Ready \<Longrightarrow> cpu_noff (k_cpus (m_shared m) ! h) = 0 \<Longrightarrow> c_tp c = c_tp (m_csr m h) \<Longrightarrow>
    smp_step n m (m\<lparr>m_csr := (m_csr m)(h := c)\<rparr>)"

inductive smp_reach :: "nat \<Rightarrow> smp \<Rightarrow> smp \<Rightarrow> bool" for n m where
  refl: "smp_reach n m m"
| step: "smp_reach n m m' \<Longrightarrow> smp_step n m' m'' \<Longrightarrow> smp_reach n m m''"

text \<open>Before the first call: every lock free, \<open>tp\<close> of each hart its number, a \<open>struct cpu\<close> for each.\<close>

definition smp_start :: "nat \<Rightarrow> smp \<Rightarrow> bool" where
  "smp_start n m \<longleftrightarrow> n \<le> length (k_cpus (m_shared m)) \<and> n \<le> 2147483648
     \<and> (\<forall>lk. lk_locked (k_locks (m_shared m) lk) = 0 \<and> lk_cpu (k_locks (m_shared m) lk) = None)
     \<and> (\<forall>h < n. c_tp (m_csr m h) = of_nat h \<and> m_at m h = Ready \<and> m_inside m h = {} \<and> cpu_noff (k_cpus (m_shared m) ! h) = 0)"

section \<open>The pieces and the functions\<close>

text \<open>What a hart does on its own, until it returns from the call or stops.\<close>

fun solo :: "nat \<Rightarrow> point \<Rightarrow> kstate \<Rightarrow> (kstate, point) res" where
  "solo 0 p s = Ok p s"
| "solo (Suc k) p s = bindM (hart_step p) (solo k) s"

lemmas piece_simps = eval_nat_numeral bindM_def seqM_def readM_def ret_def fail_def test_and_set_def lock_write_def modifyM_def

lemma acquire_pieces:
  "acquire lk s = (case solo 5 (AcqPush lk) s of Err e s' \<Rightarrow> Err e s'
     | Ok p s' \<Rightarrow> if p = Ready then Ok () s' else Err Spin s')"
  by (cases "push_off s") (auto simp: acquire_def holding_def piece_simps)

lemma release_pieces:
  "release lk s = (case solo 5 (RelCheck lk) s of Err e s' \<Rightarrow> Err e s' | Ok p s' \<Rightarrow> Ok () s')"
  by (auto simp: release_def holding_def piece_simps split: res.split)

section \<open>One hart\<close>

text \<open>What is true of hart \<open>h\<close> by itself: \<open>noff\<close> counts its critical sections and the call it is in, and
  interrupts are off while there is one.\<close>

fun in_call :: "point \<Rightarrow> int" where
  "in_call Ready = 0" | "in_call (AcqPush lk) = 0" | "in_call (RelCheck lk) = 0" | "in_call (RelCheckCpu lk) = 0"
| "in_call p = 1"

fun takes :: "point \<Rightarrow> lockid set" where
  "takes (AcqSwap lk) = {lk}" | "takes (AcqOwner lk) = {lk}" | "takes (RelOwner lk) = {lk}" | "takes (RelUnlock lk) = {lk}"
| "takes p = {}"

fun stopped :: "point \<Rightarrow> bool" where
  "stopped (Stopped e) = True" | "stopped p = False"

definition hart_ok :: "nat \<Rightarrow> csrs \<Rightarrow> cpu \<Rightarrow> point \<Rightarrow> lockid set \<Rightarrow> bool" where
  "hart_ok h c k p L \<longleftrightarrow> c_tp c = of_nat h \<and> finite L \<and> L \<inter> takes p = {}
     \<and> (\<not> stopped p \<longrightarrow> cpu_noff k = int (card L) + in_call p) \<and> int (card L) \<le> cpu_noff k \<and> (cpu_noff k \<noteq> 0 \<longrightarrow> \<not> intr_get c)"

lemma mycpu_of_hart:
  assumes "c_tp (k_csr s) = of_nat h" and "h < 2147483648"
  shows "mycpu s = int h"
proof -
  have "(ucast (of_nat h :: u64) :: i32) = of_nat h"
    using assms(2) by (simp add: unsigned_of_nat take_bit_nat_eq_self)
  moreover have "sint (of_nat h :: i32) = int h"
    using assms(2) by (simp add: signed_of_nat signed_take_bit_eq_take_bit_minus take_bit_int_eq_self bit_iff_odd)
  ultimately show ?thesis using assms(1) by (simp add: mycpu_def cpuid_def r_tp_def)
qed

lemmas hart_access = csr_read_def csr_write_def mycpu_read_def mycpu_write_def bindM_def seqM_def readM_def ret_def modifyM_def whenM_def

lemma push_off_hart:
  assumes "c_tp (k_csr s) = of_nat h" and "h < 2147483648" and "h < length (k_cpus s)"
  shows "push_off s = Ok () (s\<lparr>k_csr := intr_off (k_csr s), k_cpus := (k_cpus s)[h := (k_cpus s ! h)
    \<lparr>cpu_intena := (if cpu_noff (k_cpus s ! h) = 0 then intr_get (k_csr s) else cpu_intena (k_cpus s ! h)), cpu_noff := cpu_noff (k_cpus s ! h) + 1\<rparr>]\<rparr>)"
proof -
  have "mycpu (s\<lparr>k_csr := intr_off (k_csr s), k_cpus := cs\<rparr>) = int h" "mycpu (s\<lparr>k_csr := intr_off (k_csr s)\<rparr>) = int h" for cs
    using assms(1,2) by (auto intro!: mycpu_of_hart simp: intr_off_eq)
  then show ?thesis using assms(3)
    by (cases "cpu_noff (k_cpus s ! h) = 0") (simp_all add: push_off_def hart_access)
qed

lemma pop_off_hart:
  assumes "c_tp (k_csr s) = of_nat h" and "h < 2147483648" and "h < length (k_cpus s)"
    and "\<not> intr_get (k_csr s)" and "1 \<le> cpu_noff (k_cpus s ! h)"
  shows "pop_off s = Ok () (s\<lparr>k_csr := (if cpu_noff (k_cpus s ! h) = 1 \<and> cpu_intena (k_cpus s ! h) then intr_on (k_csr s) else k_csr s),
    k_cpus := (k_cpus s)[h := (k_cpus s ! h)\<lparr>cpu_noff := cpu_noff (k_cpus s ! h) - 1\<rparr>]\<rparr>)"
proof -
  have "mycpu s = int h" "mycpu (s\<lparr>k_cpus := cs\<rparr>) = int h" for cs using assms(1,2) by (auto intro!: mycpu_of_hart)
  then show ?thesis using assms(3-5)
    by (cases "cpu_noff (k_cpus s ! h) = 1 \<and> cpu_intena (k_cpus s ! h)") (simp_all add: pop_off_def hart_access, auto)
qed

section \<open>The invariant\<close>

text \<open>The hart that has won the swap of a lock and not yet given it back, and the hart the lock names.\<close>

definition owns :: "smp \<Rightarrow> nat \<Rightarrow> lockid \<Rightarrow> bool" where
  "owns m h lk \<longleftrightarrow> lk \<in> m_inside m h \<or> m_at m h \<in> {AcqOwner lk, RelOwner lk, RelUnlock lk}"

definition named :: "smp \<Rightarrow> nat \<Rightarrow> lockid \<Rightarrow> bool" where
  "named m h lk \<longleftrightarrow> lk \<in> m_inside m h \<or> m_at m h = RelOwner lk"

definition lock_ok :: "nat \<Rightarrow> smp \<Rightarrow> lockid \<Rightarrow> spinlock \<Rightarrow> bool" where
  "lock_ok n m lk l \<longleftrightarrow> (\<forall>h < n. \<forall>h' < n. owns m h lk \<longrightarrow> owns m h' lk \<longrightarrow> h = h')
     \<and> (lk_locked l = 0 \<longleftrightarrow> (\<forall>h < n. \<not> owns m h lk)) \<and> (\<forall>h < n. named m h lk \<longleftrightarrow> lk_cpu l = Some (int h))"

definition smp_inv :: "nat \<Rightarrow> smp \<Rightarrow> bool" where
  "smp_inv n m \<longleftrightarrow> n \<le> length (k_cpus (m_shared m)) \<and> n \<le> 2147483648 \<and> (\<forall>lk. lock_ok n m lk (k_locks (m_shared m) lk))
     \<and> (\<forall>h < n. hart_ok h (m_csr m h) (k_cpus (m_shared m) ! h) (m_at m h) (m_inside m h))"

lemma smp_inv_start: "smp_start n m \<Longrightarrow> smp_inv n m"
  by (auto simp: smp_start_def smp_inv_def lock_ok_def owns_def named_def hart_ok_def)

lemma view_simps [simp]:
  "k_cpus (view h m) = k_cpus (m_shared m)" "k_csr (view h m) = m_csr m h" "k_locks (view h m) = k_locks (m_shared m)"
  by (simp_all add: view_def)

lemma advance_simps [simp]:
  "m_shared (advance h q s m) = s" "m_csr (advance h q s m) = (m_csr m)(h := k_csr s)" "m_at (advance h q s m) = (m_at m)(h := q)"
  "m_inside (advance h q s m) = (m_inside m)(h := crossing (m_at m h) q (m_inside m h))"
  by (simp_all add: advance_def)

lemma smp_inv_advance:
  assumes "smp_inv n m" and "h < n" and "length (k_cpus s) = length (k_cpus (m_shared m))"
    and "\<And>h'. h' \<noteq> h \<Longrightarrow> k_cpus s ! h' = k_cpus (m_shared m) ! h'"
    and "hart_ok h (k_csr s) (k_cpus s ! h) q (crossing (m_at m h) q (m_inside m h))"
    and "\<And>lk. lock_ok n (advance h q s m) lk (k_locks s lk)"
  shows "smp_inv n (advance h q s m)"
  using assms by (auto simp: smp_inv_def)

text \<open>Steps that neither take nor give back a lock.\<close>

lemma lock_ok_idle:
  assumes "lock_ok n m lk l" and "(owns (advance h q s m) h lk \<longleftrightarrow> owns m h lk) \<and> (named (advance h q s m) h lk \<longleftrightarrow> named m h lk)"
  shows "lock_ok n (advance h q s m) lk l"
proof -
  have "owns (advance h q s m) h' lk \<longleftrightarrow> owns m h' lk" "named (advance h q s m) h' lk \<longleftrightarrow> named m h' lk" for h'
    using assms(2) by (cases "h' = h"; simp add: owns_def named_def)+
  then show ?thesis using assms(1) by (simp add: lock_ok_def)
qed

lemma hart_ok_idle:
  assumes "hart_ok h c k p L" and "in_call q = in_call p" and "L \<inter> takes q = {}" and "\<not> stopped p"
  shows "hart_ok h c k q L"
  using assms by (auto simp: hart_ok_def)

lemma smp_invD:
  assumes "smp_inv n m" and "h < n"
  shows "hart_ok h (m_csr m h) (k_cpus (m_shared m) ! h) (m_at m h) (m_inside m h)" "lock_ok n m lk (k_locks (m_shared m) lk)"
    "h < 2147483648" "h < length (k_cpus (m_shared m))" "c_tp (m_csr m h) = of_nat h" "mycpu (view h m) = int h"
proof -
  show "hart_ok h (m_csr m h) (k_cpus (m_shared m) ! h) (m_at m h) (m_inside m h)" "lock_ok n m lk (k_locks (m_shared m) lk)"
    "h < 2147483648" "h < length (k_cpus (m_shared m))" using assms by (auto simp: smp_inv_def)
  then show tp: "c_tp (m_csr m h) = of_nat h" by (simp add: hart_ok_def)
  show "mycpu (view h m) = int h" by (rule mycpu_of_hart) (use tp \<open>h < 2147483648\<close> in simp_all)
qed

lemma smp_go_push:
  assumes inv: "smp_inv n m" "h < n" and "m_at m h = AcqPush l" and "hart_step (m_at m h) (view h m) = Ok q s"
  shows "smp_inv n (advance h q s m)"
proof -
  note d = smp_invD [OF inv]
  obtain b where b: "push_off (view h m) = Ok () ((view h m)\<lparr>k_csr := intr_off (m_csr m h), k_cpus := (k_cpus (m_shared m))[h := (k_cpus (m_shared m) ! h)
      \<lparr>cpu_intena := b, cpu_noff := cpu_noff (k_cpus (m_shared m) ! h) + 1\<rparr>]\<rparr>)"
    using push_off_hart [of "view h m" h] d(3-5) unfolding view_simps by blast
  have s: "q = AcqCheck l" "s = (view h m)\<lparr>k_csr := intr_off (m_csr m h), k_cpus := (k_cpus (m_shared m))[h := (k_cpus (m_shared m) ! h)
      \<lparr>cpu_intena := b, cpu_noff := cpu_noff (k_cpus (m_shared m) ! h) + 1\<rparr>]\<rparr>"
    using assms(3,4) b by (simp_all add: seqM_def bindM_def ret_def)
  have "c_tp (intr_off (m_csr m h)) = c_tp (m_csr m h)" by (simp add: intr_off_eq)
  then show ?thesis using assms(3) d(1,4) d(2)
    by (intro smp_inv_advance [OF inv] lock_ok_idle) (auto simp: s hart_ok_def owns_def named_def)
qed

lemma smp_go_pop:
  assumes inv: "smp_inv n m" "h < n" and "m_at m h = RelPop" and "hart_step (m_at m h) (view h m) = Ok q s"
  shows "smp_inv n (advance h q s m)"
proof -
  note d = smp_invD [OF inv]
  have noff: "cpu_noff (k_cpus (m_shared m) ! h) = int (card (m_inside m h)) + 1" "\<not> intr_get (m_csr m h)"
    using d(1) assms(3) by (auto simp: hart_ok_def)
  obtain c where c: "pop_off (view h m) = Ok () ((view h m)\<lparr>k_csr := c, k_cpus := (k_cpus (m_shared m))[h := (k_cpus (m_shared m) ! h)
      \<lparr>cpu_noff := int (card (m_inside m h))\<rparr>]\<rparr>)" "c = m_csr m h \<or> c = intr_on (m_csr m h) \<and> card (m_inside m h) = 0"
    using pop_off_hart [of "view h m" h] d(3-5) noff unfolding view_simps by (cases "card (m_inside m h) = 0 \<and> cpu_intena (k_cpus (m_shared m) ! h)") auto
  have s: "q = Ready" "s = (view h m)\<lparr>k_csr := c, k_cpus := (k_cpus (m_shared m))[h := (k_cpus (m_shared m) ! h)\<lparr>cpu_noff := int (card (m_inside m h))\<rparr>]\<rparr>"
    using assms(3,4) c(1) by (simp_all add: seqM_def bindM_def ret_def)
  have "c_tp (intr_on (m_csr m h)) = c_tp (m_csr m h)" by (simp add: intr_on_eq)
  then show ?thesis using assms(3) d(1,4) d(2) noff c(2)
    by (intro smp_inv_advance [OF inv] lock_ok_idle) (auto simp: s hart_ok_def owns_def named_def)
qed

text \<open>Checks and a lost swap change nothing.\<close>

lemma smp_go_quiet:
  assumes inv: "smp_inv n m" "h < n" and q: "k_csr s = m_csr m h" "k_cpus s = k_cpus (m_shared m)" "k_locks s = k_locks (m_shared m)"
    and p: "in_call q = in_call (m_at m h)" "\<not> stopped (m_at m h) \<or> q = m_at m h" "m_inside m h \<inter> takes q = {}" "crossing (m_at m h) q (m_inside m h) = m_inside m h"
    and o: "\<And>lk. owns (advance h q s m) h lk \<longleftrightarrow> owns m h lk" "\<And>lk. named (advance h q s m) h lk \<longleftrightarrow> named m h lk"
  shows "smp_inv n (advance h q s m)"
  using smp_invD(1,2) [OF inv] q p
  by (intro smp_inv_advance [OF inv] lock_ok_idle) (auto simp: o hart_ok_def)

lemma inside_locked:
  assumes "smp_inv n m" and "h < n" and "lk \<in> m_inside m h"
  shows "lk_locked (k_locks (m_shared m) lk) \<noteq> 0" "lk_cpu (k_locks (m_shared m) lk) = Some (int h)"
proof -
  have "owns m h lk" "named m h lk" using assms(3) by (simp_all add: owns_def named_def)
  then show "lk_locked (k_locks (m_shared m) lk) \<noteq> 0" "lk_cpu (k_locks (m_shared m) lk) = Some (int h)"
    using smp_invD(2) [OF assms(1,2), of lk] assms(2) unfolding lock_ok_def by blast+
qed

lemmas step_simps = bindM_def seqM_def readM_def ret_def fail_def

lemma smp_go_check:
  assumes inv: "smp_inv n m" "h < n" and p: "m_at m h \<in> {Ready, AcqCheck l, AcqCheckCpu l, RelCheck l, Stopped e}"
    and go: "hart_step (m_at m h) (view h m) = Ok q s"
  shows "smp_inv n (advance h q s m)"
proof (rule smp_go_quiet [OF inv])
  have s: "s = view h m" using p go by (elim insertE) (auto simp: step_simps split: if_splits)
  then show "k_csr s = m_csr m h" "k_cpus s = k_cpus (m_shared m)" "k_locks s = k_locks (m_shared m)" by simp_all
  have qs: "m_at m h = q \<or> m_at m h = AcqCheck l \<and> q = AcqCheckCpu l \<or> m_at m h = RelCheck l \<and> q = RelCheckCpu l
      \<or> m_at m h \<in> {AcqCheck l, AcqCheckCpu l} \<and> q = AcqSwap l \<and> l \<notin> m_inside m h"
    using p go smp_invD(6) [OF inv] inside_locked [OF inv, of l] by (elim insertE) (auto simp: step_simps split: if_splits)
  have "p = q \<Longrightarrow> (\<forall>lk. p \<noteq> AcqOwner lk) \<Longrightarrow> crossing p q L = L" for p L by (cases p) auto
  with qs p show "in_call q = in_call (m_at m h)" "\<not> stopped (m_at m h) \<or> q = m_at m h" "crossing (m_at m h) q (m_inside m h) = m_inside m h"
    by auto
  show "m_inside m h \<inter> takes q = {}"
    using qs smp_invD(1) [OF inv] by (auto simp: hart_ok_def)
  show "owns (advance h q s m) h lk \<longleftrightarrow> owns m h lk" "named (advance h q s m) h lk \<longleftrightarrow> named m h lk" for lk
    using p qs by (auto simp: owns_def named_def)
qed

text \<open>Steps that write the fields of one lock.\<close>

lemma smp_inv_lock_step:
  assumes inv: "smp_inv n m" "h < n" and s: "s = (view h m)\<lparr>k_locks := (k_locks (m_shared m))(l := x)\<rparr>"
    and ok: "hart_ok h (m_csr m h) (k_cpus (m_shared m) ! h) q (crossing (m_at m h) q (m_inside m h))"
    and other: "\<And>lk. lk \<noteq> l \<Longrightarrow> (owns (advance h q s m) h lk \<longleftrightarrow> owns m h lk) \<and> (named (advance h q s m) h lk \<longleftrightarrow> named m h lk)"
    and l: "lock_ok n m l (k_locks (m_shared m) l) \<Longrightarrow> lock_ok n (advance h q s m) l x"
  shows "smp_inv n (advance h q s m)"
proof (rule smp_inv_advance [OF inv])
  fix lk
  show "lock_ok n (advance h q s m) lk (k_locks s lk)"
    using l smp_invD(2) [OF inv, of lk] lock_ok_idle [of n m lk "k_locks s lk" h q s] other [of lk] s by (cases "lk = l") simp_all
qed (use s ok in simp_all)

lemma owns_others: "h' \<noteq> h \<Longrightarrow> owns (advance h q s m) h' lk = owns m h' lk" "h' \<noteq> h \<Longrightarrow> named (advance h q s m) h' lk = named m h' lk"
  by (simp_all add: owns_def named_def)

lemma named_owns: "named m h lk \<Longrightarrow> owns m h lk"
  by (auto simp: named_def owns_def)

lemma smp_go_swap:
  assumes inv: "smp_inv n m" "h < n" and p: "m_at m h = AcqSwap l" and go: "hart_step (m_at m h) (view h m) = Ok q s"
  shows "smp_inv n (advance h q s m)"
proof -
  let ?l = "k_locks (m_shared m) l"
  have s: "s = (view h m)\<lparr>k_locks := (k_locks (m_shared m))(l := ?l\<lparr>lk_locked := 1\<rparr>)\<rparr>" "q = (if lk_locked ?l \<noteq> 0 then AcqSwap l else AcqOwner l)"
    using p go by (auto simp: step_simps test_and_set_def lock_write_def modifyM_def)
  have out: "l \<notin> m_inside m h" using smp_invD(1) [OF inv] p by (simp add: hart_ok_def)
  show ?thesis
  proof (rule smp_inv_lock_step [OF inv s(1)])
    show "hart_ok h (m_csr m h) (k_cpus (m_shared m) ! h) q (crossing (m_at m h) q (m_inside m h))"
      using smp_invD(1) [OF inv] p s(2) by (auto simp: hart_ok_def)
    show "(owns (advance h q s m) h lk \<longleftrightarrow> owns m h lk) \<and> (named (advance h q s m) h lk \<longleftrightarrow> named m h lk)" if "lk \<noteq> l" for lk
      using that p s(2) by (simp add: owns_def named_def)
    assume ok: "lock_ok n m l ?l"
    show "lock_ok n (advance h q s m) l (?l\<lparr>lk_locked := 1\<rparr>)"
    proof (cases "lk_locked ?l = 0")
      case True
      then have free: "\<not> owns m h' l" "\<not> named m h' l" if "h' < n" for h' using ok that named_owns by (auto simp: lock_ok_def)
      have "owns (advance h q s m) h l" "\<not> named (advance h q s m) h l" using out p s(2) True by (simp_all add: owns_def named_def)
      moreover have "owns (advance h q s m) h' l \<longleftrightarrow> h' = h" "named (advance h q s m) h' l \<longleftrightarrow> named m h' l" if "h' < n" for h'
        using calculation free [OF that] owns_others by (cases "h' = h"; simp)+
      ultimately show ?thesis using ok inv(2) by (auto simp: lock_ok_def)
    next
      case False
      then have "owns (advance h q s m) h l \<longleftrightarrow> owns m h l" "named (advance h q s m) h l \<longleftrightarrow> named m h l" using p s(2) by (simp_all add: owns_def named_def)
      then have "lock_ok n (advance h q s m) l ?l" by (intro lock_ok_idle [OF ok]) simp
      with False show ?thesis by (auto simp: lock_ok_def)
    qed
  qed
qed

lemma smp_go_owner:
  assumes inv: "smp_inv n m" "h < n" and p: "m_at m h = AcqOwner l" and go: "hart_step (m_at m h) (view h m) = Ok q s"
  shows "smp_inv n (advance h q s m)"
proof -
  let ?l = "k_locks (m_shared m) l"
  have s: "s = (view h m)\<lparr>k_locks := (k_locks (m_shared m))(l := ?l\<lparr>lk_cpu := Some (int h)\<rparr>)\<rparr>" "q = Ready"
    using p go smp_invD(6) [OF inv] by (auto simp: step_simps lock_write_def modifyM_def)
  show ?thesis
  proof (rule smp_inv_lock_step [OF inv s(1)])
    show "hart_ok h (m_csr m h) (k_cpus (m_shared m) ! h) q (crossing (m_at m h) q (m_inside m h))"
      using smp_invD(1) [OF inv] p s(2) by (auto simp: hart_ok_def)
    show "(owns (advance h q s m) h lk \<longleftrightarrow> owns m h lk) \<and> (named (advance h q s m) h lk \<longleftrightarrow> named m h lk)" if "lk \<noteq> l" for lk
      using that p s(2) by (simp add: owns_def named_def)
    assume ok: "lock_ok n m l ?l"
    have mine: "owns m h l" "owns (advance h q s m) h l" "named (advance h q s m) h l" using p s(2) by (simp_all add: owns_def named_def)
    have "\<not> named m h' l" if "h' < n" "h' \<noteq> h" for h' using ok mine(1) that inv(2) named_owns unfolding lock_ok_def by blast
    then have "named (advance h q s m) h' l \<longleftrightarrow> h' = h" "owns (advance h q s m) h' l \<longleftrightarrow> owns m h' l" if "h' < n" for h'
      using mine that owns_others by (cases "h' = h"; simp)+
    then show "lock_ok n (advance h q s m) l (?l\<lparr>lk_cpu := Some (int h)\<rparr>)"
      using ok by (auto simp: lock_ok_def)
  qed
qed

lemma smp_go_pass:
  assumes inv: "smp_inv n m" "h < n" and p: "m_at m h = RelCheckCpu l" and go: "hart_step (m_at m h) (view h m) = Ok q s"
  shows "smp_inv n (advance h q s m)"
proof -
  let ?l = "k_locks (m_shared m) l"
  have s: "s = view h m" "q = RelOwner l" "lk_cpu ?l = Some (int h)"
    using p go smp_invD(6) [OF inv] by (auto simp: step_simps split: if_splits)
  have "named m h l" using s(3) smp_invD(2) [OF inv, of l] inv(2) by (simp add: lock_ok_def)
  then have mine: "l \<in> m_inside m h" using p by (simp add: named_def)
  then have "0 < card (m_inside m h)" using smp_invD(1) [OF inv] by (auto simp: hart_ok_def card_gt_0_iff)
  with mine show ?thesis using smp_invD(1,2) [OF inv] p s(1,2)
    by (intro smp_inv_advance [OF inv] lock_ok_idle) (auto simp: hart_ok_def owns_def named_def card_Diff_singleton_if)
qed

lemma smp_go_relowner:
  assumes inv: "smp_inv n m" "h < n" and p: "m_at m h = RelOwner l" and go: "hart_step (m_at m h) (view h m) = Ok q s"
  shows "smp_inv n (advance h q s m)"
proof -
  let ?l = "k_locks (m_shared m) l"
  have s: "s = (view h m)\<lparr>k_locks := (k_locks (m_shared m))(l := ?l\<lparr>lk_cpu := None\<rparr>)\<rparr>" "q = RelUnlock l"
    using p go by (auto simp: step_simps lock_write_def modifyM_def)
  have out: "l \<notin> m_inside m h" using smp_invD(1) [OF inv] p by (simp add: hart_ok_def)
  show ?thesis
  proof (rule smp_inv_lock_step [OF inv s(1)])
    show "hart_ok h (m_csr m h) (k_cpus (m_shared m) ! h) q (crossing (m_at m h) q (m_inside m h))"
      using smp_invD(1) [OF inv] p s(2) by (auto simp: hart_ok_def)
    show "(owns (advance h q s m) h lk \<longleftrightarrow> owns m h lk) \<and> (named (advance h q s m) h lk \<longleftrightarrow> named m h lk)" if "lk \<noteq> l" for lk
      using that p s(2) by (simp add: owns_def named_def)
    assume ok: "lock_ok n m l ?l"
    have mine: "owns m h l" "owns (advance h q s m) h l" "\<not> named (advance h q s m) h l" using p s(2) out by (simp_all add: owns_def named_def)
    have "\<not> named m h' l" if "h' < n" "h' \<noteq> h" for h' using ok mine(1) that inv(2) named_owns unfolding lock_ok_def by blast
    then have "\<not> named (advance h q s m) h' l" "owns (advance h q s m) h' l \<longleftrightarrow> owns m h' l" if "h' < n" for h'
      using mine that owns_others by (cases "h' = h"; simp)+
    then show "lock_ok n (advance h q s m) l (?l\<lparr>lk_cpu := None\<rparr>)"
      using ok by (auto simp: lock_ok_def)
  qed
qed

lemma smp_go_unlock:
  assumes inv: "smp_inv n m" "h < n" and p: "m_at m h = RelUnlock l" and go: "hart_step (m_at m h) (view h m) = Ok q s"
  shows "smp_inv n (advance h q s m)"
proof -
  let ?l = "k_locks (m_shared m) l"
  have s: "s = (view h m)\<lparr>k_locks := (k_locks (m_shared m))(l := ?l\<lparr>lk_locked := 0\<rparr>)\<rparr>" "q = RelPop"
    using p go by (auto simp: step_simps lock_write_def modifyM_def)
  have out: "l \<notin> m_inside m h" using smp_invD(1) [OF inv] p by (simp add: hart_ok_def)
  show ?thesis
  proof (rule smp_inv_lock_step [OF inv s(1)])
    show "hart_ok h (m_csr m h) (k_cpus (m_shared m) ! h) q (crossing (m_at m h) q (m_inside m h))"
      using smp_invD(1) [OF inv] p s(2) by (auto simp: hart_ok_def)
    show "(owns (advance h q s m) h lk \<longleftrightarrow> owns m h lk) \<and> (named (advance h q s m) h lk \<longleftrightarrow> named m h lk)" if "lk \<noteq> l" for lk
      using that p s(2) by (simp add: owns_def named_def)
    assume ok: "lock_ok n m l ?l"
    have mine: "owns m h l" "\<not> owns (advance h q s m) h l" "named (advance h q s m) h l \<longleftrightarrow> named m h l" using p s(2) out by (simp_all add: owns_def named_def)
    have "\<not> owns m h' l" if "h' < n" "h' \<noteq> h" for h' using ok mine(1) that inv(2) unfolding lock_ok_def by blast
    then have "\<not> owns (advance h q s m) h' l" "named (advance h q s m) h' l \<longleftrightarrow> named m h' l" if "h' < n" for h'
      using mine that owns_others by (cases "h' = h"; simp)+
    then show "lock_ok n (advance h q s m) l (?l\<lparr>lk_locked := 0\<rparr>)"
      using ok by (auto simp: lock_ok_def)
  qed
qed

lemma smp_go:
  assumes inv: "smp_inv n m" "h < n" and go: "hart_step (m_at m h) (view h m) = Ok q s"
  shows "smp_inv n (advance h q s m)"
  by (cases "m_at m h")
     (rule smp_go_check [OF inv _ go] smp_go_push [OF inv _ go] smp_go_swap [OF inv _ go] smp_go_owner [OF inv _ go]
        smp_go_pass [OF inv _ go] smp_go_relowner [OF inv _ go] smp_go_unlock [OF inv _ go] smp_go_pop [OF inv _ go]; simp; fail)+

text \<open>A call ends in a panic only when it is misused.\<close>

lemma smp_stop:
  assumes inv: "smp_inv n m" "h < n" and stop: "hart_step (m_at m h) (view h m) = Err e s"
  shows "s = view h m \<and> (\<exists>l. e = Panic ''acquire'' \<and> m_at m h = AcqCheckCpu l \<and> l \<in> m_inside m h
    \<or> e = Panic ''release'' \<and> m_at m h \<in> {RelCheck l, RelCheckCpu l} \<and> l \<notin> m_inside m h)"
proof -
  note d = smp_invD [OF inv]
  have n: "named m h l \<longleftrightarrow> lk_cpu (k_locks (m_shared m) l) = Some (int h)" for l using d(2) [of l] inv(2) by (auto simp: lock_ok_def)
  show ?thesis
  proof (cases "m_at m h")
    case (AcqPush l)
    then show ?thesis using stop push_off_hart [of "view h m" h] d(3-5) by (simp add: step_simps)
  next
    case (AcqCheckCpu l)
    then show ?thesis using stop n [of l] d(6) by (auto simp: step_simps named_def split: if_splits)
  next
    case (RelCheck l)
    then show ?thesis using stop inside_locked(1) [OF inv, of l] by (auto simp: step_simps split: if_splits)
  next
    case (RelCheckCpu l)
    then show ?thesis using stop n [of l] d(6) by (auto simp: step_simps named_def split: if_splits)
  next
    case RelPop
    then have "cpu_noff (k_cpus (m_shared m) ! h) = int (card (m_inside m h)) + 1" "\<not> intr_get (m_csr m h)"
      using d(1) by (auto simp: hart_ok_def)
    with RelPop show ?thesis using stop pop_off_hart [of "view h m" h] d(3-5) by (simp add: step_simps)
  qed (use stop in \<open>auto simp: step_simps test_and_set_def lock_write_def modifyM_def\<close>)
qed

lemma smp_inv_step:
  assumes "smp_inv n m" and "smp_step n m m'"
  shows "smp_inv n m'"
  using assms(2)
proof cases
  case (call h q lk)
  have "hart_ok h (m_csr m h) (k_cpus (m_shared m) ! h) q (m_inside m h)" using smp_invD(1) [OF assms(1) call(2)] call(3,4) by (auto simp: hart_ok_def)
  moreover have "owns m' h' l \<longleftrightarrow> owns m h' l" "named m' h' l \<longleftrightarrow> named m h' l" for h' l using call by (auto simp: owns_def named_def)
  ultimately show ?thesis using assms(1) call(1,4) by (auto simp: smp_inv_def lock_ok_def)
next
  case (go h q s)
  then show ?thesis using smp_go [OF assms(1)] by simp
next
  case (stop h e s)
  note st = smp_stop [OF assms(1) stop(2,3)]
  then have p: "crossing (m_at m h) (Stopped e) (m_inside m h) = m_inside m h" "\<forall>l. m_at m h \<notin> {AcqOwner l, RelOwner l, RelUnlock l}" by auto
  then have "owns m' h l \<longleftrightarrow> owns m h l" "named m' h l \<longleftrightarrow> named m h l" for l using stop(1) by (auto simp: owns_def named_def)
  then show ?thesis using smp_invD(1,2) [OF assms(1) stop(2)] p st stop(1)
    by (auto intro!: smp_inv_advance [OF assms(1) stop(2)] lock_ok_idle simp: hart_ok_def)
next
  case (own h c)
  have "cpu_noff (k_cpus (m_shared m) ! h) = 0 \<Longrightarrow> hart_ok h c (k_cpus (m_shared m) ! h) (m_at m h) (m_inside m h)"
    using smp_invD(1) [OF assms(1) own(2)] own(5) by (auto simp: hart_ok_def)
  then show ?thesis using assms(1) own by (auto simp: smp_inv_def lock_ok_def owns_def named_def)
qed

lemma smp_inv_reach: "smp_reach n m m' \<Longrightarrow> smp_inv n m \<Longrightarrow> smp_inv n m'"
  by (induction rule: smp_reach.induct) (auto intro: smp_inv_step)

lemma holding_inside:
  assumes "smp_inv n m" and "h < n"
  shows "lk \<in> m_inside m h \<Longrightarrow> holding lk (view h m)" "m_at m h = Ready \<Longrightarrow> holding lk (view h m) \<longleftrightarrow> lk \<in> m_inside m h"
proof -
  note d = smp_invD [OF assms]
  show hold: "holding lk (view h m)" if "lk \<in> m_inside m h" using that inside_locked [OF assms] d(6) by (simp add: holding_def)
  have "lk_cpu (k_locks (m_shared m) lk) = Some (int h) \<Longrightarrow> named m h lk" using d(2) [of lk] assms(2) by (simp add: lock_ok_def)
  then show "holding lk (view h m) \<longleftrightarrow> lk \<in> m_inside m h" if "m_at m h = Ready" using that hold d(6) by (auto simp: holding_def named_def)
qed

section \<open>A run of two harts\<close>

definition hart_go :: "nat \<Rightarrow> smp \<Rightarrow> smp" where
  "hart_go h m = (case hart_step (m_at m h) (view h m) of Ok q s \<Rightarrow> advance h q s m | Err e s \<Rightarrow> advance h (Stopped e) s m)"

lemma hart_go_step: "h < n \<Longrightarrow> smp_step n m (hart_go h m)"
  by (auto simp: hart_go_def intro: smp_step.go smp_step.stop split: res.split)

lemma hart_go_reach: "smp_reach n m m' \<Longrightarrow> h < n \<Longrightarrow> smp_reach n m (hart_go h m')"
  by (blast intro: smp_reach.step hart_go_step)

definition two_harts :: smp where
  "two_harts = \<lparr>m_shared = (boot_state demo_link)\<lparr>k_cpus := [zero_cpu, zero_cpu]\<rparr>, m_csr = (\<lambda>h. zero_csrs\<lparr>c_tp := of_nat h\<rparr>),
     m_at = (\<lambda>_. Ready), m_inside = (\<lambda>_. {})\<rparr>"

lemma two_harts_start: "smp_start 2 two_harts"
  by (auto simp: smp_start_def two_harts_def boot_state_def zero_lock_def zero_cpu_def less_2_cases_iff)

text \<open>Both harts call \<open>acquire\<close> on the allocator's lock; hart 0 gets it and hart 1 spins.\<close>

definition contended :: smp where
  "contended = hart_go 1 (hart_go 0 (hart_go 0 (hart_go 1 (hart_go 0 (hart_go 1 (hart_go 0
     (two_harts\<lparr>m_at := (\<lambda>_. Ready)(0 := AcqPush KmemLock, 1 := AcqPush KmemLock)\<rparr>)))))))"

lemma contended_reached: "smp_reach 2 two_harts contended"
proof -
  let ?a = "two_harts\<lparr>m_at := (m_at two_harts)(0 := AcqPush KmemLock)\<rparr>"
  let ?b = "?a\<lparr>m_at := (m_at ?a)(1 := AcqPush KmemLock)\<rparr>"
  have "smp_step 2 two_harts ?a" by (rule smp_step.call) (auto simp: two_harts_def)
  moreover have "smp_step 2 ?a ?b" by (rule smp_step.call) (auto simp: two_harts_def)
  ultimately have "smp_reach 2 two_harts ?b" by (blast intro: smp_reach.intros)
  moreover have "?b = two_harts\<lparr>m_at := (\<lambda>_. Ready)(0 := AcqPush KmemLock, 1 := AcqPush KmemLock)\<rparr>" by (simp add: two_harts_def)
  ultimately have "smp_reach 2 two_harts (two_harts\<lparr>m_at := (\<lambda>_. Ready)(0 := AcqPush KmemLock, 1 := AcqPush KmemLock)\<rparr>)" by simp
  then show ?thesis unfolding contended_def by (intro hart_go_reach) simp_all
qed

lemma contended_points: "m_inside contended 0 = {KmemLock}" "m_at contended 0 = Ready" "m_at contended 1 = AcqSwap KmemLock"
  by (simp_all add: contended_def hart_go_def two_harts_def view_def piece_simps push_off_def hart_access advance_def mycpu_def cpuid_def r_tp_def
    boot_state_def zero_csrs_def zero_cpu_def zero_lock_def intr_off_eq)

section \<open>Properties\<close>

text \<open>C11. Mutual exclusion: however the steps of any number of harts interleave, and whatever locks they call
  \<open>acquire\<close> and \<open>release\<close> on, no two harts are inside a critical section of the same lock, interrupts
  are off on every hart that is inside one, and \<open>holding\<close> answers exactly whether the hart that asks is
  inside, although it reads the two fields of the lock one after the other without holding it.\<close>

theorem smp_mutual_exclusion:
  assumes "smp_start n m0" and "smp_reach n m0 m" and "h < n" and "h' < n"
  shows "(lk \<in> m_inside m h \<longrightarrow> lk \<in> m_inside m h' \<longrightarrow> h = h') \<and> (m_inside m h \<noteq> {} \<longrightarrow> \<not> intr_get (m_csr m h))
     \<and> (m_at m h = Ready \<longrightarrow> holding lk (view h m) = (lk \<in> m_inside m h)
          \<and> cpu_noff (k_cpus (m_shared m) ! h) = int (card (m_inside m h)))"
proof -
  have inv: "smp_inv n m" using smp_inv_reach [OF assms(2) smp_inv_start [OF assms(1)]] .
  note d = smp_invD [OF inv assms(3)]
  have "h = h'" if "lk \<in> m_inside m h" "lk \<in> m_inside m h'"
  proof -
    have "owns m h lk" "owns m h' lk" using that by (simp_all add: owns_def)
    then show ?thesis using d(2) [of lk] assms(3,4) unfolding lock_ok_def by blast
  qed
  moreover have "\<not> intr_get (m_csr m h)" if "m_inside m h \<noteq> {}"
  proof -
    have "0 < card (m_inside m h)" using that d(1) by (simp add: hart_ok_def card_gt_0_iff)
    then show ?thesis using d(1) by (auto simp: hart_ok_def)
  qed
  ultimately show ?thesis using d(1) holding_inside(2) [OF inv assms(3), of lk] by (auto simp: hart_ok_def)
qed

theorem smp_mutual_exclusion_witness:
  "KmemLock \<in> m_inside contended 0 \<and> KmemLock \<notin> m_inside contended 1 \<and> \<not> intr_get (m_csr contended 0) \<and> holding KmemLock (view 0 contended)"
  using smp_mutual_exclusion [OF two_harts_start contended_reached, of 0 1 KmemLock] contended_points by simp

text \<open>C28. A call of \<open>acquire\<close> or \<open>release\<close> is stopped by a panic only when it is misused, on a lock the hart is
  inside already or is not inside of, and then it is; every other step within a call succeeds on every
  interleaving, and the next swap of a hart that waits for a lock takes it if no other hart has it.\<close>

theorem smp_calls_proceed:
  assumes "smp_start n m0" and "smp_reach n m0 m" and "h < n"
  shows "(case hart_step (m_at m h) (view h m) of
      Err e s \<Rightarrow> (\<exists>l. e = Panic ''acquire'' \<and> m_at m h = AcqCheckCpu l \<and> l \<in> m_inside m h
          \<or> e = Panic ''release'' \<and> m_at m h \<in> {RelCheck l, RelCheckCpu l} \<and> l \<notin> m_inside m h)
    | Ok q s \<Rightarrow> (\<forall>l. (m_at m h = AcqCheckCpu l \<longrightarrow> l \<notin> m_inside m h) \<and> (m_at m h = RelCheckCpu l \<longrightarrow> l \<in> m_inside m h)
          \<and> (m_at m h = AcqSwap l \<longrightarrow> q = (if \<exists>h' < n. owns m h' l then AcqSwap l else AcqOwner l))))"
proof -
  have inv: "smp_inv n m" using smp_inv_reach [OF assms(2) smp_inv_start [OF assms(1)]] .
  note d = smp_invD [OF inv assms(3)]
  have n: "named m h l \<longleftrightarrow> lk_cpu (k_locks (m_shared m) l) = Some (int h)" "lk_locked (k_locks (m_shared m) l) = 0 \<longleftrightarrow> (\<forall>h' < n. \<not> owns m h' l)" for l
    using d(2) [of l] assms(3) by (auto simp: lock_ok_def)
  show ?thesis
  proof (cases "hart_step (m_at m h) (view h m)")
    case (Err e s)
    then show ?thesis using smp_stop [OF inv assms(3)] by auto
  next
    case (Ok q s)
    have "(m_at m h = AcqCheckCpu l \<longrightarrow> l \<notin> m_inside m h) \<and> (m_at m h = RelCheckCpu l \<longrightarrow> l \<in> m_inside m h)" for l
      using Ok n(1) [of l] d(6) by (auto simp: step_simps named_def split: if_splits)
    moreover have "q = (if \<exists>h' < n. owns m h' l then AcqSwap l else AcqOwner l)" if "m_at m h = AcqSwap l" for l
      using Ok that n(2) [of l] by (auto simp: step_simps test_and_set_def lock_write_def modifyM_def split: if_splits)
    ultimately show ?thesis using Ok by simp
  qed
qed

theorem smp_calls_proceed_witness: "\<exists>s. hart_step (m_at contended 1) (view 1 contended) = Ok (AcqSwap KmemLock) s"
proof -
  have o: "\<exists>h' < 2. owns contended h' KmemLock" using contended_points(1) by (intro exI [of _ 0]) (simp add: owns_def)
  show ?thesis using smp_calls_proceed [OF two_harts_start contended_reached, of 1] contended_points(3) o
    by (cases "hart_step (m_at contended 1) (view 1 contended)") auto
qed

end
