(* ===== verification/Entry.thy ===== *)
theory Entry
  imports Memory
begin

text \<open>
  \<open>kernel/boot/entry.S\<close>: what the hart does before the first C function. It stores zero words from
  \<open>sbss\<close> on until it has reached \<open>ebss\<close>, points the stack pointer past its part of \<open>stack0\<close> and calls
  \<open>start\<close>. The three addresses are the linker's. The loop tests after the store, with a signed
  comparison, and would not end for every pair of addresses: it is a partial function, and
  \<open>entry_clears_bss\<close> shows that it returns for those a linker can assign.
\<close>

section \<open>Definitions\<close>

partial_function (option) bss_loop :: "u64 \<Rightarrow> u64 \<Rightarrow> memory \<Rightarrow> memory option" where
  "bss_loop a0 a1 m =
     (let m' = store64 m a0 0; a0' = a0 + 8 in if sint a0' < sint a1 then bss_loop a0' a1 m' else Some m')"

text \<open>The result is memory and the stack pointer with which \<open>start\<close> is called.\<close>

definition entry :: "u64 \<Rightarrow> u64 \<Rightarrow> u64 \<Rightarrow> u64 \<Rightarrow> memory \<Rightarrow> (memory \<times> u64) option" where
  "entry sbss ebss stack0 mhartid m =
     (case bss_loop sbss ebss m of None \<Rightarrow> None
      | Some m' \<Rightarrow> let sp = stack0; a0 = 1024 * 4; a1 = mhartid + 1; a0 = a0 * a1 in Some (m', sp + a0))"

section \<open>The loop\<close>

lemma sint_small:
  assumes "unat (a :: u64) < 9223372036854775808"
  shows "sint a = int (unat a)"
proof -
  have "uint a < 9223372036854775808" using assms by (simp add: nat_less_iff flip: nat_uint_eq)
  have "sint a = uint a" unfolding sint_uint
  proof (rule signed_take_bit_int_eq_self)
    show "- (2 ^ (LENGTH(64) - Suc 0)) \<le> uint a" by (rule order_trans [of _ 0]) simp_all
    show "uint a < 2 ^ (LENGTH(64) - Suc 0)" using \<open>uint a < 9223372036854775808\<close> by simp
  qed
  then show ?thesis by simp
qed

lemma sint_less_small:
  "unat (a :: u64) < 9223372036854775808 \<Longrightarrow> unat b < 9223372036854775808 \<Longrightarrow> sint a < sint b \<longleftrightarrow> unat a < unat b" for b :: u64
  by (simp only: sint_small of_nat_less_iff)

lemma unat_offset_8:
  "unat (x - (a + 8)) = (if unat (x - a) < 8 then unat (x - a) + 18446744073709551608 else unat (x - a) - 8)" for x a :: u64
proof -
  have "x - (a + 8) = (x - a) - 8" by simp
  then show ?thesis using unat_sub_if_size [of "x - a" 8] by (simp only: word_size) simp
qed

lemma bss_loop_words:
  assumes "unat a0 + 8 * Suc k < 9223372036854775808" and "unat a1 \<le> unat a0 + 8 * Suc k" and "k = 0 \<or> unat a0 + 8 * k < unat a1"
  shows "bss_loop a0 a1 m = Some (\<lambda>x. if unat (x - a0) < 8 * Suc k then 0 else m x)"
  using assms
proof (induction k arbitrary: a0 m)
  case 0
  have "unat (a0 + 8) = unat a0 + 8" using 0(1) by (simp add: unat_word_ariths)
  then have "\<not> sint (a0 + 8) < sint a1" using 0 by (simp add: sint_less_small)
  then show ?case by (subst bss_loop.simps) (simp add: Let_def store64_apply fun_eq_iff)
next
  case (Suc k)
  have u: "unat (a0 + 8) = unat a0 + 8" using Suc.prems(1) by (simp add: unat_word_ariths)
  have "sint (a0 + 8) < sint a1" using Suc.prems u by (simp add: sint_less_small)
  then have "bss_loop a0 a1 m = bss_loop (a0 + 8) a1 (store64 m a0 0)" by (subst bss_loop.simps) (simp add: Let_def)
  also have "\<dots> = Some (\<lambda>x. if unat (x - (a0 + 8)) < 8 * Suc k then 0 else store64 m a0 0 x)"
    by (rule Suc.IH) (use Suc.prems u in auto)
  also have "(\<lambda>x. if unat (x - (a0 + 8)) < 8 * Suc k then 0 else store64 m a0 0 x) = (\<lambda>x. if unat (x - a0) < 8 * Suc (Suc k) then 0 else m x)"
    using Suc.prems(1) by (auto simp: fun_eq_iff store64_apply unat_offset_8)
  finally show ?case .
qed

section \<open>Properties\<close>

text \<open>C35. \<open>entry\<close> returns: it clears the words from \<open>sbss\<close> up to \<open>ebss\<close>, one word when the section is empty,
  and no other byte, and gives each hart the end of its own 4096 bytes of \<open>stack0\<close> as its stack.\<close>

theorem entry_clears_bss:
  assumes "unat sbss \<le> unat ebss" and "unat ebss + 8 < 9223372036854775808"
  shows "entry sbss ebss stack0 mhartid m
    = Some (\<lambda>x. if unat (x - sbss) < 8 * max 1 ((unat ebss - unat sbss + 7) div 8) then 0 else m x, stack0 + 4096 * (mhartid + 1))"
proof -
  let ?d = "unat ebss - unat sbss"
  define k where "k = max 1 ((?d + 7) div 8) - 1"
  have k: "Suc k = max 1 ((?d + 7) div 8)" "?d \<le> 8 * Suc k" "k = 0 \<or> 8 * k < ?d" "8 * Suc k \<le> ?d + 8" by (auto simp: k_def)
  have "bss_loop sbss ebss m = Some (\<lambda>x. if unat (x - sbss) < 8 * Suc k then 0 else m x)"
    by (rule bss_loop_words) (use k(2-4) assms in linarith)+
  then show ?thesis unfolding k(1) by (simp add: entry_def Let_def)
qed

theorem entry_clears_bss_witness:
  "\<exists>m' sp. entry 0x80009000 0x80009020 0x8000A000 0 (\<lambda>_. 7) = Some (m', sp) \<and> m' 0x80009000 = 0 \<and> m' 0x8000901F = 0 \<and> m' 0x80009020 = 7 \<and> sp = 0x8000B000"
  using entry_clears_bss [of "0x80009000" "0x80009020" "0x8000A000" 0 "\<lambda>_. 7"] by simp

end
