(* ===== verification/Procinit.thy ===== *)
theory Procinit
  imports Sched
begin

text \<open>
  \<open>procinit\<close> (\<open>kernel/proc.c\<close>): every slot gets its lock, the state \<open>UNUSED\<close> and a kernel stack of one
  page, mapped below the trampoline with an unmapped guard page on each side.
\<close>

section \<open>The kernel's address space with stacks\<close>

definition stack_map :: "u64 list \<Rightarrow> (u64 \<Rightarrow> u64) \<Rightarrow> u64 \<Rightarrow> u64" where
  "stack_map st tr v = (case find (\<lambda>j. vpn v = vpn (KSTACK j)) [0..<length st] of
     Some j \<Rightarrow> PA2PTE (st ! j) OR (PTE_R OR PTE_W) OR PTE_V | None \<Rightarrow> tr v)"

definition stacked :: "nat \<Rightarrow> proc list \<Rightarrow> proc list" where
  "stacked k ps = map (\<lambda>i. if i < k then (ps ! i)\<lparr>p_state := UNUSED, p_kstack := KSTACK i\<rparr> else ps ! i) [0..<length ps]"

lemma length_stacked [simp]: "length (stacked k ps) = length ps"
  by (simp add: stacked_def)

lemma stacked_0 [simp]: "stacked 0 ps = ps"
  by (simp add: stacked_def map_nth)

lemma stacked_Suc: "k < length ps \<Longrightarrow> stacked (Suc k) ps = (stacked k ps)[k := (stacked k ps ! k)\<lparr>p_state := UNUSED, p_kstack := KSTACK k\<rparr>]"
  by (rule nth_equalityI) (auto simp: stacked_def nth_list_update less_Suc_eq)

lemma vpn_KSTACK: "i < NPROC \<Longrightarrow> vpn (KSTACK i) = 67108863 - 2 * (i + 1)"
proof -
  assume i: "i < NPROC"
  have "67108863 * 4096 - (i + 1) * 2 * 4096 = (67108863 - 2 * (i + 1)) * (4096 :: nat)" using i by (simp add: NPROC_def)
  then have "unat (KSTACK i) div 4096 = 67108863 - 2 * (i + 1)" using unat_KSTACK [OF i] by simp
  then show ?thesis by (simp add: vpn_def)
qed

lemma KSTACK_aligned: "i < NPROC \<Longrightarrow> pg_aligned (KSTACK i)"
  by (simp add: pg_aligned_unat unat_KSTACK NPROC_def)

lemma stack_map_append:
  assumes "length st < NPROC"
  shows "stack_map (st @ [p]) tr = (\<lambda>v. if vpn v = vpn (KSTACK (length st)) then PA2PTE p OR (PTE_R OR PTE_W) OR PTE_V else stack_map st tr v)"
proof
  fix v
  let ?P = "\<lambda>j. vpn v = vpn (KSTACK j)"
  have app: "find P (as @ [k]) = (case find P as of Some j \<Rightarrow> Some j | None \<Rightarrow> if P k then Some k else None)"
    for P and as :: "nat list" and k
    by (induction as) auto
  show "stack_map (st @ [p]) tr v = (if ?P (length st) then PA2PTE p OR (PTE_R OR PTE_W) OR PTE_V else stack_map st tr v)"
  proof (cases "find ?P [0..<length st]")
    case None
    then show ?thesis by (simp add: stack_map_def app)
  next
    case (Some j)
    then have j: "j < length st" "?P j" unfolding find_Some_iff by auto
    then have "\<not> ?P (length st)" using assms vpn_KSTACK [of j] vpn_KSTACK [of "length st"] by (simp add: NPROC_def)
    then show ?thesis using Some j by (simp add: stack_map_def app nth_append)
  qed
qed

text \<open>All kernel stacks lie in the same 2 MB, so only the first one can need new tables.\<close>

lemma absent_KSTACK:
  assumes "i < NPROC" and "j < NPROC" and "pte_valid (translate s pt (KSTACK j))"
  shows "absent s pt (KSTACK i) = 0"
proof -
  have "unat (KSTACK k) div 4096 div 512 = 131071" "unat (KSTACK k) div 4096 div 262144 = 255" if "k < NPROC" for k
    using that unat_KSTACK [OF that] by (simp_all add: NPROC_def)
  then have "VPN_MASK (KSTACK i) 2 = VPN_MASK (KSTACK j) 2" "VPN_MASK (KSTACK i) (Suc 0) = VPN_MASK (KSTACK j) (Suc 0)"
    using assms(1,2) by (simp_all only: word_unat_eq_iff unat_VPN_levels)
  then show ?thesis using valid_absent [OF assms(3)] by (auto simp: absent_levels split: if_splits)
qed

section \<open>One slot\<close>

lemma hart_initlock:
  assumes "hart H e c s" and "lk \<notin> H"
  shows "hart H e c (s\<lparr>k_locks := (k_locks s)(lk := \<lparr>lk_locked = 0, lk_name = nm, lk_cpu = None\<rparr>)\<rparr>)"
proof -
  let ?s = "s\<lparr>k_locks := (k_locks s)(lk := \<lparr>lk_locked = 0, lk_name = nm, lk_cpu = None\<rparr>)\<rparr>"
  have "lock_held ?s l = (l \<noteq> lk \<and> lock_held s l)" "lock_free ?s l = (l = lk \<or> lock_free s l)" for l
    by (simp_all add: lock_held_def lock_free_def)
  then show ?thesis using assms by (auto simp: hart_def split: if_splits)
qed

lemma vm_rep_hart:
  "hart H e c s \<Longrightarrow> KmemLock \<notin> H \<Longrightarrow> vm_rep s pt xs \<longleftrightarrow>
     free_pages s xs \<and> pt_wf (k_link s) (k_mem s) 2 pt \<and> pt_set (k_mem s) 2 pt \<inter> set xs = {}"
  by (simp add: vm_rep_def kmem_rep_hart)

lemma vm_rep_data:
  assumes "hart H e c s" and "hart H e c s'" and "KmemLock \<notin> H" and "k_link s' = k_link s" and "k_mem s' = k_mem s" and "k_freelist s' = k_freelist s"
  shows "vm_rep s' pt xs \<longleftrightarrow> vm_rep s pt xs" and "tables s' = tables s" and "translate s' = translate s" and "absent s' = absent s"
proof -
  show "vm_rep s' pt xs \<longleftrightarrow> vm_rep s pt xs"
    by (simp only: vm_rep_hart [OF assms(1,3)] vm_rep_hart [OF assms(2,3)] free_pages_def assms(4-))
qed (intro ext, simp only: tables_def translate_def absent_def assms(5))+

lemma wp_procinit_slot:
  assumes h: "hart H e c s" "KmemLock \<notin> H" "ProcLock i \<notin> H" and rep: "vm_rep s pt (p # xs)" and pt: "k_pagetable s = pt"
    and i: "i < NPROC" "i < length (k_procs s)"
    and free: "\<And>v. vpn v = vpn (KSTACK i) \<Longrightarrow> \<not> pte_valid (translate s pt v)" 
    and pool: "n \<le> length xs" "\<And>t. translate t pt = translate s pt \<Longrightarrow> absent t pt (KSTACK i) \<le> n"
    and Q: "\<And>s' ns ys. hart H e c s' \<Longrightarrow> xs = ns @ ys \<Longrightarrow> length ns \<le> n \<Longrightarrow> vm_rep s' pt ys \<Longrightarrow>
      tables s' pt = tables s pt \<union> set ns \<Longrightarrow>
      translate s' pt = (\<lambda>v. if vpn v = vpn (KSTACK i) then PA2PTE p OR (PTE_R OR PTE_W) OR PTE_V else translate s pt v) \<Longrightarrow>
      data s' = (data s)\<lparr>k_mem := k_mem s', k_freelist := k_freelist s',
        k_procs := (k_procs s)[i := (k_procs s ! i)\<lparr>p_state := UNUSED, p_kstack := KSTACK i\<rparr>]\<rparr> \<Longrightarrow> Q () s'"
  shows "wp (procinit_slot i) Q s"
proof -
  let ?q = "k_procs s ! i"
  define s1 where "s1 = s\<lparr>k_locks := (k_locks s)(ProcLock i := \<lparr>lk_locked = 0, lk_name = Some ''proc'', lk_cpu = None\<rparr>),
     k_procs := (k_procs s)[i := ?q\<lparr>p_state := UNUSED\<rparr>]\<rparr>"
  have h1: "hart H e c s1" using hart_initlock [OF h(1,3)] by (simp add: s1_def)
  have m1: "k_link s1 = k_link s" "k_mem s1 = k_mem s" "k_freelist s1 = k_freelist s" by (simp_all add: s1_def)
  note v1 = vm_rep_data [OF h(1) h1 h(2) m1]
  have rep1: "vm_rep s1 pt (p # xs)" using rep v1(1) by simp
  note a = alloc_page_run(1) [OF vm_repD(1) [OF rep1]] and v2 = vm_rep_allocated [OF rep1]
  let ?s2 = "allocated p s1"
  have ok: "page_ok (k_link s) p" "link_wf (k_link s)" using rep by (auto simp: vm_rep_def kmem_rep_def)
  have p: "pg_aligned p" "p \<noteq> 0" "unat p < 2281701376"
    using ok page_ok_nonzero by (auto simp: page_ok_def word_less_nat_alt unat_layout page_ok_aligned)
  have ab: "absent ?s2 pt (KSTACK i) \<le> n" using pool(2) v1(3) v2(3) by simp
  have k: "unat (KSTACK i) + 4096 * 1 \<le> 549755813888" using unat_KSTACK [OF i(1)] by simp
  obtain ns ys s3 where s3: "kvmmap pt (KSTACK i) p PGSIZE (ucast (PTE_R OR PTE_W)) ?s2 = Ok () s3" "xs = ns @ ys"
      "length ns \<le> n" and u: "vm_update pt ns ys (\<lambda>v. if vpn (KSTACK i) \<le> vpn v \<and> vpn v < vpn (KSTACK i) + 1
          then PA2PTE (p + of_nat (4096 * (vpn v - vpn (KSTACK i)))) OR scast (ucast (PTE_R OR PTE_W) :: i32) OR PTE_V else translate ?s2 pt v) ?s2 s3"
    using kvmmap_run [OF v2(1) p(1), of 1 PGSIZE "KSTACK i" "ucast (PTE_R OR PTE_W)"] KSTACK_aligned [OF i(1)] p k pool(1) ab free v1 v2(3)
    by (fastforce simp: PGSIZE_def range_cost_def)
  let ?s4 = "s3\<lparr>k_procs := (k_procs s)[i := ?q\<lparr>p_state := UNUSED, p_kstack := KSTACK i\<rparr>]\<rparr>"
  have mo: "mem_only s1 s3" using u mem_only_trans [OF mem_only_allocated(2) [where s = s1 and p = p]] by (simp add: vm_update_def)
  have h3: "hart H e c s3" "hart H e c ?s4" using hart_mem_only [OF mo h1] by simp_all
  have pr: "k_procs s3 = k_procs s1" "k_pagetable ?s2 = pt" using mem_only_frame(2) [OF mo] pt by (simp_all add: allocated_def s1_def)
  have d: "data ?s4 = (data s)\<lparr>k_mem := k_mem ?s4, k_freelist := k_freelist ?s4, k_procs := k_procs ?s4\<rparr>"
    using data_mem_only [OF mo] by (simp add: s1_def)
  have v4: "vm_rep ?s4 pt ys" "tables ?s4 pt = tables s3 pt" "translate ?s4 pt = translate s3 pt"
    using vm_rep_data [OF h3 h(2)] u by (simp_all add: vm_update_def)
  have tr: "translate s3 pt = (\<lambda>v. if vpn v = vpn (KSTACK i) then PA2PTE p OR (PTE_R OR PTE_W) OR PTE_V else translate s pt v)"
    using u v1(3) v2(3) by (auto simp: vm_update_def perm_casts fun_eq_iff)
  have "procinit_slot i s = Ok () ?s4"
    using a s3(1) p(2) i pr by (simp add: procinit_slot_def initlock_run exec_simps s1_def)
  moreover have "Q () ?s4"
    by (rule Q [OF h3(2) s3(2,3) v4(1)]) (use v1(2) v2(2) v4 tr d u in \<open>simp_all add: vm_update_def\<close>)
  ultimately show ?thesis by (rule wpI)
qed

section \<open>The whole table\<close>

text \<open>After \<open>k\<close> slots: \<open>st\<close> are the stack pages, \<open>ys\<close> what is left of the pool \<open>xs\<close>.\<close>

definition stacks_built :: "nat \<Rightarrow> u64 \<Rightarrow> u64 list \<Rightarrow> u64 list \<Rightarrow> u64 list \<Rightarrow> kstate \<Rightarrow> kstate \<Rightarrow> bool" where
  "stacks_built k pt xs st ys s s' \<longleftrightarrow> length st = k \<and> vm_rep s' pt ys \<and> translate s' pt = stack_map st (translate s pt)
     \<and> distinct st \<and> set st \<union> set ys \<subseteq> set xs \<and> set st \<inter> (tables s' pt \<union> set ys) = {}
     \<and> tables s' pt \<union> set st \<union> set ys = tables s pt \<union> set xs \<and> length xs \<le> length ys + (if k = 0 then 0 else k + 2)
     \<and> data s' = (data s)\<lparr>k_mem := k_mem s', k_freelist := k_freelist s', k_procs := stacked k (k_procs s)\<rparr>"

lemma stacks_built_0: "vm_rep s pt xs \<Longrightarrow> stacks_built 0 pt xs [] xs s s"
  by (auto simp: stacks_built_def stack_map_def data_def fun_eq_iff)

lemma stack_map_old:
  assumes "length st \<le> i" and "i < NPROC" and "vpn v = vpn (KSTACK i)"
  shows "stack_map st tr v = tr v"
proof -
  have "find (\<lambda>j. vpn v = vpn (KSTACK j)) [0..<length st] = None"
    unfolding find_None_iff using assms vpn_KSTACK by (auto simp: NPROC_def)
  then show ?thesis by (simp add: stack_map_def)
qed

lemma stack_map_stack:
  assumes "i < length st" and "length st \<le> NPROC" and "vpn v = vpn (KSTACK i)"
  shows "stack_map st tr v = PA2PTE (st ! i) OR (PTE_R OR PTE_W) OR PTE_V"
proof -
  have "find (\<lambda>j. vpn v = vpn (KSTACK j)) [0..<length st] = Some i"
    unfolding find_Some_iff using assms vpn_KSTACK by (intro exI [of _ i]) (auto simp: NPROC_def)
  then show ?thesis by (simp add: stack_map_def)
qed

lemma stacks_built_Suc:
  assumes h: "hart H e c t" "KmemLock \<notin> H" "ProcLock k \<notin> H" and b: "stacks_built k pt xs st ys s t"
    and k: "k < NPROC" "length (k_procs s) = NPROC" and pt: "k_pagetable s = pt" and pool: "NPROC + 2 \<le> length xs"
    and free: "\<And>v j. j < NPROC \<Longrightarrow> vpn v = vpn (KSTACK j) \<Longrightarrow> \<not> pte_valid (translate s pt v)"
  shows "wp (procinit_slot k) (\<lambda>_ s'. hart H e c s' \<and> (\<exists>st ys. stacks_built (Suc k) pt xs st ys s s')) t"
proof -
  note u = b [unfolded stacks_built_def]
  have d: "data t = (data s)\<lparr>k_mem := k_mem t, k_freelist := k_freelist t, k_procs := stacked k (k_procs s)\<rparr>" using u by simp
  have pr: "k_procs t = stacked k (k_procs s)" "k_pagetable t = pt"
    using d [THEN arg_cong, of k_procs] d [THEN arg_cong, of k_pagetable] pt by simp_all
  define n where "n = (if k = 0 then 2 else 0 :: nat)"
  obtain p zs where ys: "ys = p # zs" and n: "n \<le> length zs" "length xs \<le> length zs + n + k + 1 + (if k = 0 then 0 else 2)"
    using u k pool by (cases ys) (auto simp: n_def split: if_splits)
  have v: "vm_rep t pt (p # zs)" using u ys by simp
  show ?thesis
  proof (rule wp_procinit_slot [OF h v pr(2) k(1), where n = n], goal_cases)
    case 1
    then show ?case using pr k by simp
  next
    case (2 v)
    then show ?case using free [OF k(1)] u stack_map_old [of st k v] k by simp
  next
    case 3
    then show ?case by (rule n)
  next
    case (4 t')
    show ?case
    proof (cases "k = 0")
      case True
      then show ?thesis by (simp add: n_def absent_le)
    next
      case False
      then have "pte_valid (translate t' pt (KSTACK 0))"
        using 4 u k stack_map_stack [of 0 st "KSTACK 0"] by simp
      then show ?thesis using absent_KSTACK [OF k(1), of 0 t' pt] k by (simp add: NPROC_def)
    qed
  next
    case (5 s' ns ys')
    have "p \<in> set xs" "p \<notin> tables t pt" "p \<notin> set zs" "p \<notin> set st" "distinct zs"
      using u ys v vm_repD(3,6) [OF v] by (auto simp: tables_def)
    moreover have "length xs \<le> length ys' + (Suc k + 2)" using u ys 5(2,3) by (auto simp: n_def split: if_splits)
    ultimately have "stacks_built (Suc k) pt xs (st @ [p]) ys' s s'"
      using u ys k 5(2,4-) pr(1) stack_map_append [of st p "translate s pt"] stacked_Suc [of k "k_procs s"] d
      by (auto simp: stacks_built_def)
    then show ?case using 5(1) by blast
  qed
qed

lemma wp_procinit:
  assumes h: "hart H e c s" "KmemLock \<notin> H" "WaitLock \<notin> H" "\<And>j. ProcLock j \<notin> H"
    and v: "vm_rep s pt xs" and pt: "k_pagetable s = pt" and k: "length (k_procs s) = NPROC" and pool: "NPROC + 2 \<le> length xs"
    and free: "\<And>v j. j < NPROC \<Longrightarrow> vpn v = vpn (KSTACK j) \<Longrightarrow> \<not> pte_valid (translate s pt v)"
    and Q: "\<And>s' st ys. hart H e c s' \<Longrightarrow> stacks_built NPROC pt xs st ys s s' \<Longrightarrow> Q () s'"
  shows "wp procinit Q s"
proof -
  let ?s = "s\<lparr>k_locks := (k_locks s)(WaitLock := \<lparr>lk_locked = 0, lk_name = Some ''wait_lock'', lk_cpu = None\<rparr>)\<rparr>"
  have h1: "hart H e c ?s" by (rule hart_initlock [OF h(1,3)])
  note v1 = vm_rep_data [OF h(1) h1 h(2)]
  have eq: "stacks_built m pt xs st ys ?s s' = stacks_built m pt xs st ys s s'" for m st ys s'
    using v1 by (simp add: stacks_built_def)
  have "wp (forM [0..<NPROC] procinit_slot) Q ?s"
  proof (rule wp_forM_upt [where I = "\<lambda>m s'. hart H e c s' \<and> (\<exists>st ys. stacks_built m pt xs st ys ?s s')"], goal_cases)
    case 1
    have "vm_rep ?s pt xs" using v v1(1) by simp
    then show ?case using h1 stacks_built_0 by blast
  next
    case (2 i t)
    then obtain st ys where "stacks_built i pt xs st ys ?s t" "hart H e c t" by blast
    then show ?case using h 2(1) k pt pool free v1 by (intro stacks_built_Suc) simp_all
  next
    case (3 t)
    then show ?case using Q eq by blast
  qed
  then show ?thesis by (simp add: procinit_def wp_def initlock_run exec_simps)
qed

section \<open>The first process\<close>

lemma ptable_initproc: "ptable U (s\<lparr>k_initproc := x\<rparr>) xs \<longleftrightarrow> ptable U s xs"
  by (rule ptable_cong) simp_all

lemma userinit_msg: "render (cstr ''userinit: created init process pid %d\<newline>'') [VWord (scast n)]
    = Some (cstr ''userinit: created init process pid '' @ show_int (sint (n :: i32)) @ cstr ''\<newline>'')"
  using render_d [of "''userinit: created init process pid ''" "''\<newline>''" n] by (simp add: plain_def cstr_def)

lemma wp_userinit:
  assumes h: "hart H e c s" "outside H" "\<And>j. ProcLock j \<notin> H" and pt: "ptable U s xs"
    and un: "unused s = Some i" and pool: "6 \<le> length xs"
    and Q: "\<And>s' tf pg ys. hart H e c s' \<Longrightarrow> ptable U s' ys \<Longrightarrow> set ys \<subseteq> set xs \<Longrightarrow> length xs \<le> length ys + 6 \<Longrightarrow>
      k_procs s' = (k_procs s)[i := started_proc (k_link s) (k_nextpid s) tf pg None (l_init_task (k_link s)) (k_procs s ! i)] \<Longrightarrow>
      slot_step i (set xs) (s\<lparr>k_nextpid := k_nextpid s + 1, k_initproc := Some i\<rparr>) s' \<Longrightarrow> Q () s'"
  shows "wp userinit Q s"
proof -
  let ?H = "insert (ProcLock i) H" and ?p = "k_procs s ! i" and ?sn = "s\<lparr>k_nextpid := k_nextpid s + 1\<rparr>"
  have i: "i < NPROC" "p_state ?p = UNUSED" using unused_Some [OF un] by simp_all
  note t = ptableD [OF pt i(1)]
  have par: "p_parent ?p = None" using t(3) i(2) by (simp add: proc_ok_def)
  have len: "i < length (k_procs s)" using t(2) i by simp
  obtain s1 tf pg ys where s1: "alloc_process s = Ok (Some i) s1" "hart ?H e c s1" "ptable U s1 ys" "set ys \<subseteq> set xs"
      "k_procs s1 = (k_procs s)[i := fresh_proc (k_link s) (k_nextpid s) tf pg ?p]" "slot_step i (set xs) ?sn s1"
      "length xs \<le> length ys + 6"
    by (rule wpE [OF wp_alloc_process [OF h pt un pool, where Q = "\<lambda>r s'. r = Some i \<and> (\<exists>tf pg ys. hart ?H e c s' \<and> ptable U s' ys
        \<and> set ys \<subseteq> set xs \<and> k_procs s' = (k_procs s)[i := fresh_proc (k_link s) (k_nextpid s) tf pg ?p]
        \<and> slot_step i (set xs) ?sn s' \<and> length xs \<le> length ys + 6)"]]) auto
  let ?g = "started_proc (k_link s) (k_nextpid s) tf pg None (l_init_task (k_link s)) ?p"
  let ?s2 = "s1\<lparr>k_initproc := Some i, k_procs := (k_procs s)[i := ?g]\<rparr>"
  obtain s3 where s3: "release (ProcLock i) ?s2 = Ok () s3" "hart H e c s3" "data s3 = data ?s2"
    by (rule wpE [OF wp_release [where s = ?s2 and H = ?H and e = e and c = c and lk = "ProcLock i" and
        Q = "\<lambda>_ s'. hart H e c s' \<and> data s' = data ?s2"]]) (use s1(2) h(3) in auto)
  obtain s4 where s4: "kprint ''userinit: created init process pid %d\<newline>'' [VWord (scast (k_nextpid s))] s3 = Ok () s4"
      "hart H e c s4" "data s4 = data ?s2"
    by (rule wpE [OF wp_kprint [OF s3(2) _ userinit_msg, where Q = "\<lambda>_ s'. hart H e c s' \<and> data s' = data ?s2"]])
       (use h(2) s3(3) in \<open>auto simp: outside_def\<close>)
  have p3: "k_procs s3 = (k_procs s)[i := ?g]" "k_procs s4 = (k_procs s)[i := ?g]"
    using data_eqD(6) [OF s3(3)] data_eqD(6) [OF s4(3)] by simp_all
  have lk: "k_link s1 = k_link s" using slot_stepD(1) [OF s1(6)] by simp
  let ?f = "fresh_proc (k_link s) (k_nextpid s) tf pg ?p"
  have g: "?f\<lparr>p_context := (p_context ?f)\<lparr>ctx_s0 := l_init_task (k_link s), ctx_ra := l_forkret (k_link s)\<rparr>, p_state := RUNNABLE\<rparr> = ?g"
    "p_pid ?g = k_nextpid s"
    using par by (simp_all add: started_proc_def fresh_proc_def)
  have run: "userinit s = Ok () s4"
    using s1(1,5) s3(1) s4(1) p3 len lk g by (simp add: userinit_def exec_simps)
  have st: "slot_step i (set xs) (?sn\<lparr>k_initproc := Some i\<rparr>) s4"
  proof -
    have "slot_step i (set xs) (?sn\<lparr>k_initproc := Some i\<rparr>) (s1\<lparr>k_initproc := Some i\<rparr>)"
      using s1(6) by (simp add: slot_step_def)
    from slot_step_trans [OF slot_step_trans [OF this slot_step_write [where p = ?g]] slot_step_data [of s4]]
    show ?thesis using len s1(5) s4(3) by simp
  qed
  have "same_pages (k_procs s1 ! i) ?g"
    using s1(5) len by (simp add: same_pages_def started_proc_def Let_def fresh_proc_def)
  with ptable_update [of U "s1\<lparr>k_initproc := Some i\<rparr>" ys i ?g] s1(3) i(1) have "ptable U ?s2 ys" using s1(5) by (simp add: ptable_initproc)
  with ptable_data [OF s4(3)] have "ptable U s4 ys" by simp
  then have "Q () s4" by (rule Q [OF s4(2) _ s1(4,7) p3(2)]) (use st in simp)
  with run show ?thesis by (rule wpI)
qed

section \<open>The first instructions of a process\<close>

lemma plain_first: "plain ''init: first process started\<newline>''"
  by (simp add: plain_def cstr_def)

lemma wp_forkret:
  assumes h: "hart {ProcLock p} e (Some p) s" and p: "p < length (k_procs s)" "ctx_s0 (p_context (k_procs s ! p)) \<noteq> 0"
    and Q: "\<And>s'. hart {} e (Some p) s' \<Longrightarrow> data s' = (data s)\<lparr>k_first := False\<rparr> \<Longrightarrow>
      k_uart s' = (if k_first s then send (cstr ''init: first process started\<newline>'') (k_uart s) else k_uart s) \<Longrightarrow>
      Q (ctx_s0 (p_context (k_procs s ! p))) s'"
  shows "wp forkret Q s"
proof -
  obtain s1 where s1: "myproc s = Ok (Some p) s1" "hart {ProcLock p} e (Some p) s1" "data s1 = data s" "k_uart s1 = k_uart s"
    by (rule wpE [OF wp_myproc [OF h, where Q = "\<lambda>r s'. r = Some p \<and> hart {ProcLock p} e (Some p) s' \<and> data s' = data s \<and> k_uart s' = k_uart s"]]) auto
  obtain s2 where s2: "release (ProcLock p) s1 = Ok () s2" "hart {} e (Some p) s2" "data s2 = data s" "k_uart s2 = k_uart s"
    by (rule wpE [OF wp_release [OF s1(2), where lk = "ProcLock p" and Q = "\<lambda>_ s'. hart {} e (Some p) s' \<and> data s' = data s \<and> k_uart s' = k_uart s"]])
       (use s1 in auto)
  note d2 = data_eqD [OF s2(3)]
  have "\<exists>s3. whenM (k_first s) (seqM (modifyM (\<lambda>s. s\<lparr>k_first := False\<rparr>)) (kprint ''init: first process started\<newline>'' [])) s2 = Ok () s3
      \<and> hart {} e (Some p) s3 \<and> data s3 = (data s)\<lparr>k_first := False\<rparr>
      \<and> k_uart s3 = (if k_first s then send (cstr ''init: first process started\<newline>'') (k_uart s) else k_uart s)"
  proof (cases "k_first s")
    case True
    have "wp (kprint ''init: first process started\<newline>'' []) (\<lambda>_ s3. hart {} e (Some p) s3 \<and> data s3 = (data s)\<lparr>k_first := False\<rparr>
        \<and> k_uart s3 = send (cstr ''init: first process started\<newline>'') (k_uart s)) (s2\<lparr>k_first := False\<rparr>)"
      by (rule wp_kprint [where H = "{}" and e = e and c = "Some p"])
         (use s2 render_plain_text [OF plain_first] in simp_all)
    then show ?thesis using True by (auto simp: wp_def exec_simps)
  next
    case False
    then have "(data s)\<lparr>k_first := False\<rparr> = data s" by (simp add: data_def)
    then show ?thesis using False s2 by (simp add: exec_simps)
  qed
  then obtain s3 where s3: "whenM (k_first s) (seqM (modifyM (\<lambda>s. s\<lparr>k_first := False\<rparr>)) (kprint ''init: first process started\<newline>'' [])) s2 = Ok () s3"
      "hart {} e (Some p) s3" "data s3 = (data s)\<lparr>k_first := False\<rparr>"
      "k_uart s3 = (if k_first s then send (cstr ''init: first process started\<newline>'') (k_uart s) else k_uart s)" by blast
  have "k_procs s3 = k_procs s" using s3(3) [THEN arg_cong, of k_procs] by simp
  then have "forkret s = Ok (ctx_s0 (p_context (k_procs s ! p))) s3"
    using s1(1) s2(1) s3(1) d2(9) p by (simp add: forkret_def exec_simps)
  with Q [OF s3(2-4)] show ?thesis by (simp add: wp_def)
qed

end
