(* ===== verification/Trap.thy ===== *)
theory Trap
  imports Procinit
begin

text \<open>
  \<open>kernel/trap.c\<close> and \<open>kernel/plic.c\<close>: the timer, the interrupt controller, the dispatch of
  interrupts and exceptions; and the two ends of a trap, what the hart does when it takes one
  and the \<open>sret\<close> of \<open>kernel/kernelvec.S\<close>.

  A load or store of a PLIC register goes through the page table that \<open>satp\<close> names: when paging
  is on and the address is not mapped the access faults. \<open>kerneltrap\<close> calls \<open>yield\<close> and is
  therefore two definitions, like the functions of \<open>Proc\<close>.
\<close>

section \<open>Definitions\<close>

subsection \<open>The interrupt controller\<close>

definition satp_root :: "u64 \<Rightarrow> u64" where
  "satp_root satp = push_bit 12 (satp AND mask 44)"

definition reachable_addr :: "kstate \<Rightarrow> u64 \<Rightarrow> bool" where
  "reachable_addr s a \<longleftrightarrow> c_satp (k_csr s) = 0 \<or> pte_valid (translate s (satp_root (c_satp (k_csr s))) a)"

definition plic_load :: "u64 \<Rightarrow> kstate \<Rightarrow> (kstate, u32) res" where
  "plic_load a s =
     (if \<not> reachable_addr s a then Err Fault s
      else if a = PLIC_SCLAIM 0 then
        (case plic_pending (k_plic s) of [] \<Rightarrow> Ok 0 s
         | q # qs \<Rightarrow> Ok q (s\<lparr>k_plic := (k_plic s)\<lparr>plic_pending := qs\<rparr>\<rparr>))
      else Ok (plic_regs (k_plic s) a) s)"

definition plic_store :: "u64 \<Rightarrow> u32 \<Rightarrow> kstate \<Rightarrow> (kstate, unit) res" where
  "plic_store a v s =
     (if \<not> reachable_addr s a then Err Fault s
      else Ok () (s\<lparr>k_plic := (if a = PLIC_SCLAIM 0 then (k_plic s)\<lparr>plic_completed := plic_completed (k_plic s) @ [v]\<rparr>
        else (k_plic s)\<lparr>plic_regs := (plic_regs (k_plic s))(a := v)\<rparr>)\<rparr>))"

definition plicinit :: "kstate \<Rightarrow> (kstate, unit) res" where
  "plicinit =
     seqM (plic_store (PLIC + ucast UART0_IRQ * 4) 1) (plic_store (PLIC + ucast VIRTIO0_IRQ * 4) 1)"

definition plicinithart :: "kstate \<Rightarrow> (kstate, unit) res" where
  "plicinithart =
     seqM (plic_store (PLIC_SENABLE 0) (push_bit (unat UART0_IRQ) 1 OR push_bit (unat VIRTIO0_IRQ) 1))
          (plic_store (PLIC_SPRIORITY 0) 0)"

definition plic_claim :: "kstate \<Rightarrow> (kstate, i32) res" where
  "plic_claim = plic_load (PLIC_SCLAIM 0)"

definition plic_complete :: "i32 \<Rightarrow> kstate \<Rightarrow> (kstate, unit) res" where
  "plic_complete irq = plic_store (PLIC_SCLAIM 0) irq"

subsection \<open>Traps\<close>

definition trapinithart :: "kstate \<Rightarrow> (kstate, unit) res" where
  "trapinithart = bindM (readM (\<lambda>s. l_kernelvec (k_link s))) (\<lambda>v. csr_write (w_stvec v))"

definition timer_init :: "kstate \<Rightarrow> (kstate, unit) res" where
  "timer_init =
     seqM (csr_write (\<lambda>c. w_sie (r_sie c OR SIE_STIE) c))
    (seqM (csr_write (\<lambda>c. w_menvcfg (r_menvcfg c OR push_bit 63 1) c))
    (seqM (csr_write (\<lambda>c. w_mcounteren (r_mcounteren c OR 2) c))
          (initlock TicksLock ''time'')))"

definition timer_interrupt :: "kstate \<Rightarrow> (kstate, unit) res" where
  "timer_interrupt =
     seqM (modifyM (\<lambda>s. s\<lparr>k_ticks := k_ticks s + 1\<rparr>))
    (seqM (acquire TicksLock)
    (seqM (wakeup ChanTicks)
    (seqM (release TicksLock)
    (bindM (readM k_ticks) (\<lambda>ticks.
     seqM (kprint ''tick %d\<newline>'' [VWord (scast ticks)])
          (csr_write (\<lambda>c. w_stimecmp (r_time c + 10000000) c)))))))"

definition devintr :: "kstate \<Rightarrow> (kstate, int) res" where
  "devintr =
     bindM (csr_read r_scause) (\<lambda>scause.
     if scause = 0x8000000000000009 then
       bindM plic_claim (\<lambda>irq.
       seqM (if irq = UART0_IRQ then modifyM (\<lambda>s. s\<lparr>k_uart := uart_intr (k_uart s)\<rparr>)
             else if irq = VIRTIO0_IRQ then fail (Panic ''virtio_disk_intr not implemented in lab 4'')
             else whenM (irq \<noteq> 0) (kprint ''unexpected interrupt irq=%d\<newline>'' [VWord (scast irq)]))
      (seqM (whenM (irq \<noteq> 0) (plic_complete irq))
            (ret 1)))
     else if scause = 0x8000000000000005 then seqM timer_interrupt (ret 2)
     else ret 0)"

text \<open>The report before the two panics that print it.\<close>

definition report_trap :: "u64 \<Rightarrow> kstate \<Rightarrow> (kstate, unit) res" where
  "report_trap scause =
     bindM (csr_read r_sepc) (\<lambda>sepc.
     bindM (csr_read r_stval) (\<lambda>stval.
     kprint ''scause=0x%lx sepc=0x%lx stval=0x%lx\<newline>'' [VWord scause, VWord sepc, VWord stval]))"

definition exception_panic :: "u64 \<Rightarrow> kstate \<Rightarrow> (kstate, int) res" where
  "exception_panic scause =
     (if scause = 8 then fail (Panic ''kerneltrap: system call from kernel'')
      else if scause = 13 then fail (Panic ''kerneltrap: load page fault'')
      else if scause = 15 then fail (Panic ''kerneltrap: store/AMO page fault'')
      else seqM (report_trap scause) (fail (Panic ''kerneltrap:exception'')))"

datatype trap_result = Returned | Preempted nat bool kcontext u64 u64

definition kerneltrap :: "kcontext \<Rightarrow> kstate \<Rightarrow> (kstate, trap_result) res" where
  "kerneltrap regs =
     bindM (csr_read r_sepc) (\<lambda>sepc.
     bindM (csr_read r_sstatus) (\<lambda>sstatus.
     bindM (csr_read r_scause) (\<lambda>scause.
     if sstatus AND SSTATUS_SPP = 0 then fail (Panic ''kerneltrap: not from supervisor mode'') else
     bindM (csr_read intr_get) (\<lambda>on.
     if on then fail (Panic ''kerneltrap: interrupts enabled'') else
     bindM (if scause AND 0x8000000000000000 \<noteq> 0
            then bindM devintr (\<lambda>d. if d = 0
                   then seqM (report_trap scause) (fail (Panic ''kerneltrap: unexpected interrupt'')) else ret d)
            else exception_panic scause) (\<lambda>which_dev.
     bindM (if which_dev = 2 then bindM myproc (\<lambda>me. ret (me \<noteq> None)) else ret False) (\<lambda>preempt.
     if preempt then bindM (yield regs) (\<lambda>(p, intena, regs'). ret (Preempted p intena regs' sepc sstatus))
     else seqM (csr_write (w_sepc sepc)) (seqM (csr_write (w_sstatus sstatus)) (ret Returned))))))))"

definition kerneltrap_resume :: "nat \<Rightarrow> bool \<Rightarrow> u64 \<Rightarrow> u64 \<Rightarrow> kstate \<Rightarrow> (kstate, unit) res" where
  "kerneltrap_resume p intena sepc sstatus =
     seqM (yield_resume p intena) (seqM (csr_write (w_sepc sepc)) (csr_write (w_sstatus sstatus)))"

text \<open>Taking a trap in supervisor mode and returning from it, by the privileged architecture:
  \<open>SPIE\<close> (bit 5) remembers \<open>SIE\<close> (bit 1), \<open>SPP\<close> (bit 8) that the hart came from supervisor mode.\<close>

definition trap_enter :: "u64 \<Rightarrow> u64 \<Rightarrow> csrs \<Rightarrow> csrs" where
  "trap_enter cause pc c =
     c\<lparr>c_sepc := pc, c_scause := cause,
       c_mstatus := unset_bit 1 (set_bit 8 ((if bit (c_mstatus c) 1 then set_bit else unset_bit) 5 (c_mstatus c)))\<rparr>"

definition sret :: "csrs \<Rightarrow> csrs \<times> u64" where
  "sret c = (c\<lparr>c_mstatus := set_bit 5 (unset_bit 8 ((if bit (c_mstatus c) 5 then set_bit else unset_bit) 1 (c_mstatus c)))\<rparr>, c_sepc c)"

text \<open>\<open>kernelvec\<close>: the handler that \<open>stvec\<close> names, from the trap to the \<open>sret\<close>; the value is the address
  execution goes on at, or what the process keeps when it is preempted. The caller-saved registers
  it pushes and pops are those of the interrupted code and are not part of the state.\<close>

definition kernelvec :: "u64 \<Rightarrow> u64 \<Rightarrow> kcontext \<Rightarrow> kstate \<Rightarrow> (kstate, u64 + trap_result) res" where
  "kernelvec cause pc regs =
     seqM (csr_write (trap_enter cause pc))
    (bindM (kerneltrap regs) (\<lambda>r. case r of
       Returned \<Rightarrow> bindM (csr_read sret) (\<lambda>(c, pc'). seqM (csr_write (\<lambda>_. c)) (ret (Inl pc')))
     | Preempted p intena regs' sepc sstatus \<Rightarrow> ret (Inr r)))"

definition kernelvec_resume :: "nat \<Rightarrow> bool \<Rightarrow> u64 \<Rightarrow> u64 \<Rightarrow> kstate \<Rightarrow> (kstate, u64) res" where
  "kernelvec_resume p intena sepc sstatus =
     seqM (kerneltrap_resume p intena sepc sstatus)
    (bindM (csr_read sret) (\<lambda>(c, pc'). seqM (csr_write (\<lambda>_. c)) (ret pc')))"

section \<open>The timer\<close>

lemma tick_msg: "render (cstr ''tick %d\<newline>'') [VWord (scast n)] = Some (cstr ''tick '' @ show_int (sint (n :: i32)) @ cstr ''\<newline>'')"
  using render_d [of "''tick ''" "''\<newline>''" n] by (simp add: plain_def cstr_def)

definition ticked :: "nat option \<Rightarrow> kstate \<Rightarrow> kstate" where
  "ticked me d = d\<lparr>k_ticks := k_ticks d + 1, k_procs := woken ChanTicks me (k_procs d),
     k_csr := w_stimecmp (r_time (k_csr d) + 10000000) (k_csr d)\<rparr>"

lemma hart_csr:
  assumes "hart H e c s" and "c_tp c' = c_tp (k_csr s)" and "H \<noteq> {} \<Longrightarrow> intr_get c' = intr_get (k_csr s)"
  shows "hart H (if H = {} then intr_get c' else e) c (s\<lparr>k_csr := c'\<rparr>)"
proof -
  let ?s = "s\<lparr>k_csr := c'\<rparr>"
  have "lock_held ?s = lock_held s" "lock_free ?s = lock_free s" "cpu0 ?s = cpu0 s"
    by (simp_all add: lock_held_def lock_free_def cpu0_def fun_eq_iff)
  then show ?thesis using assms by (auto simp: hart_def cpu_wf_def one_cpu_def r_tp_def)
qed

lemma intr_get_csr_update [simp]:
  "intr_get (w_stimecmp x c) = intr_get c" "intr_get (w_sepc x c) = intr_get c" "intr_get (w_stvec x c) = intr_get c"
  "intr_get (w_satp x c) = intr_get c" "c_tp (w_stimecmp x c) = c_tp c" "c_tp (w_sepc x c) = c_tp c"
  "c_tp (w_stvec x c) = c_tp c" "c_tp (w_satp x c) = c_tp c" "c_tp (w_sstatus x c) = c_tp c"
  by (simp_all add: intr_get_bit w_stimecmp_def w_sepc_def w_stvec_def w_satp_def w_sstatus_def)

lemma data_csr: "data (s\<lparr>k_csr := f (k_csr s)\<rparr>) = (data s)\<lparr>k_csr := (f (k_csr s))\<lparr>c_mstatus := 0\<rparr>\<rparr>"
  by (simp add: data_def cpu0_def)

lemma wp_timer_interrupt:
  assumes h: "hart {} e c s" and n: "length (k_procs s) = NPROC"
    and Q: "\<And>s'. hart {} e c s' \<Longrightarrow> data s' = ticked c (data s) \<Longrightarrow>
      k_uart s' = send (cstr ''tick '' @ show_int (sint (k_ticks s + 1)) @ cstr ''\<newline>'') (k_uart s) \<Longrightarrow> Q () s'"
  shows "wp timer_interrupt Q s"
proof -
  let ?s1 = "s\<lparr>k_ticks := k_ticks s + 1\<rparr>"
  let ?d = "(data ?s1)\<lparr>k_procs := woken ChanTicks c (k_procs s)\<rparr>"
  let ?P = "\<lambda>_ (d, u). d = ?d \<and> u = k_uart s"
  have body: "wp (wakeup ChanTicks) (\<lambda>a s2. hart {TicksLock} e c s2 \<and> ?P a (data s2, k_uart s2)) t"
    if "hart {TicksLock} e c t" "(data t, k_uart t) = (data ?s1, k_uart ?s1)" for t
  proof (rule wp_wakeup [OF that(1)])
    have "data t = data ?s1" "k_uart t = k_uart s" using that(2) by simp_all
    note * = this data_eqD(6) [OF this(1)]
    then show "length (k_procs t) = NPROC" using n by simp
    show "hart {TicksLock} e c s' \<and> ?P () (data s', k_uart s')"
      if "hart {TicksLock} e c s'" "data s' = (data t)\<lparr>k_procs := woken ChanTicks c (k_procs t)\<rparr>" "k_uart s' = k_uart t" for s'
      using that * by simp
  qed simp
  have "wp (seqM (acquire TicksLock) (bindM (wakeup ChanTicks) (\<lambda>a. seqM (release TicksLock) (ret a))))
      (\<lambda>a s2. hart {} e c s2 \<and> ?P a (data s2, k_uart s2)) ?s1"
    by (rule klock.critical_section [where P = ?P]) (use h body in simp_all)
  then obtain s2 s3 s4 where run: "acquire TicksLock ?s1 = Ok () s2" "wakeup ChanTicks s2 = Ok () s3" "release TicksLock s3 = Ok () s4"
      and s4: "hart {} e c s4" "data s4 = ?d" "k_uart s4 = k_uart s"
    unfolding wp_simps by (auto simp: wp_def)
  have t4: "k_ticks s4 = k_ticks s + 1" using s4(2) [THEN arg_cong, of k_ticks] by simp
  obtain s5 where s5: "kprint ''tick %d\<newline>'' [VWord (scast (k_ticks s + 1))] s4 = Ok () s5" "hart {} e c s5" "data s5 = ?d"
      "k_uart s5 = send (cstr ''tick '' @ show_int (sint (k_ticks s + 1)) @ cstr ''\<newline>'') (k_uart s)"
    by (rule wpE [OF wp_kprint [OF s4(1) _ tick_msg, where Q = "\<lambda>_ s'. hart {} e c s' \<and> data s' = ?d \<and>
        k_uart s' = send (cstr ''tick '' @ show_int (sint (k_ticks s + 1)) @ cstr ''\<newline>'') (k_uart s)"]]) (use s4(2,3) in auto)
  let ?s6 = "s5\<lparr>k_csr := w_stimecmp (r_time (k_csr s5) + 10000000) (k_csr s5)\<rparr>"
  have run': "timer_interrupt s = Ok () ?s6"
    using run s5(1) t4 by (simp add: timer_interrupt_def exec_simps)
  have "intr_get (k_csr s5) = e" using s5(2) by (simp add: hart_def)
  then have "hart {} e c ?s6" using hart_csr [OF s5(2), of "w_stimecmp (r_time (k_csr s5) + 10000000) (k_csr s5)"] by simp
  moreover have "data ?s6 = ticked c (data s)"
  proof -
    have c5: "(k_csr s5)\<lparr>c_mstatus := 0\<rparr> = (k_csr s)\<lparr>c_mstatus := 0\<rparr>" using s5(3) [THEN arg_cong, of k_csr] by simp
    have "r\<lparr>c_stimecmp := x, c_mstatus := m\<rparr> = r\<lparr>c_mstatus := m, c_stimecmp := x\<rparr>" for r :: csrs and x m by simp
    then have swap: "(k_csr s5)\<lparr>c_stimecmp := x, c_mstatus := 0\<rparr> = (k_csr s)\<lparr>c_mstatus := 0, c_stimecmp := x\<rparr>" for x by (simp only: c5)
    have t: "c_time (k_csr s5) = c_time (k_csr s)" using c5 [THEN arg_cong, of c_time] by simp
    show ?thesis using s5(3) by (simp add: data_csr ticked_def w_stimecmp_def r_time_def t) (simp only: swap)
  qed
  ultimately show ?thesis using Q s5(4) run' by (simp add: wp_def)
qed

section \<open>Interrupts\<close>

lemma wp_devintr_timer:
  assumes h: "hart {} e c s" and n: "length (k_procs s) = NPROC" and sc: "c_scause (k_csr s) = 0x8000000000000005"
    and Q: "\<And>s'. hart {} e c s' \<Longrightarrow> data s' = ticked c (data s) \<Longrightarrow>
      k_uart s' = send (cstr ''tick '' @ show_int (sint (k_ticks s + 1)) @ cstr ''\<newline>'') (k_uart s) \<Longrightarrow> Q 2 s'"
  shows "wp devintr Q s"
proof -
  have "wp timer_interrupt (\<lambda>_. Q 2) s" by (rule wp_timer_interrupt [OF h n]) (use Q in simp_all)
  then show ?thesis using sc by (auto simp: wp_def devintr_def exec_simps r_scause_def)
qed

text \<open>The bits of \<open>sstatus\<close>.\<close>

lemma SPP_set: "r_sstatus c AND SSTATUS_SPP \<noteq> 0 \<longleftrightarrow> bit (c_mstatus c) 8"
proof -
  have "bit SSTATUS_VIEW 8" by (simp add: SSTATUS_VIEW_def)
  moreover have spp: "bit SSTATUS_SPP n \<longleftrightarrow> n = 8" for n
    unfolding SSTATUS_SPP_def bit_push_bit_iff bit_1_iff by auto
  moreover have "r_sstatus c AND SSTATUS_SPP = (if bit (r_sstatus c) 8 then SSTATUS_SPP else 0)"
    by (rule bit_word_eqI) (auto simp: bit_simps spp)
  moreover have "SSTATUS_SPP \<noteq> 0" by (simp add: SSTATUS_SPP_def)
  ultimately show ?thesis by (simp add: r_sstatus_def bit_simps)
qed

lemma sstatus_roundtrip: "r_sstatus (w_sstatus x c) = x AND SSTATUS_VIEW"
  by (rule bit_word_eqI) (auto simp: r_sstatus_def w_sstatus_def bit_simps)

lemma r_sstatus_view: "r_sstatus c AND SSTATUS_VIEW = r_sstatus c" "bit (r_sstatus c) 1 = intr_get c"
  by (rule bit_word_eqI) (auto simp: r_sstatus_def bit_simps intr_get_bit bit_VIEW_1)

text \<open>A trap that is not handled ends in a panic: the guards and the exceptions.\<close>

lemma kerneltrap_guards:
  "\<not> bit (c_mstatus (k_csr s)) 8 \<Longrightarrow> kerneltrap regs s = Err (Panic ''kerneltrap: not from supervisor mode'') s"
  "bit (c_mstatus (k_csr s)) 8 \<Longrightarrow> intr_get (k_csr s) \<Longrightarrow> kerneltrap regs s = Err (Panic ''kerneltrap: interrupts enabled'') s"
  using SPP_set [of "k_csr s"] by (simp_all add: kerneltrap_def exec_simps)

definition restored :: "u64 \<Rightarrow> u64 \<Rightarrow> kstate \<Rightarrow> kstate" where
  "restored sepc sstatus s = s\<lparr>k_csr := w_sstatus sstatus (w_sepc sepc (k_csr s))\<rparr>"

lemma hart_restored:
  assumes "hart {} e c s"
  shows "hart {} (bit x 1) c (restored sepc x s)"
  unfolding restored_def using hart_csr [OF assms, of "w_sstatus x (w_sepc sepc (k_csr s))"] by (simp add: intr_get_w_sstatus)

lemma data_restored: "data (restored (c_sepc (k_csr s)) x s) = data s"
proof -
  have "(k_csr s)\<lparr>c_sepc := c_sepc (k_csr s), c_mstatus := 0\<rparr> = (k_csr s)\<lparr>c_mstatus := 0\<rparr>" by simp
  then show ?thesis by (simp add: restored_def data_def w_sstatus_def w_sepc_def cpu0_def)
qed

lemma kerneltrap_interrupt:
  assumes "bit (c_mstatus (k_csr s)) 8" and "\<not> intr_get (k_csr s)" and "c_scause (k_csr s) AND 0x8000000000000000 \<noteq> 0"
    and "devintr s = Ok d s1" and "d \<noteq> 0"
  shows "kerneltrap regs s =
    bindM (if d = 2 then bindM myproc (\<lambda>me. ret (me \<noteq> None)) else ret False) (\<lambda>preempt.
      if preempt then bindM (yield regs) (\<lambda>(p, intena, regs'). ret (Preempted p intena regs' (c_sepc (k_csr s)) (r_sstatus (k_csr s))))
      else seqM (csr_write (w_sepc (c_sepc (k_csr s)))) (seqM (csr_write (w_sstatus (r_sstatus (k_csr s)))) (ret Returned))) s1"
  using assms SPP_set [of "k_csr s"] by (simp add: kerneltrap_def exec_simps r_scause_def r_sepc_def)

text \<open>A timer interrupt while no process runs: the handler comes back with the registers it was
  entered with.\<close>

lemma wp_kerneltrap_idle:
  assumes h: "hart {} False None s" and n: "length (k_procs s) = NPROC" and sc: "c_scause (k_csr s) = 0x8000000000000005"
    and spp: "bit (c_mstatus (k_csr s)) 8"
    and Q: "\<And>s'. hart {} False None s' \<Longrightarrow> data s' = ticked None (data s) \<Longrightarrow> r_sstatus (k_csr s') = r_sstatus (k_csr s) \<Longrightarrow>
      k_uart s' = send (cstr ''tick '' @ show_int (sint (k_ticks s + 1)) @ cstr ''\<newline>'') (k_uart s) \<Longrightarrow> Q Returned s'"
  shows "wp (kerneltrap regs) Q s"
proof -
  have off: "\<not> intr_get (k_csr s)" using h by (simp add: hart_def)
  obtain s1 where s1: "devintr s = Ok 2 s1" "hart {} False None s1" "data s1 = ticked None (data s)"
      "k_uart s1 = send (cstr ''tick '' @ show_int (sint (k_ticks s + 1)) @ cstr ''\<newline>'') (k_uart s)"
    by (rule wpE [OF wp_devintr_timer [OF h n sc, where Q = "\<lambda>r s'. r = 2 \<and> hart {} False None s' \<and> data s' = ticked None (data s) \<and>
       k_uart s' = send (cstr ''tick '' @ show_int (sint (k_ticks s + 1)) @ cstr ''\<newline>'') (k_uart s)"]]) auto
  obtain s2 where s2: "myproc s1 = Ok None s2" "hart {} False None s2" "data s2 = data s1" "k_uart s2 = k_uart s1"
    by (rule wpE [OF wp_myproc [OF s1(2), where Q = "\<lambda>r s'. r = None \<and> hart {} False None s' \<and> data s' = data s1 \<and> k_uart s' = k_uart s1"]]) auto
  let ?s3 = "restored (c_sepc (k_csr s)) (r_sstatus (k_csr s)) s2"
  have sepc: "c_sepc (k_csr s2) = c_sepc (k_csr s)"
  proof -
    have "data s2 = ticked None (data s)" using s2(3) s1(3) by simp
    from this [THEN arg_cong, of "\<lambda>d. c_sepc (k_csr d)"] show ?thesis by (simp add: ticked_def w_stimecmp_def)
  qed
  have "kerneltrap regs s = Ok Returned ?s3"
    using kerneltrap_interrupt [OF spp off _ s1(1)] sc s2(1) by (simp add: exec_simps restored_def)
  moreover have "Q Returned ?s3"
  proof (rule Q)
    show "hart {} False None ?s3" using hart_restored [OF s2(2), of "r_sstatus (k_csr s)"] off by (simp add: r_sstatus_view del: One_nat_def)
    show "data ?s3 = ticked None (data s)" using data_restored [of s2] sepc s2(3) s1(3) by simp
    show "r_sstatus (k_csr ?s3) = r_sstatus (k_csr s)" by (simp add: restored_def sstatus_roundtrip r_sstatus_view)
    show "k_uart ?s3 = send (cstr ''tick '' @ show_int (sint (k_ticks s + 1)) @ cstr ''\<newline>'') (k_uart s)"
      using s2(4) s1(4) by (simp add: restored_def)
  qed
  ultimately show ?thesis by (rule wpI)
qed

text \<open>A timer interrupt in a process: it is runnable again and its lock is held across the switch.\<close>

lemma wp_kerneltrap_preempt:
  assumes h: "hart {} False (Some p) s" and n: "length (k_procs s) = NPROC" "p < NPROC" and sc: "c_scause (k_csr s) = 0x8000000000000005"
    and spp: "bit (c_mstatus (k_csr s)) 8"
    and Q: "\<And>s'. hart {ProcLock p} False (Some p) s' \<Longrightarrow>
      data s' = switched p regs (p_state_update (\<lambda>_. RUNNABLE)) (ticked (Some p) (data s)) \<Longrightarrow>
      Q (Preempted p False (cpu_context (cpu0 s)) (c_sepc (k_csr s)) (r_sstatus (k_csr s))) s'"
  shows "wp (kerneltrap regs) Q s"
proof -
  have off: "\<not> intr_get (k_csr s)" using h by (simp add: hart_def)
  obtain s1 where s1: "devintr s = Ok 2 s1" "hart {} False (Some p) s1" "data s1 = ticked (Some p) (data s)"
    by (rule wpE [OF wp_devintr_timer [OF h n(1) sc, where Q = "\<lambda>r s'. r = 2 \<and> hart {} False (Some p) s' \<and> data s' = ticked (Some p) (data s)"]]) auto
  obtain s2 where s2: "myproc s1 = Ok (Some p) s2" "hart {} False (Some p) s2" "data s2 = data s1"
    by (rule wpE [OF wp_myproc [OF s1(2), where Q = "\<lambda>r s'. r = Some p \<and> hart {} False (Some p) s' \<and> data s' = data s1"]]) auto
  have d2: "data s2 = ticked (Some p) (data s)" using s2(3) s1(3) by simp
  have f: "length (k_procs s2) = NPROC" "cpu_context (cpu0 s2) = cpu_context (cpu0 s)"
    using d2 [THEN arg_cong, of k_procs] d2 [THEN arg_cong, of "\<lambda>d. cpu_context (cpu0 d)"] n by (simp_all add: ticked_def) (simp add: cpu0_def data_def)
  have "wp (yield regs) (\<lambda>(q, intena, r). Q (Preempted q intena r (c_sepc (k_csr s)) (r_sstatus (k_csr s)))) s2"
    by (rule wp_yield [OF s2(2)]) (use n f d2 Q in simp_all)
  then show ?thesis
    using kerneltrap_interrupt [OF spp off _ s1(1)] sc s2(1) by (auto simp: wp_def exec_simps)
qed

section \<open>Traps that are not handled\<close>

lemma render_lx: "render (0x25 # 0x6C # 0x78 # f) (VWord w # args) = map_option ((@) (num_str 16 (unat w))) (render f args)"
  by (cases "render f args") (simp_all add: byte_at_def directive_text_def int_directive_def cstr_dux Let_def va_word_def int_text_def ch_def)

lemma report_msg: "\<exists>bs. render (cstr ''scause=0x%lx sepc=0x%lx stval=0x%lx\<newline>'') [VWord a, VWord b, VWord d] = Some bs"
proof -
  have "cstr ''scause=0x%lx sepc=0x%lx stval=0x%lx\<newline>'' = cstr ''scause=0x'' @ 0x25 # 0x6C # 0x78 # (cstr '' sepc=0x'' @
      0x25 # 0x6C # 0x78 # (cstr '' stval=0x'' @ 0x25 # 0x6C # 0x78 # cstr ''\<newline>''))"
    by (simp add: cstr_def)
  moreover have "plain ''scause=0x''" "plain '' sepc=0x''" "plain '' stval=0x''" "plain ''\<newline>''" by (simp_all add: plain_def cstr_def)
  ultimately show ?thesis using render_plain_text [of "''\<newline>''" "[]"] by (simp add: render_plain_append render_lx plain_def del: render.simps)
qed

lemma wp_report_trap:
  assumes "hart H e c s" and "PrintLock \<notin> H"
  shows "wp (report_trap x) (\<lambda>_ s'. hart H e c s' \<and> data s' = data s) s"
proof -
  obtain bs where "render (cstr ''scause=0x%lx sepc=0x%lx stval=0x%lx\<newline>'') [VWord x, VWord (r_sepc (k_csr s)), VWord (r_stval (k_csr s))] = Some bs"
    using report_msg by blast
  from wp_kprint [OF assms this] show ?thesis by (simp add: report_trap_def csr_read_def wp_simps)
qed

definition trap_message :: "u64 \<Rightarrow> string" where
  "trap_message scause =
     (if scause AND 0x8000000000000000 \<noteq> 0 then ''kerneltrap: unexpected interrupt''
      else if scause = 8 then ''kerneltrap: system call from kernel''
      else if scause = 13 then ''kerneltrap: load page fault''
      else if scause = 15 then ''kerneltrap: store/AMO page fault''
      else ''kerneltrap:exception'')"

text \<open>The report is printed by \<open>printf\<close>, which cannot take the lock of the console a second time.\<close>

lemma report_trap_locked:
  assumes "hart H e c s" and "PrintLock \<in> H"
  shows "\<exists>s'. report_trap x s = Err (Panic ''acquire'') s' \<and> data s' = data s"
proof -
  have "one_cpu s" "lock_held s PrintLock" using assms by (auto simp: hart_def cpu_wf_def split: if_splits)
  then have "acquire PrintLock s = Err (Panic ''acquire'') (pushed s)" by (rule acquire_held)
  then show ?thesis by (simp add: report_trap_def csr_read_def kprint_def printf_def exec_simps)
     (simp add: data_def cpu0_def transformer_defs intr_off_eq)
qed

lemma report_outcome:
  assumes "hart H e c s"
  shows "\<exists>s'. data s' = data s \<and> report_trap x s = (if PrintLock \<in> H then Err (Panic ''acquire'') s' else Ok () s')"
  using report_trap_locked [OF assms, of x] wp_report_trap [OF assms, of x] by (auto simp: wp_def)

lemma kerneltrap_panics:
  assumes h: "hart H e c s" and off: "\<not> intr_get (k_csr s)" and spp: "bit (c_mstatus (k_csr s)) 8"
    and sc: "c_scause (k_csr s) \<notin> {0x8000000000000005, 0x8000000000000009}"
  shows "\<exists>s'. data s' = data s \<and> kerneltrap regs s = Err (Panic (if PrintLock \<in> H \<and> c_scause (k_csr s) \<notin> {8, 13, 15}
     then ''acquire'' else trap_message (c_scause (k_csr s)))) s'"
proof -
  let ?sc = "c_scause (k_csr s)"
  obtain s1 where s1: "data s1 = data s" "report_trap ?sc s = (if PrintLock \<in> H then Err (Panic ''acquire'') s1 else Ok () s1)"
    using report_outcome [OF h, of ?sc] by blast
  note run = kerneltrap_def exec_simps r_scause_def exception_panic_def trap_message_def
  show ?thesis
  proof (cases "?sc AND 0x8000000000000000 \<noteq> 0")
    case True
    have "devintr s = Ok 0 s" using sc by (simp add: devintr_def exec_simps r_scause_def)
    moreover have "?sc \<notin> {8, 13, 15}" using True by auto
    ultimately show ?thesis using True spp off s1 SPP_set [of "k_csr s"] by (cases "PrintLock \<in> H") (auto simp: run)
  next
    case False
    then show ?thesis using spp off s1 SPP_set [of "k_csr s"] by (cases "PrintLock \<in> H") (auto simp: run)
  qed
qed

section \<open>The interrupt controller\<close>

lemma satp_root_MAKE_SATP:
  assumes "pg_aligned pt" and "unat pt < 2281701376"
  shows "satp_root (MAKE_SATP pt) = pt" and "MAKE_SATP pt \<noteq> 0"
proof -
  have "take_bit 56 pt = pt"
    unfolding word_unat_eq_iff unsigned_take_bit_eq using assms(2) by (simp add: take_bit_nat_eq_self)
  then have hi: "bit pt n \<Longrightarrow> n < 56" for n by (metis bit_take_bit_iff)
  have lo: "bit pt n \<Longrightarrow> 12 \<le> n" for n
  proof -
    have "pt = push_bit 12 (drop_bit 12 pt)" using assms(1) by (simp add: pg_aligned_iff PGROUNDDOWN_bits)
    then show "bit pt n \<Longrightarrow> 12 \<le> n" by (metis bit_push_bit_iff)
  qed
  have top: "bit SATP_SV39 n \<longleftrightarrow> n = 63" for n
  proof -
    have eq: "SATP_SV39 = push_bit 63 1" by (simp add: SATP_SV39_def)
    show ?thesis unfolding eq bit_push_bit_iff bit_1_iff by auto
  qed
  show "satp_root (MAKE_SATP pt) = pt"
  proof (rule bit_word_eqI)
    fix n
    assume "n < LENGTH(64)"
    then show "bit (satp_root (MAKE_SATP pt)) n \<longleftrightarrow> bit pt n"
      using hi [of n] lo [of n] by (cases "12 \<le> n") (auto simp: satp_root_def MAKE_SATP_def bit_simps top)
  qed
  have "bit (MAKE_SATP pt) 63" by (simp add: MAKE_SATP_def bit_simps top)
  then show "MAKE_SATP pt \<noteq> 0" by auto
qed

lemma reachable_addr_data:
  assumes "data s = data s'"
  shows "reachable_addr s a = reachable_addr s' a"
proof -
  have "c_satp (k_csr s) = c_satp (k_csr s')" "k_mem s = k_mem s'"
    using assms [THEN arg_cong, of "\<lambda>d. c_satp (k_csr d)"] assms [THEN arg_cong, of k_mem] by simp_all
  then show ?thesis unfolding reachable_addr_def translate_def by (simp only:)
qed

lemma reachable_addr_devices [simp]:
  "reachable_addr (s\<lparr>k_plic := x\<rparr>) = reachable_addr s" "reachable_addr (s\<lparr>k_plic := x, k_uart := y\<rparr>) = reachable_addr s"
  by (simp_all add: reachable_addr_def translate_def fun_eq_iff)

lemma devintr_uart:
  assumes "c_scause (k_csr s) = 0x8000000000000009" and "reachable_addr s (PLIC_SCLAIM 0)"
    and "plic_pending (k_plic s) = UART0_IRQ # qs"
  shows "devintr s = Ok 1 (s\<lparr>k_uart := uart_intr (k_uart s),
    k_plic := (k_plic s)\<lparr>plic_pending := qs, plic_completed := plic_completed (k_plic s) @ [UART0_IRQ]\<rparr>\<rparr>)"
  using assms by (simp add: devintr_def plic_claim_def plic_complete_def plic_load_def plic_store_def exec_simps r_scause_def UART0_IRQ_def)

lemma devintr_unmapped:
  assumes "c_scause (k_csr s) = 0x8000000000000009" and "\<not> reachable_addr s (PLIC_SCLAIM 0)"
  shows "devintr s = Err Fault s"
  using assms by (simp add: devintr_def plic_claim_def plic_load_def exec_simps r_scause_def)

lemma devintr_no_device:
  assumes "c_scause (k_csr s) = 0x8000000000000009" and "reachable_addr s (PLIC_SCLAIM 0)"
  shows "plic_pending (k_plic s) = [] \<Longrightarrow> devintr s = Ok 1 s"
    and "plic_pending (k_plic s) = 0 # qs \<Longrightarrow> devintr s = Ok 1 (s\<lparr>k_plic := (k_plic s)\<lparr>plic_pending := qs\<rparr>\<rparr>)"
    and "plic_pending (k_plic s) = VIRTIO0_IRQ # qs \<Longrightarrow>
      devintr s = Err (Panic ''virtio_disk_intr not implemented in lab 4'') (s\<lparr>k_plic := (k_plic s)\<lparr>plic_pending := qs\<rparr>\<rparr>)"
  using assms by (simp_all add: devintr_def plic_claim_def plic_load_def exec_simps r_scause_def UART0_IRQ_def VIRTIO0_IRQ_def)

lemma irq_msg:
  "render (cstr ''unexpected interrupt irq=%d\<newline>'') [VWord (scast (q :: i32))]
     = Some (cstr ''unexpected interrupt irq='' @ show_int (sint q) @ cstr ''\<newline>'')"
  using render_d [of "''unexpected interrupt irq=''" "''\<newline>''" q] by (simp add: plain_def cstr_def)

lemma devintr_unknown:
  assumes h: "hart {} e c s" and sc: "c_scause (k_csr s) = 0x8000000000000009" and r: "reachable_addr s (PLIC_SCLAIM 0)"
    and q: "plic_pending (k_plic s) = q # qs" "q \<notin> {0, UART0_IRQ, VIRTIO0_IRQ}"
  shows "\<exists>s'. devintr s = Ok 1 s' \<and> hart {} e c s'
    \<and> data s' = (data s)\<lparr>k_plic := (k_plic s)\<lparr>plic_pending := qs, plic_completed := plic_completed (k_plic s) @ [q]\<rparr>\<rparr>
    \<and> k_uart s' = send (cstr ''unexpected interrupt irq='' @ show_int (sint q) @ cstr ''\<newline>'') (k_uart s)"
proof -
  let ?s1 = "s\<lparr>k_plic := (k_plic s)\<lparr>plic_pending := qs\<rparr>\<rparr>"
  have h1: "hart {} e c ?s1" using h by simp
  obtain s2 where s2: "kprint ''unexpected interrupt irq=%d\<newline>'' [VWord (scast q)] ?s1 = Ok () s2" "hart {} e c s2" "data s2 = data ?s1"
      "k_uart s2 = send (cstr ''unexpected interrupt irq='' @ show_int (sint q) @ cstr ''\<newline>'') (k_uart s)"
    by (rule wpE [OF wp_kprint [OF h1 _ irq_msg, where Q = "\<lambda>_ s'. hart {} e c s' \<and> data s' = data ?s1 \<and>
        k_uart s' = send (cstr ''unexpected interrupt irq='' @ show_int (sint q) @ cstr ''\<newline>'') (k_uart s)"]]) auto
  have r2: "reachable_addr s2 (PLIC_SCLAIM 0)" using reachable_addr_data [OF s2(3)] r by simp
  have p2: "k_plic s2 = (k_plic s)\<lparr>plic_pending := qs\<rparr>" using s2(3) [THEN arg_cong, of k_plic] by simp
  let ?s3 = "s2\<lparr>k_plic := (k_plic s)\<lparr>plic_pending := qs, plic_completed := plic_completed (k_plic s) @ [q]\<rparr>\<rparr>"
  have "devintr s = Ok 1 ?s3"
    using sc r q s2(1) r2 p2
    by (simp add: devintr_def plic_claim_def plic_complete_def plic_load_def plic_store_def exec_simps r_scause_def)
  moreover have "hart {} e c ?s3" using s2(2) by simp
  moreover have "data ?s3 = (data s)\<lparr>k_plic := (k_plic s)\<lparr>plic_pending := qs, plic_completed := plic_completed (k_plic s) @ [q]\<rparr>\<rparr>"
    using s2(3) by simp
  ultimately show ?thesis using s2(4) by auto
qed

section \<open>The whole handler\<close>

lemma trap_enter_bits:
  "intr_get (trap_enter cause pc c) = False" "bit (c_mstatus (trap_enter cause pc c)) 8"
  "bit (r_sstatus (trap_enter cause pc c)) 5 = intr_get c" "c_tp (trap_enter cause pc c) = c_tp c"
  "c_sepc (trap_enter cause pc c) = pc" "c_scause (trap_enter cause pc c) = cause"
  by (simp_all add: trap_enter_def intr_get_bit r_sstatus_def bit_simps SSTATUS_VIEW_def)

lemma sret_bits: "intr_get (fst (sret c)) = bit (c_mstatus c) 5" "c_tp (fst (sret c)) = c_tp c" "snd (sret c) = c_sepc c"
  by (simp_all add: sret_def intr_get_bit bit_simps)

definition entered :: "u64 \<Rightarrow> u64 \<Rightarrow> kstate \<Rightarrow> kstate" where
  "entered cause pc d = d\<lparr>k_csr := (k_csr d)\<lparr>c_sepc := pc, c_scause := cause\<rparr>\<rparr>"

lemma wp_kernelvec_idle:
  assumes h: "hart {} True None s" and n: "length (k_procs s) = NPROC"
    and Q: "\<And>s'. hart {} True None s' \<Longrightarrow> data s' = ticked None (entered 0x8000000000000005 pc (data s)) \<Longrightarrow>
      k_uart s' = send (cstr ''tick '' @ show_int (sint (k_ticks s + 1)) @ cstr ''\<newline>'') (k_uart s) \<Longrightarrow> Q (Inl pc) s'"
  shows "wp (kernelvec 0x8000000000000005 pc regs) Q s"
proof -
  let ?c = "trap_enter 0x8000000000000005 pc (k_csr s)"
  let ?s1 = "s\<lparr>k_csr := ?c\<rparr>" and ?d = "entered 0x8000000000000005 pc (data s)"
  have on: "intr_get (k_csr s)" using h by (simp add: hart_def)
  have d1: "data ?s1 = ?d" by (simp add: entered_def data_def trap_enter_def cpu0_def)
  have h1: "hart {} False None ?s1" using hart_csr [OF h, of ?c] by (simp add: trap_enter_bits)
  obtain s2 where s2: "kerneltrap regs ?s1 = Ok Returned s2" "hart {} False None s2" "data s2 = ticked None ?d" "r_sstatus (k_csr s2) = r_sstatus ?c"
      "k_uart s2 = send (cstr ''tick '' @ show_int (sint (k_ticks s + 1)) @ cstr ''\<newline>'') (k_uart s)"
    by (rule wpE [OF wp_kerneltrap_idle [OF h1, where Q = "\<lambda>r s'. r = Returned \<and> hart {} False None s' \<and> data s' = ticked None ?d \<and>
        r_sstatus (k_csr s') = r_sstatus ?c \<and> k_uart s' = send (cstr ''tick '' @ show_int (sint (k_ticks s + 1)) @ cstr ''\<newline>'') (k_uart s)"]])
       (use n d1 in \<open>auto simp: trap_enter_bits\<close>)
  have "bit (c_mstatus (k_csr s2)) 5"
    using s2(4) [THEN arg_cong, of "\<lambda>x. bit x 5"] trap_enter_bits(3) [of "0x8000000000000005" pc "k_csr s"] on
    by (simp add: r_sstatus_def bit_simps)
  moreover have "c_sepc (k_csr s2) = pc"
    using s2(3) [THEN arg_cong, of "\<lambda>d. c_sepc (k_csr d)"] by (simp add: ticked_def entered_def w_stimecmp_def)
  moreover have "data (s2\<lparr>k_csr := fst (sret (k_csr s2))\<rparr>) = data s2" by (simp add: data_def sret_def cpu0_def)
  ultimately show ?thesis
    using s2 Q hart_csr [OF s2(2), of "fst (sret (k_csr s2))"]
    by (simp add: kernelvec_def wp_def exec_simps sret_bits split_beta)
qed

text \<open>A preempted process, when the scheduler comes back to it, goes on at the interrupted
  instruction with interrupts as they were.\<close>

lemma wp_kernelvec_resume:
  assumes h: "hart {ProcLock p} e (Some p) s"
    and Q: "\<And>s'. hart {} (bit sstatus 5) (Some p) s' \<Longrightarrow>
      data s' = (data s)\<lparr>k_csr := (k_csr (data s))\<lparr>c_sepc := sepc\<rparr>\<rparr> \<Longrightarrow> k_uart s' = k_uart s \<Longrightarrow> Q sepc s'"
  shows "wp (kernelvec_resume p intena sepc sstatus) Q s"
proof -
  obtain s1 where s1: "yield_resume p intena s = Ok () s1" "hart {} intena (Some p) s1" "data s1 = data s" "k_uart s1 = k_uart s"
    by (rule wpE [OF wp_yield_resume [OF h, where Q = "\<lambda>_ s'. hart {} intena (Some p) s' \<and> data s' = data s \<and> k_uart s' = k_uart s"]]) auto
  let ?s2 = "restored sepc sstatus s1"
  have c: "c_sepc (k_csr ?s2) = sepc" "bit (c_mstatus (k_csr ?s2)) 5 = bit sstatus 5"
    by (simp_all add: restored_def w_sstatus_def w_sepc_def bit_simps SSTATUS_VIEW_def)
  let ?s3 = "?s2\<lparr>k_csr := fst (sret (k_csr ?s2))\<rparr>"
  have run: "kernelvec_resume p intena sepc sstatus s = Ok sepc ?s3"
    using s1(1) c by (simp add: kernelvec_resume_def kerneltrap_resume_def exec_simps restored_def sret_bits split_beta)
  have "hart {} (bit sstatus 5) (Some p) ?s3"
    using hart_csr [OF hart_restored [OF s1(2)], of "fst (sret (k_csr ?s2))" sepc sstatus] c by (simp add: sret_bits)
  moreover have "data ?s3 = (data s1)\<lparr>k_csr := (k_csr (data s1))\<lparr>c_sepc := sepc\<rparr>\<rparr>"
    by (simp add: data_def restored_def sret_def w_sstatus_def w_sepc_def cpu0_def)
  moreover have "k_uart ?s3 = k_uart s" using s1(4) by (simp add: restored_def)
  ultimately show ?thesis using run Q s1(3) by (simp only: wp_def) blast
qed

section \<open>Properties\<close>

text \<open>C17. A timer interrupt while no process runs is transparent: the handler counts the tick, wakes the
  processes that sleep on the clock, asks for the next interrupt, and returns to the interrupted
  instruction with interrupts enabled and no lock held; memory, free list and page table are as they
  were.\<close>

theorem timer_interrupt_transparent:
  assumes "hart {} True None s" and "ptable U s xs"
  shows "\<exists>s'. kernelvec 0x8000000000000005 pc regs s = Ok (Inl pc) s' \<and> hart {} True None s' \<and> ptable U s' xs
     \<and> k_ticks s' = k_ticks s + 1 \<and> k_procs s' = woken ChanTicks None (k_procs s) \<and> k_mem s' = k_mem s
     \<and> k_freelist s' = k_freelist s \<and> k_pagetable s' = k_pagetable s \<and> c_stimecmp (k_csr s') = c_time (k_csr s) + 10000000
     \<and> k_uart s' = send (cstr ''tick '' @ show_int (sint (k_ticks s + 1)) @ cstr ''\<newline>'') (k_uart s)"
proof -
  have n: "length (k_procs s) = NPROC" using assms(2) by (simp add: ptable_def)
  let ?u = "send (cstr ''tick '' @ show_int (sint (k_ticks s + 1)) @ cstr ''\<newline>'') (k_uart s)"
  obtain s' where s': "kernelvec 0x8000000000000005 pc regs s = Ok (Inl pc) s'" "hart {} True None s'"
      "data s' = ticked None (entered 0x8000000000000005 pc (data s))" "k_uart s' = ?u"
    by (rule wpE [OF wp_kernelvec_idle [OF assms(1) n, where pc = pc and regs = regs and Q = "\<lambda>r s'. r = Inl pc \<and> hart {} True None s' \<and>
        data s' = ticked None (entered 0x8000000000000005 pc (data s)) \<and> k_uart s' = ?u"]]) auto
  have f: "k_ticks s' = k_ticks s + 1" "k_procs s' = woken ChanTicks None (k_procs s)" "k_mem s' = k_mem s" "k_freelist s' = k_freelist s"
      "k_pagetable s' = k_pagetable s" "k_link s' = k_link s"
    using s'(3) [THEN arg_cong, of "\<lambda>d. (k_ticks d, k_procs d, k_mem d, k_freelist d, k_pagetable d, k_link d)"] by (simp_all add: ticked_def entered_def)
  have "c_stimecmp (k_csr s') = c_time (k_csr s) + 10000000"
    using s'(3) [THEN arg_cong, of "\<lambda>d. c_stimecmp (k_csr d)"] by (simp add: ticked_def entered_def w_stimecmp_def r_time_def data_def)
  moreover have "ptable U s' xs"
    using ptable_woken [OF assms(2), of ChanTicks None] ptable_cong [of s' "s\<lparr>k_procs := woken ChanTicks None (k_procs s)\<rparr>"] f by simp
  ultimately show ?thesis using s' f by blast
qed

theorem timer_interrupt_transparent_witness:
  "\<exists>s'. kernelvec 0x8000000000000005 0x80001234 zero_context (pool_table None True) = Ok (Inl 0x80001234) s' \<and> k_ticks s' = 1"
  using timer_interrupt_transparent [OF pool_table_ok(1,2) [where c = None and e = True], of "0x80001234" zero_context]
  by (auto simp: pool_table_def)

text \<open>C16. A timer interrupt while a process runs with interrupts enabled preempts it: the process is
  runnable, its registers are saved, and when the scheduler switches back to it, it goes on at the
  interrupted instruction with interrupts enabled and no lock held.\<close>

theorem timer_preempts_and_resumes:
  assumes "hart {} True (Some p) s" and "length (k_procs s) = NPROC" and "p < NPROC"
  shows "\<exists>s' intena sepc sstatus. kernelvec 0x8000000000000005 pc regs s = Ok (Inr (Preempted p intena (cpu_context (cpu0 s)) sepc sstatus)) s'
     \<and> hart {ProcLock p} False (Some p) s' \<and> p_state (k_procs s' ! p) = RUNNABLE \<and> p_context (k_procs s' ! p) = regs
     \<and> (\<forall>e t. hart {ProcLock p} e (Some p) t \<longrightarrow>
          (\<exists>t'. kernelvec_resume p intena sepc sstatus t = Ok pc t' \<and> hart {} True (Some p) t' \<and> k_procs t' = k_procs t \<and> k_mem t' = k_mem t))"
proof -
  let ?c = "trap_enter 0x8000000000000005 pc (k_csr s)"
  let ?s1 = "s\<lparr>k_csr := ?c\<rparr>"
  have on: "intr_get (k_csr s)" using assms(1) by (simp add: hart_def)
  have h1: "hart {} False (Some p) ?s1" using hart_csr [OF assms(1), of ?c] by (simp add: trap_enter_bits)
  have ctx: "cpu_context (cpu0 ?s1) = cpu_context (cpu0 s)" by (simp add: cpu0_def)
  obtain s' where s': "kerneltrap regs ?s1 = Ok (Preempted p False (cpu_context (cpu0 s)) pc (r_sstatus ?c)) s'" "hart {ProcLock p} False (Some p) s'"
      "data s' = switched p regs (p_state_update (\<lambda>_. RUNNABLE)) (ticked (Some p) (data ?s1))"
    by (rule wpE [OF wp_kerneltrap_preempt [OF h1, where regs = regs and Q = "\<lambda>r s'. r = Preempted p False (cpu_context (cpu0 s)) pc (r_sstatus ?c) \<and>
        hart {ProcLock p} False (Some p) s' \<and> data s' = switched p regs (p_state_update (\<lambda>_. RUNNABLE)) (ticked (Some p) (data ?s1))"]])
       (use assms(2,3) ctx in \<open>auto simp: trap_enter_bits\<close>)
  have procs: "k_procs s' = (woken ChanTicks (Some p) (k_procs s))[p := (woken ChanTicks (Some p) (k_procs s) ! p)\<lparr>p_state := RUNNABLE, p_context := regs\<rparr>]"
    using s'(3) [THEN arg_cong, of k_procs] by (simp add: switched_def ticked_def)
  have "\<exists>t'. kernelvec_resume p False pc (r_sstatus ?c) t = Ok pc t' \<and> hart {} True (Some p) t' \<and> k_procs t' = k_procs t \<and> k_mem t' = k_mem t"
    if t: "hart {ProcLock p} e (Some p) t" for e t
  proof -
    have b: "bit (r_sstatus ?c) 5" using trap_enter_bits(3) on by simp
    have "wp (kernelvec_resume p False pc (r_sstatus ?c)) (\<lambda>r t'. r = pc \<and> hart {} True (Some p) t' \<and> k_procs t' = k_procs t \<and> k_mem t' = k_mem t) t"
    proof (rule wp_kernelvec_resume [OF t])
      fix t'
      assume "hart {} (bit (r_sstatus ?c) 5) (Some p) t'" and d: "data t' = (data t)\<lparr>k_csr := (k_csr (data t))\<lparr>c_sepc := pc\<rparr>\<rparr>"
      moreover have "k_procs t' = k_procs t" "k_mem t' = k_mem t" using d [THEN arg_cong, of k_procs] d [THEN arg_cong, of k_mem] by simp_all
      ultimately show "pc = pc \<and> hart {} True (Some p) t' \<and> k_procs t' = k_procs t \<and> k_mem t' = k_mem t" using b by simp
    qed
    then show ?thesis by (auto simp: wp_def)
  qed
  moreover have "kernelvec 0x8000000000000005 pc regs s = Ok (Inr (Preempted p False (cpu_context (cpu0 s)) pc (r_sstatus ?c))) s'"
    using s'(1) by (simp add: kernelvec_def exec_simps)
  ultimately show ?thesis using s'(2) procs assms(2,3) by (intro exI [of _ s'] exI [of _ False] exI [of _ pc] exI [of _ "r_sstatus ?c"]) simp
qed

theorem timer_preempts_and_resumes_witness:
  "\<exists>r s'. kernelvec 0x8000000000000005 0x80001234 zero_context (pool_table (Some 5) True) = Ok (Inr r) s' \<and> p_state (k_procs s' ! 5) = RUNNABLE"
  using timer_preempts_and_resumes [OF pool_table_ok(1) [where c = "Some 5" and e = True], of "0x80001234" zero_context]
  by (auto simp: pool_table_ok(6) NPROC_def)

text \<open>C33. Every trap the kernel does not expect ends in a panic, whatever locks are held, with nothing changed
  but the console and the nesting of locks: a trap from user mode or with interrupts enabled, an
  exception, an interrupt that is neither the timer nor external. The panic names the trap, except that
  an exception or interrupt which is reported first (all but the causes 8, 13 and 15) and finds the
  console's lock held by the interrupted code ends in the panic of \<open>acquire\<close>.\<close>

theorem unexpected_traps_panic:
  assumes "hart H e c s"
  shows "if \<not> bit (c_mstatus (k_csr s)) 8 then kerneltrap regs s = Err (Panic ''kerneltrap: not from supervisor mode'') s
     else if intr_get (k_csr s) then kerneltrap regs s = Err (Panic ''kerneltrap: interrupts enabled'') s
     else c_scause (k_csr s) = 0x8000000000000005 \<or> c_scause (k_csr s) = 0x8000000000000009
       \<or> (\<exists>s'. data s' = data s \<and> kerneltrap regs s = Err (Panic (if PrintLock \<in> H \<and> c_scause (k_csr s) \<notin> {8, 13, 15}
            then ''acquire'' else trap_message (c_scause (k_csr s)))) s')"
proof (cases "\<not> bit (c_mstatus (k_csr s)) 8 \<or> intr_get (k_csr s) \<or> c_scause (k_csr s) \<in> {0x8000000000000005, 0x8000000000000009}")
  case True
  then show ?thesis using kerneltrap_guards [of s regs] by auto
next
  case False
  then have f: "\<not> intr_get (k_csr s)" "bit (c_mstatus (k_csr s)) 8" "c_scause (k_csr s) \<notin> {0x8000000000000005, 0x8000000000000009}" by blast+
  show ?thesis using f(1,2) disjI2 [OF disjI2 [OF kerneltrap_panics [OF assms f, of regs]]] by (simp only: if_False not_True_eq_False not_False_eq_True)
qed

theorem unexpected_traps_panic_witness:
  "\<exists>s s' t t'. c_scause (k_csr s) = 13 \<and> kerneltrap zero_context s = Err (Panic ''kerneltrap: load page fault'') s'
     \<and> c_scause (k_csr t) = 2 \<and> kerneltrap zero_context t = Err (Panic ''acquire'') t'"
proof -
  let ?s = "pool_table None True" and ?t = "acq PrintLock (pool_table None True)"
  let ?c = "\<lambda>x s. trap_enter x 0x80001234 (k_csr s)"
  have "hart {} True None ?s" by (rule pool_table_ok(1))
  then have hs: "hart {} False None (?s\<lparr>k_csr := ?c 13 ?s\<rparr>)"
    using hart_csr [of "{}" True None ?s "?c 13 ?s"] by (simp add: trap_enter_bits)
  have s: "\<exists>s'. kerneltrap zero_context (?s\<lparr>k_csr := ?c 13 ?s\<rparr>) = Err (Panic ''kerneltrap: load page fault'') s'"
    using unexpected_traps_panic [OF hs, of zero_context] by (auto simp: trap_enter_bits trap_message_def)
  have "hart {PrintLock} True None ?t" using hart_acq [OF pool_table_ok(1), of PrintLock] by simp
  then have ht: "hart {PrintLock} True None (?t\<lparr>k_csr := ?c 2 ?t\<rparr>)"
    using hart_csr [of "{PrintLock}" True None ?t "?c 2 ?t"] by (simp add: trap_enter_bits)
  have t: "\<exists>t'. kerneltrap zero_context (?t\<lparr>k_csr := ?c 2 ?t\<rparr>) = Err (Panic ''acquire'') t'"
    using unexpected_traps_panic [OF ht, of zero_context] by (auto simp: trap_enter_bits trap_message_def)
  have "c_scause (k_csr (?s\<lparr>k_csr := ?c 13 ?s\<rparr>)) = 13" "c_scause (k_csr (?t\<lparr>k_csr := ?c 2 ?t\<rparr>)) = 2" by (simp_all add: trap_enter_bits)
  with s t show ?thesis by blast
qed

text \<open>C32. An external interrupt: with the claim register out of reach the handler faults; a spurious one changes
  nothing; the UART is drained without a byte sent, an unknown device is reported on the console, and
  both are completed at the controller; the disk, which has no driver, ends in a panic.\<close>

theorem external_interrupt_served:
  assumes "hart {} e c s" and "c_scause (k_csr s) = 0x8000000000000009"
  shows "if \<not> reachable_addr s (PLIC_SCLAIM 0) then devintr s = Err Fault s else
    (case plic_pending (k_plic s) of [] \<Rightarrow> devintr s = Ok 1 s | q # qs \<Rightarrow>
     if q = VIRTIO0_IRQ then devintr s = Err (Panic ''virtio_disk_intr not implemented in lab 4'') (s\<lparr>k_plic := (k_plic s)\<lparr>plic_pending := qs\<rparr>\<rparr>)
     else if q = 0 then devintr s = Ok 1 (s\<lparr>k_plic := (k_plic s)\<lparr>plic_pending := qs\<rparr>\<rparr>)
     else \<exists>s'. devintr s = Ok 1 s' \<and> hart {} e c s'
       \<and> data s' = (data s)\<lparr>k_plic := (k_plic s)\<lparr>plic_pending := qs, plic_completed := plic_completed (k_plic s) @ [q]\<rparr>\<rparr>
       \<and> (if q = UART0_IRQ then rx_fifo (k_uart s') = [] \<and> tx_sent (k_uart s') = tx_sent (k_uart s)
          else k_uart s' = send (cstr ''unexpected interrupt irq='' @ show_int (sint q) @ cstr ''\<newline>'') (k_uart s)))"
proof (cases "reachable_addr s (PLIC_SCLAIM 0)")
  case True
  note r = assms(2) True
  show ?thesis
  proof (cases "plic_pending (k_plic s)")
    case Nil
    then show ?thesis using True devintr_no_device(1) [OF r] by simp
  next
    case (Cons q qs)
    consider "q = 0" | "q = VIRTIO0_IRQ" | "q = UART0_IRQ" | "q \<notin> {0, UART0_IRQ, VIRTIO0_IRQ}" by auto
    then show ?thesis
    proof cases
      case 1
      then show ?thesis using True Cons devintr_no_device(2) [OF r] by (simp add: VIRTIO0_IRQ_def)
    next
      case 2
      then show ?thesis using True Cons devintr_no_device(3) [OF r] by simp
    next
      case 3
      moreover have "UART0_IRQ \<noteq> VIRTIO0_IRQ" "UART0_IRQ \<noteq> 0" by (simp_all add: UART0_IRQ_def VIRTIO0_IRQ_def)
      ultimately show ?thesis using True Cons devintr_uart [OF r] assms(1) uart_intr_drains [of "k_uart s"] by simp
    next
      case 4
      then show ?thesis using True Cons devintr_unknown [OF assms(1) r Cons] by simp
    qed
  qed
qed (use devintr_unmapped [OF assms(2)] in simp)

theorem external_interrupt_served_witness:
  "\<exists>s s'. plic_pending (k_plic s) = [UART0_IRQ] \<and> rx_fifo (k_uart s) = [65, 66] \<and> devintr s = Ok 1 s'
     \<and> rx_fifo (k_uart s') = [] \<and> plic_completed (k_plic s') = plic_completed (k_plic s) @ [UART0_IRQ]"
proof -
  let ?t = "pool_table None False"
  let ?s = "?t\<lparr>k_csr := (k_csr ?t)\<lparr>c_scause := 0x8000000000000009, c_satp := 0\<rparr>, k_plic := (k_plic ?t)\<lparr>plic_pending := [UART0_IRQ]\<rparr>,
    k_uart := (k_uart ?t)\<lparr>rx_fifo := [65, 66]\<rparr>\<rparr>"
  have "intr_get ((k_csr ?t)\<lparr>c_scause := 0x8000000000000009, c_satp := 0\<rparr>) = False"
    using pool_table_ok(1) [where c = None and e = False] by (simp add: hart_def intr_get_bit)
  then have "hart {} False None ?s"
    using hart_csr [OF pool_table_ok(1) [where c = None and e = False], of "(k_csr ?t)\<lparr>c_scause := 0x8000000000000009, c_satp := 0\<rparr>"] by simp
  from external_interrupt_served [OF this] obtain s' where "devintr ?s = Ok 1 s'"
      "data s' = (data ?s)\<lparr>k_plic := (k_plic ?s)\<lparr>plic_pending := [], plic_completed := plic_completed (k_plic ?s) @ [UART0_IRQ]\<rparr>\<rparr>"
      "rx_fifo (k_uart s') = []"
    by (auto simp: reachable_addr_def UART0_IRQ_def VIRTIO0_IRQ_def)
  moreover from this(2) [THEN arg_cong, of k_plic] have "plic_completed (k_plic s') = plic_completed (k_plic ?s) @ [UART0_IRQ]" by simp
  ultimately show ?thesis by (intro exI [of _ ?s] exI [of _ s']) simp
qed

end
