(* ===== verification/Boot.thy ===== *)
theory Boot
  imports Trap
begin

text \<open>
  \<open>kernel/boot/start.c\<close> and \<open>kernel/main.c\<close>: machine-mode set-up up to \<open>mret\<close>, and \<open>main\<close> up to the
  scheduler.

  \<open>main\<close> is cut where its phases end: the console test (\<open>main_console\<close>), memory and paging
  (\<open>main_memory\<close>), and the processes (\<open>main_processes\<close>). A run of calls of \<open>printf\<close> is a list of
  formats with their arguments.
\<close>

section \<open>Definitions\<close>

text \<open>\<open>mret\<close>, by the privileged architecture: \<open>MIE\<close> (bit 3) becomes \<open>MPIE\<close> (bit 7), the hart goes on in
  the mode \<open>MPP\<close> (bits 11 and 12) at \<open>mepc\<close>, \<open>MPP\<close> becomes user mode and \<open>MPRV\<close> (bit 17) is cleared
  when the new mode is not machine mode.\<close>

definition mret :: "csrs \<Rightarrow> csrs \<times> u64 \<times> u64" where
  "mret c =
     (let m = c_mstatus c; mode = drop_bit 11 m AND 3;
          m = set_bit 7 ((if bit m 7 then set_bit else unset_bit) 3 m);
          m = m AND NOT MSTATUS_MPP_MASK;
          m = (if mode \<noteq> 3 then unset_bit 17 m else m)
      in (c\<lparr>c_mstatus := m\<rparr>, mode, c_mepc c))"

text \<open>The mode and the address that \<open>start\<close> leaves for.\<close>

definition start :: "kstate \<Rightarrow> (kstate, u64 \<times> u64) res" where
  "start =
     bindM (csr_read r_mstatus) (\<lambda>x.
     bindM (readM (\<lambda>s. l_main (k_link s))) (\<lambda>entry.
     seqM (csr_write (w_mstatus ((x AND NOT MSTATUS_MPP_MASK) OR MSTATUS_MPP_S)))
    (seqM (csr_write (w_mepc entry))
    (seqM (csr_write (w_satp 0))
    (seqM (csr_write (w_medeleg 0xffff))
    (seqM (csr_write (w_mideleg (push_bit 5 1 OR push_bit 9 1)))
    (seqM (csr_write (w_pmpaddr0 0x3fffffffffffff))
    (seqM (csr_write (w_pmpcfg0 0xf))
    (seqM (csr_write intr_on)
    (seqM timer_init
    (seqM (csr_write (w_mcounteren 7))
    (seqM (csr_write (\<lambda>c. w_stimecmp (r_time c + 10000) c))
    (bindM (csr_read mret) (\<lambda>(c, mode, pc).
     seqM (csr_write (\<lambda>_. c)) (ret (mode, pc))))))))))))))))"

definition print_all :: "(string \<times> vararg list) list \<Rightarrow> kstate \<Rightarrow> (kstate, unit) res" where
  "print_all ls = forM ls (\<lambda>(fmt, args). kprint fmt args)"

definition test_lines1 :: "(string \<times> vararg list) list" where
  "test_lines1 =
     [(''Testinginteger:%d\<newline>'', [VWord 42]),
      (''Testingnegative:%d\<newline>'', [VWord (scast (-123 :: i32))]),
      (''Testingzero:%d\<newline>'', [VWord 0])]"

definition test_lines2 :: "(string \<times> vararg list) list" where
  "test_lines2 =
     [(''Testinghex:0x%x\<newline>'', [VWord 0xABC]),
      (''Testingstring:%s\<newline>'', [VStr (Some (cstr ''Hello''))]),
      (''Testingchar:%c\<newline>'', [VWord 0x58]),
      (''Testingpercent:%%\<newline>'', []),
      (''INT_MAX:%d\<newline>'', [VWord 2147483647]),
      (''INT_MIN:%d\<newline>'', [VWord (scast (-2147483648 :: i32))]),
      (''NULLstring:%s\<newline>'', [VStr None]),
      (''Emptystring:%s'', [VStr (Some [])])]"

definition hello :: "kstate \<Rightarrow> (kstate, unit) res" where
  "hello = modifyM (\<lambda>s. s\<lparr>k_uart := uart_puts (cstr ''Hello, OS!\<newline>'') (k_uart s)\<rparr>)"

definition main_console :: "kstate \<Rightarrow> (kstate, unit) res" where
  "main_console =
     seqM uartinit
    (seqM trapinithart
    (seqM hello
    (seqM (print_all test_lines1)
    (seqM (csr_write (\<lambda>c. w_stimecmp (r_time c + 10000) c))
    (seqM (print_all test_lines2)
          clear_screen)))))"

definition main_memory :: "kstate \<Rightarrow> (kstate, unit) res" where
  "main_memory =
     seqM pmm_init
    (seqM kvminit
    (seqM kvminithart
    (seqM trapinithart
    (seqM hello
    (seqM (print_all (test_lines1 @ test_lines2))
          clear_screen)))))"

definition main_processes :: "kstate \<Rightarrow> (kstate, unit) res" where
  "main_processes =
     seqM procinit
    (seqM userinit
    (bindM (readM (\<lambda>s. l_simple_task (k_link s))) (\<lambda>fn.
     seqM (create_process fn)
          scheduler_start)))"

definition main :: "kstate \<Rightarrow> (kstate, unit) res" where
  "main = seqM main_console (seqM main_memory main_processes)"

section \<open>Machine mode\<close>

text \<open>\<open>mstatus\<close> before and after the \<open>mret\<close> of \<open>start\<close>.\<close>

definition start_mstatus :: "u64 \<Rightarrow> u64" where
  "start_mstatus x = ((x AND NOT MSTATUS_MPP_MASK) OR MSTATUS_MPP_S) OR SSTATUS_SIE"

lemma bit_MPP: "bit MSTATUS_MPP_MASK n \<longleftrightarrow> n = 11 \<or> n = 12" "bit MSTATUS_MPP_S n \<longleftrightarrow> n = 11"
proof -
  have three: "bit (3 :: u64) k \<longleftrightarrow> k = 0 \<or> k = 1" for k
  proof -
    have e: "(3 :: u64) = mask 2" by (simp add: mask_eq_exp_minus_1)
    show ?thesis unfolding e bit_mask_iff by (auto simp: less_2_cases_iff)
  qed
  show "bit MSTATUS_MPP_MASK n \<longleftrightarrow> n = 11 \<or> n = 12"
    unfolding MSTATUS_MPP_MASK_def bit_push_bit_iff three by auto
  show "bit MSTATUS_MPP_S n \<longleftrightarrow> n = 11"
    unfolding MSTATUS_MPP_S_def bit_push_bit_iff bit_1_iff by auto
qed

lemma start_mode: "drop_bit 11 (start_mstatus x) AND 3 = 1"
proof -
  have three: "(3 :: u64) = mask 2" by (simp add: mask_eq_exp_minus_1)
  show ?thesis unfolding three
    by (rule bit_word_eqI) (auto simp: start_mstatus_def bit_simps bit_MPP bit_SIE)
qed

definition start_csrs :: "u64 \<Rightarrow> csrs \<Rightarrow> csrs" where
  "start_csrs entry c = fst (mret (c\<lparr>c_mstatus := start_mstatus (c_mstatus c), c_mepc := entry, c_satp := 0, c_medeleg := 0xffff,
     c_mideleg := 0x220, c_pmpaddr0 := 0x3fffffffffffff, c_pmpcfg0 := 0xf, c_mie := c_mie c OR 0x20,
     c_menvcfg := c_menvcfg c OR 0x8000000000000000, c_mcounteren := 7, c_stimecmp := c_time c + 10000\<rparr>))"

lemma start_run:
  "start s = Ok (1, l_main (k_link s)) (s\<lparr>k_csr := start_csrs (l_main (k_link s)) (k_csr s),
     k_locks := (k_locks s)(TicksLock := \<lparr>lk_locked = 0, lk_name = Some ''time'', lk_cpu = None\<rparr>)\<rparr>)"
proof -
  have mie: "c_mie c AND NOT 0x220 OR (c_mie c AND 0x220 OR SIE_STIE) AND 0x220 = c_mie c OR 0x20" for c
  proof -
    have b: "bit (0x220 :: u64) n \<longleftrightarrow> n = 5 \<or> n = 9" "bit (0x20 :: u64) n \<longleftrightarrow> n = 5" for n
    proof -
      have e: "(0x220 :: u64) = push_bit 5 1 OR push_bit 9 1" "(0x20 :: u64) = push_bit 5 1" by simp_all
      show "bit (0x220 :: u64) n \<longleftrightarrow> n = 5 \<or> n = 9" "bit (0x20 :: u64) n \<longleftrightarrow> n = 5"
        unfolding e bit_or_iff bit_push_bit_iff bit_1_iff by auto
    qed
    have e: "SIE_STIE = 0x20" by (simp add: SIE_STIE_def)
    show ?thesis unfolding e by (rule bit_word_eqI) (simp only: bit_or_iff bit_and_iff bit_not_iff b, auto)
  qed
  show ?thesis
    using start_mode [of "c_mstatus (k_csr s)"] mie [of "k_csr s"]
    by (simp add: start_def timer_init_def initlock_run exec_simps mret_def Let_def start_csrs_def intr_on_eq start_mstatus_def
      r_mstatus_def w_mstatus_def w_mepc_def w_satp_def w_medeleg_def w_mideleg_def w_pmpaddr0_def w_pmpcfg0_def w_sie_def r_sie_def
      w_menvcfg_def r_menvcfg_def w_mcounteren_def r_mcounteren_def w_stimecmp_def r_time_def)
qed

section \<open>The console test\<close>

definition expected_lines1 :: string where
  "expected_lines1 = ''Testinginteger:42\<newline>Testingnegative:-123\<newline>Testingzero:0\<newline>''"

definition expected_lines2 :: string where
  "expected_lines2 = ''Testinghex:0xabc\<newline>Testingstring:Hello\<newline>Testingchar:X\<newline>Testingpercent:%\<newline>'' @
     ''INT_MAX:2147483647\<newline>INT_MIN:-2147483648\<newline>NULLstring:(null)\<newline>Emptystring:''"

fun rendered :: "(string \<times> vararg list) list \<Rightarrow> u8 list option" where
  "rendered [] = Some []"
| "rendered ((fmt, args) # ls) =
     (case render (cstr fmt) args of None \<Rightarrow> None
      | Some bs \<Rightarrow> (case rendered ls of None \<Rightarrow> None | Some r \<Rightarrow> Some (bs @ r)))"

lemmas render_eval = cstr_def ch_def byte_at_def directive_text_def int_directive_def Let_def va_word_def va_str_def
  int_text_def show_int_def num_str.simps digits_def cons_bytes_def BACKSPACE_def

lemma rendered_lines1: "rendered test_lines1 = Some (cstr expected_lines1)"
  by (simp add: test_lines1_def expected_lines1_def render_eval)

lemma rendered_lines2: "rendered test_lines2 = Some (cstr expected_lines2)"
  by (simp add: test_lines2_def expected_lines2_def render_eval)

lemma rendered_append: "rendered as = Some x \<Longrightarrow> rendered bs = Some y \<Longrightarrow> rendered (as @ bs) = Some (x @ y)"
  by (induction as arbitrary: x) (auto split: option.splits)

lemma wp_print_all:
  assumes "hart H e c s" and "PrintLock \<notin> H" and "rendered ls = Some bs"
    and "\<And>s'. hart H e c s' \<Longrightarrow> data s' = data s \<Longrightarrow> k_uart s' = send bs (k_uart s) \<Longrightarrow> Q () s'"
  shows "wp (print_all ls) Q s"
  using assms
proof (induction ls arbitrary: s bs)
  case Nil
  then show ?case by (simp add: print_all_def wp_def)
next
  case (Cons l ls)
  obtain fmt args where l: "l = (fmt, args)" by (cases l)
  obtain b r where r: "render (cstr fmt) args = Some b" "rendered ls = Some r" "bs = b @ r"
    using Cons.prems(3) by (auto simp: l split: option.splits)
  obtain s1 where s1: "kprint fmt args s = Ok () s1" "hart H e c s1" "data s1 = data s" "k_uart s1 = send b (k_uart s)"
    by (rule wpE [OF wp_kprint [OF Cons.prems(1,2) r(1), where Q = "\<lambda>_ s'. hart H e c s' \<and> data s' = data s \<and> k_uart s' = send b (k_uart s)"]]) auto
  have "wp (print_all ls) Q s1"
    by (rule Cons.IH [OF s1(2) Cons.prems(2) r(2)]) (use s1 r Cons.prems(4) in \<open>simp_all add: send_def\<close>)
  then show ?case using s1(1) by (simp add: print_all_def wp_def l)
qed

lemma wp_uartinit:
  assumes "hart H e c s" and "PrintLock \<notin> H"
    and "\<And>s'. hart H e c s' \<Longrightarrow> data s' = data s \<Longrightarrow> k_uart s' = uartinit_dev (k_uart s) \<Longrightarrow> Q () s'"
  shows "wp uartinit Q s"
proof -
  let ?s1 = "s\<lparr>k_uart := uartinit_dev (k_uart s)\<rparr>"
  let ?s2 = "?s1\<lparr>k_locks := (k_locks s)(PrintLock := \<lparr>lk_locked = 0, lk_name = Some ''printlock'', lk_cpu = None\<rparr>)\<rparr>"
  have "hart H e c ?s2" using hart_initlock [of H e c ?s1 PrintLock "Some ''printlock''"] assms(1,2) by simp
  moreover have "uartinit s = Ok () ?s2" by (simp add: uartinit_def initlock_run exec_simps)
  moreover have "data ?s2 = data s" by (simp add: data_def cpu0_def)
  ultimately show ?thesis using assms(3) [of ?s2] by (intro wpI) simp_all
qed

lemma wp_csr_write:
  assumes "hart {} e c s" and "c_tp (f (k_csr s)) = c_tp (k_csr s)" and "intr_get (f (k_csr s)) = intr_get (k_csr s)"
    and "(f (k_csr s))\<lparr>c_mstatus := 0\<rparr> = f (k_csr (data s))"
    and "\<And>s'. hart {} e c s' \<Longrightarrow> data s' = (data s)\<lparr>k_csr := f (k_csr (data s))\<rparr> \<Longrightarrow> k_uart s' = k_uart s \<Longrightarrow> Q () s'"
  shows "wp (csr_write f) Q s"
proof -
  have "intr_get (k_csr s) = e" using assms(1) by (simp add: hart_def)
  then have "hart {} e c (s\<lparr>k_csr := f (k_csr s)\<rparr>)" using hart_csr [OF assms(1,2)] assms(3) by simp
  then show ?thesis using assms(4,5) by (simp add: csr_write_def wp_simps data_csr)
qed

lemma wp_trapinithart:
  assumes "hart {} e c s"
    and "\<And>s'. hart {} e c s' \<Longrightarrow> data s' = (data s)\<lparr>k_csr := (k_csr (data s))\<lparr>c_stvec := l_kernelvec (k_link s)\<rparr>\<rparr> \<Longrightarrow> k_uart s' = k_uart s \<Longrightarrow> Q () s'"
  shows "wp trapinithart Q s"
  unfolding trapinithart_def wp_simps
  by (rule wp_csr_write [OF assms(1)], simp, simp) (use assms(2) in \<open>simp_all add: w_stvec_def\<close>)

lemma plain_clear: "plain (CHR 0x1B # ''[2J'')" "plain (CHR 0x1B # ''[H'')"
  by (simp_all add: plain_def cstr_def)

lemma wp_clear_screen:
  assumes "hart H e c s" and "PrintLock \<notin> H"
    and "\<And>s'. hart H e c s' \<Longrightarrow> data s' = data s \<Longrightarrow>
      k_uart s' = send (cstr (CHR 0x1B # ''[2J'') @ cstr (CHR 0x1B # ''[H'')) (k_uart s) \<Longrightarrow> Q () s'"
  shows "wp clear_screen Q s"
  unfolding clear_screen_def wp_simps
  by (rule wp_printf [OF assms(1,2) render_plain_text [OF plain_clear(1)]],
      rule wp_printf [OF _ assms(2) render_plain_text [OF plain_clear(2)]], assumption)
     (use assms(3) in \<open>simp add: send_def\<close>)

text \<open>Everything the first phase sends.\<close>

definition clear_text :: "u8 list" where
  "clear_text = cstr (CHR 0x1B # ''[2J'') @ cstr (CHR 0x1B # ''[H'')"

definition hello_sent :: "uart_dev \<Rightarrow> uart_dev" where
  "hello_sent u = send (cstr expected_lines1 @ cstr expected_lines2 @ clear_text) (uart_puts (cstr ''Hello, OS!\<newline>'') u)"

lemma wp_main_console:
  assumes h: "hart {} e c s"
    and Q: "\<And>s'. hart {} e c s' \<Longrightarrow> k_uart s' = hello_sent (uartinit_dev (k_uart s)) \<Longrightarrow>
      data s' = (data s)\<lparr>k_csr := (k_csr (data s))\<lparr>c_stvec := l_kernelvec (k_link s), c_stimecmp := c_time (k_csr s) + 10000\<rparr>\<rparr> \<Longrightarrow> Q () s'"
  shows "wp main_console Q s"
  unfolding main_console_def hello_def wp_simps
proof (rule wp_uartinit [OF h], simp, rule wp_trapinithart, assumption, rule wp_print_all [OF _ _ rendered_lines1], simp, simp,
    rule wp_csr_write, assumption, simp, simp, simp (no_asm) add: w_stimecmp_def r_time_def, rule wp_print_all [OF _ _ rendered_lines2], assumption, simp, rule wp_clear_screen, assumption, simp, rule Q, assumption, goal_cases)
  case (1 s1 s2 s3 s4 s5 s6)
  then show ?case by (simp add: hello_sent_def clear_text_def send_def)
next
  case (2 s1 s2 s3 s4 s5 s6)
  have "data s3 = data s2" using 2(8) by simp
  then show ?case using 2(2,5,11,14,17) data_eqD(1) [OF 2(2)] by (simp add: w_stimecmp_def r_time_def)
qed

section \<open>Memory\<close>

definition boot_pages :: "linkmap \<Rightarrow> u64 list" where
  "boot_pages lm = rev (page_range (PGROUNDUP (l_end lm)) ((unat PHYSTOP - unat (PGROUNDUP (l_end lm))) div 4096))"

lemma wp_pmm_init:
  assumes h: "hart H e c s" "KmemLock \<notin> H" and l: "link_wf (k_link s)" "k_freelist s = 0"
    and Q: "\<And>s'. hart H e c s' \<Longrightarrow> kmem_rep s' (boot_pages (k_link s)) \<Longrightarrow> k_uart s' = k_uart s \<Longrightarrow>
      data s' = (data s)\<lparr>k_mem := k_mem s', k_freelist := k_freelist s'\<rparr> \<Longrightarrow> Q () s'"
  shows "wp pmm_init Q s"
proof -
  let ?s1 = "s\<lparr>k_locks := (k_locks s)(KmemLock := \<lparr>lk_locked = 0, lk_name = Some ''kmem'', lk_cpu = None\<rparr>)\<rparr>"
  obtain s' m f where s': "pmm_init s = Ok () s'" "kmem_rep s' (boot_pages (k_link s))"
      and fr: "s' = ?s1\<lparr>k_mem := m, k_freelist := f\<rparr> \<or> s' = (settle ?s1)\<lparr>k_mem := m, k_freelist := f\<rparr>"
    using pmm_init_run [OF l(1) hartD(1) [OF h(1)] l(2) refl] unfolding Let_def boot_pages_def by blast
  have mo: "mem_only ?s1 s'" using fr unfolding mem_only_iff by blast
  have h1: "hart H e c ?s1" by (rule hart_initlock [OF h])
  have "data s' = (data s)\<lparr>k_mem := k_mem s', k_freelist := k_freelist s'\<rparr>" "k_uart s' = k_uart s"
    using data_mem_only [OF mo] mem_only_uart [OF mo] by simp_all
  with Q [OF hart_mem_only [OF mo h1] s'(2)] s'(1) show ?thesis by (simp add: wp_def)
qed

lemma wp_kvminit:
  assumes h: "hart H e c s" "KmemLock \<notin> H" and rep: "kmem_rep s (p # xs)" and pool: "67 \<le> length xs"
    and Q: "\<And>s' ns ys. hart H e c s' \<Longrightarrow> xs = ns @ ys \<Longrightarrow> length ns \<le> 67 \<Longrightarrow> vm_rep s' p ys \<Longrightarrow> k_uart s' = k_uart s \<Longrightarrow>
      translate s' p = direct_map (l_etext (k_link s)) \<Longrightarrow> tables s' p = insert p (set ns) \<Longrightarrow>
      data s' = (data s)\<lparr>k_mem := k_mem s', k_freelist := k_freelist s', k_pagetable := p\<rparr> \<Longrightarrow> Q () s'"
  shows "wp kvminit Q s"
proof -
  obtain ns ys s' where s': "kvminit s = Ok () s'" "xs = ns @ ys" "length ns \<le> 67" "vm_rep s' p ys"
      and mo: "mem_only (s\<lparr>k_pagetable := p\<rparr>) s'" and t: "tables s' p = insert p (set ns)" "translate s' p = direct_map (l_etext (k_link s))"
    using kvminit_run [OF rep pool] by blast
  have "data s' = (data s)\<lparr>k_mem := k_mem s', k_freelist := k_freelist s', k_pagetable := p\<rparr>" "k_uart s' = k_uart s"
    using data_mem_only [OF mo] mem_only_uart [OF mo] by simp_all
  with Q [OF hart_mem_only [OF mo] s'(2-4)] h t s'(1) show ?thesis by (simp add: wp_def)
qed

lemma wp_hello_again:
  assumes "hart {} e c s"
    and Q: "\<And>s'. hart {} e c s' \<Longrightarrow> k_uart s' = hello_sent (k_uart s) \<Longrightarrow> data s' = data s \<Longrightarrow> Q () s'"
  shows "wp (seqM hello (seqM (print_all (test_lines1 @ test_lines2)) clear_screen)) Q s"
  unfolding hello_def wp_simps
  by (rule wp_print_all [OF _ _ rendered_append [OF rendered_lines1 rendered_lines2], where H = "{}" and e = e and c = c],
      simp add: assms, simp, rule wp_clear_screen, assumption, simp, rule Q)
     (simp_all add: hello_sent_def clear_text_def send_def)

lemma wp_main_memory:
  assumes h: "hart {} e c s" and l: "link_wf (k_link s)" "k_freelist s = 0" and pool: "68 \<le> length (boot_pages (k_link s))"
    and Q: "\<And>s' p ns ys. hart {} e c s' \<Longrightarrow> boot_pages (k_link s) = p # ns @ ys \<Longrightarrow> length ns \<le> 67 \<Longrightarrow> vm_rep s' p ys \<Longrightarrow>
      tables s' p = insert p (set ns) \<Longrightarrow> translate s' p = direct_map (l_etext (k_link s)) \<Longrightarrow> k_uart s' = hello_sent (k_uart s) \<Longrightarrow>
      data s' = (data s)\<lparr>k_mem := k_mem s', k_freelist := k_freelist s', k_pagetable := p,
        k_csr := (k_csr (data s))\<lparr>c_satp := MAKE_SATP p, c_stvec := l_kernelvec (k_link s)\<rparr>\<rparr> \<Longrightarrow> Q () s'"
  shows "wp main_memory Q s"
proof -
  obtain s1 where s1: "pmm_init s = Ok () s1" "hart {} e c s1" "kmem_rep s1 (boot_pages (k_link s))" "k_uart s1 = k_uart s"
      "data s1 = (data s)\<lparr>k_mem := k_mem s1, k_freelist := k_freelist s1\<rparr>"
    by (rule wpE [OF wp_pmm_init [OF h _ l, where Q = "\<lambda>_ s'. hart {} e c s' \<and> kmem_rep s' (boot_pages (k_link s)) \<and> k_uart s' = k_uart s \<and>
       data s' = (data s)\<lparr>k_mem := k_mem s', k_freelist := k_freelist s'\<rparr>"]]) auto
  obtain p xs where xs: "boot_pages (k_link s) = p # xs" "67 \<le> length xs" using pool by (cases "boot_pages (k_link s)") auto
  have lk: "k_link s1 = k_link s" using s1(5) [THEN arg_cong, of k_link] by simp
  obtain s2 ns ys where s2: "kvminit s1 = Ok () s2" "hart {} e c s2" "xs = ns @ ys" "length ns \<le> 67" "vm_rep s2 p ys" "k_uart s2 = k_uart s"
      "translate s2 p = direct_map (l_etext (k_link s))" "tables s2 p = insert p (set ns)"
      "data s2 = (data s1)\<lparr>k_mem := k_mem s2, k_freelist := k_freelist s2, k_pagetable := p\<rparr>"
    by (rule wpE [OF wp_kvminit [OF s1(2) _ _ xs(2), where p = p and Q = "\<lambda>_ s'. \<exists>ns ys. hart {} e c s' \<and> xs = ns @ ys \<and> length ns \<le> 67 \<and> vm_rep s' p ys \<and>
        k_uart s' = k_uart s \<and> translate s' p = direct_map (l_etext (k_link s)) \<and> tables s' p = insert p (set ns) \<and>
        data s' = (data s1)\<lparr>k_mem := k_mem s', k_freelist := k_freelist s', k_pagetable := p\<rparr>"]])
       (use s1(3,4) xs lk in auto)
  let ?csr = "(k_csr (data s))\<lparr>c_satp := MAKE_SATP p, c_stvec := l_kernelvec (k_link s)\<rparr>"
  have e2: "k_pagetable s2 = p" "k_link s2 = k_link s" "k_csr (data s2) = k_csr (data s)"
    using s2(9) [THEN arg_cong, of k_pagetable] s2(9) [THEN arg_cong, of k_link] s2(9) [THEN arg_cong, of k_csr] s1(5) [THEN arg_cong, of k_csr] lk
    by simp_all
  let ?s3 = "s2\<lparr>k_csr := w_stvec (l_kernelvec (k_link s)) (w_satp (MAKE_SATP p) (k_csr s2))\<rparr>"
  have run3: "seqM kvminithart trapinithart s2 = Ok () ?s3"
    using e2 by (simp add: kvminithart_run trapinithart_def exec_simps)
  have h3: "hart {} e c ?s3" using hart_csr [OF s2(2), of "w_stvec (l_kernelvec (k_link s)) (w_satp (MAKE_SATP p) (k_csr s2))"] s2(2) by (simp add: hart_def)
  have d3: "data ?s3 = (data s)\<lparr>k_mem := k_mem s2, k_freelist := k_freelist s2, k_pagetable := p, k_csr := ?csr\<rparr>"
  proof -
    have "data ?s3 = (data s2)\<lparr>k_csr := (k_csr (data s2))\<lparr>c_satp := MAKE_SATP p, c_stvec := l_kernelvec (k_link s)\<rparr>\<rparr>"
      by (simp add: data_def w_stvec_def w_satp_def cpu0_def)
    then show ?thesis unfolding s2(9) e2(3) by (simp add: s1(5))
  qed
  have "wp (seqM hello (seqM (print_all (test_lines1 @ test_lines2)) clear_screen)) Q ?s3"
  proof (rule wp_hello_again [OF h3])
    fix s'
    assume s': "hart {} e c s'" "k_uart s' = hello_sent (k_uart ?s3)" "data s' = data ?s3"
    have m: "k_link s' = k_link s2" "k_mem s' = k_mem s2" "k_freelist s' = k_freelist s2" using data_eqD(1,2,4) [OF s'(3)] by simp_all
    note v = vm_rep_data [OF s2(2) s'(1) _ m]
    show "Q () s'"
      by (rule Q [OF s'(1), of p ns ys]) (use xs s2 v s' d3 m in simp_all)
  qed
  then show ?thesis using s1(1) s2(1) run3 by (auto simp: wp_def main_memory_def seqM_def bindM_def split: res.splits)
qed

section \<open>Processes\<close>

lemma direct_map_stacks:
  assumes "link_wf lm" and "j < NPROC" and "vpn v = vpn (KSTACK j)"
  shows "direct_map (l_etext lm) v = 0"
proof -
  have "l_etext lm \<le> PHYSTOP" using assms(1) by (auto simp: link_wf_def)
  then have "unat (l_etext lm) div 4096 \<le> 557056" by (simp add: word_le_nat_alt unat_layout div_le_mono [of _ 2281701376, simplified])
  then have "vpn (l_etext lm) \<le> 557056" by (simp add: vpn_def)
  moreover have "67000000 < vpn v" using vpn_KSTACK [OF assms(2)] assms(2,3) by (simp add: NPROC_def)
  ultimately show ?thesis by (simp add: direct_map_def Let_def vpn_layout)
qed

lemma slot_step_rest: "slot_step i A s s' \<Longrightarrow> k_first s' = k_first s \<and> k_csr (data s') = k_csr (data s) \<and> k_ticks s' = k_ticks s"
  unfolding slot_step_def by (drule conjunct2, drule arg_cong [where f = "\<lambda>d. (k_first d, k_csr d, k_ticks d)"]) simp

definition boot_procs :: "proc list" where
  "boot_procs = stacked NPROC (replicate NPROC zero_proc)"

lemma boot_procs_nth: "i < NPROC \<Longrightarrow> boot_procs ! i = zero_proc\<lparr>p_kstack := KSTACK i\<rparr>" "length boot_procs = NPROC"
  by (simp_all add: boot_procs_def stacked_def zero_proc_def)

lemma ptable_boot:
  assumes "free_pages s xs" and "k_procs s = boot_procs"
  shows "ptable (set xs) s xs"
  using assms by (auto simp: ptable_def owned_def boot_procs_nth proc_ok_def proc_pages_def zero_proc_def)

lemma unused_SomeI:
  assumes "i < NPROC" and "p_state (k_procs s ! i) = UNUSED" and "\<And>j. j < i \<Longrightarrow> p_state (k_procs s ! j) \<noteq> UNUSED"
  shows "unused s = Some i"
  unfolding unused_def find_Some_iff using assms by (intro exI [of _ i]) auto

text \<open>The kernel's own address space, whose tables no process and no free page overlaps.\<close>

definition kernel_space :: "kstate \<Rightarrow> u64 list \<Rightarrow> u64 list \<Rightarrow> bool" where
  "kernel_space s st xs \<longleftrightarrow> pt_wf (k_link s) (k_mem s) 2 (k_pagetable s)
     \<and> translate s (k_pagetable s) = stack_map st (direct_map (l_etext (k_link s)))
     \<and> distinct st \<and> length st = NPROC \<and> (tables s (k_pagetable s) \<union> set st) \<inter> set xs = {} \<and> set st \<inter> tables s (k_pagetable s) = {}"

lemma kernel_space_step:
  assumes "kernel_space s st xs" and "slot_step i (set xs) s1 s'" and "set ys \<subseteq> set xs"
    and "k_link s1 = k_link s" "k_mem s1 = k_mem s" "k_pagetable s1 = k_pagetable s"
  shows "kernel_space s' st ys"
proof -
  note k = assms(1) [unfolded kernel_space_def] and d = slot_stepD [OF assms(2)]
  have "pt_set (k_mem s') 2 (k_pagetable s) = pt_set (k_mem s) 2 (k_pagetable s)
      \<and> pt_wf (k_link s) (k_mem s') 2 (k_pagetable s)
      \<and> (\<forall>va. pt_entry (k_mem s') 2 (k_pagetable s) va = pt_entry (k_mem s) 2 (k_pagetable s) va)"
    using k d(6) assms(5) by (intro pt_frame) (auto simp: tables_def)
  then show ?thesis using k d(1,3) assms(3-6) by (auto simp: kernel_space_def tables_def translate_def fun_eq_iff)
qed

lemma kernel_space_data:
  assumes "data s' = data s"
  shows "kernel_space s' st xs = kernel_space s st xs"
proof -
  note d = data_eqD(1,2,5) [OF assms]
  show ?thesis unfolding kernel_space_def tables_data [OF assms] d ..
qed

text \<open>The pages \<open>main\<close> leaves to the processes: all but the kernel's page tables and the stacks.\<close>

definition process_pool :: "u64 list \<Rightarrow> kstate \<Rightarrow> u64 set" where
  "process_pool st s = set (boot_pages (k_link s)) - (tables s (k_pagetable s) \<union> set st)"

lemma process_pool_step:
  assumes "kernel_space s st xs" and "slot_step i (set xs) s1 s'"
    and "k_link s1 = k_link s" "k_mem s1 = k_mem s" "k_pagetable s1 = k_pagetable s"
  shows "process_pool st s' = process_pool st s"
proof -
  note d = slot_stepD [OF assms(2)] and k = assms(1) [unfolded kernel_space_def]
  have "pt_set (k_mem s') 2 (k_pagetable s) = pt_set (k_mem s) 2 (k_pagetable s)"
    using pt_frame [of "k_link s" "k_mem s" 2 "k_pagetable s" "k_mem s'"] k d(6) assms(4) by (auto simp: tables_def)
  then show ?thesis using d(1,3) assms(3,5) by (simp add: process_pool_def tables_def)
qed

lemma process_pool_data: "data s' = data s \<Longrightarrow> process_pool st s' = process_pool st s"
  using tables_data(1) data_eqD(1,5) by (metis process_pool_def)

lemma process_pool_built:
  assumes "stacks_built n pt xs st ys s s'" and "k_pagetable s' = pt" and "set xs \<union> tables s pt = set (boot_pages (k_link s'))"
  shows "process_pool st s' = set ys"
  using assms vm_repD(3) [of s' pt ys] by (auto simp: stacks_built_def process_pool_def tables_def)

text \<open>The state \<open>main\<close> hands to the scheduler.\<close>

definition ready_to_run :: "bool \<Rightarrow> u64 list \<Rightarrow> u64 list \<Rightarrow> kstate \<Rightarrow> bool" where
  "ready_to_run e st ys s \<longleftrightarrow> hart {} e None s \<and> ptable (process_pool st s) s ys \<and> kernel_space s st ys
     \<and> (\<exists>tf pg tf' pg'. k_procs s = boot_procs
         [0 := started_proc (k_link s) 1 tf pg None (l_init_task (k_link s)) (boot_procs ! 0),
          1 := started_proc (k_link s) 2 tf' pg' None (l_simple_task (k_link s)) (boot_procs ! 1)])
     \<and> k_initproc s = Some 0 \<and> k_nextpid s = 3"

lemma wp_main_processes:
  assumes h: "hart {} e None s" and v: "vm_rep s p xs" and pt: "k_pagetable s = p" and tr: "translate s p = direct_map (l_etext (k_link s))"
    and pr: "k_procs s = replicate NPROC zero_proc" and pid: "k_nextpid s = 1" and pool: "NPROC + 14 \<le> length xs"
    and all: "set xs \<union> tables s p = set (boot_pages (k_link s))"
    and Q: "\<And>s' st ys. ready_to_run e st ys s' \<Longrightarrow> set ys \<subseteq> set xs \<Longrightarrow> length xs \<le> length ys + NPROC + 14 \<Longrightarrow>
      k_first s' = k_first s \<Longrightarrow> k_link s' = k_link s \<Longrightarrow> k_csr (data s') = k_csr (data s) \<Longrightarrow> k_pagetable s' = p \<Longrightarrow> Q () s'"
  shows "wp main_processes Q s"
proof -
  have lw: "link_wf (k_link s)" using vm_repD(4) [OF v] .
  obtain s1 st ys where s1: "procinit s = Ok () s1" "hart {} e None s1" "stacks_built NPROC p xs st ys s s1"
    by (rule wpE [OF wp_procinit [OF h _ _ _ v pt, where Q = "\<lambda>_ s'. hart {} e None s' \<and> (\<exists>st ys. stacks_built NPROC p xs st ys s s')"]])
       (use pr tr direct_map_stacks [OF lw] pool in \<open>auto simp: pte_valid_def\<close>)
  note b = s1(3) [unfolded stacks_built_def]
  have d1: "data s1 = (data s)\<lparr>k_mem := k_mem s1, k_freelist := k_freelist s1, k_procs := boot_procs\<rparr>"
    using b pr by (simp add: boot_procs_def)
  have f1: "k_link s1 = k_link s" "k_procs s1 = boot_procs" "k_pagetable s1 = p" "k_nextpid s1 = 1" "k_first s1 = k_first s" "k_csr (data s1) = k_csr (data s)"
    using d1 [THEN arg_cong, of k_link] d1 [THEN arg_cong, of k_procs] d1 [THEN arg_cong, of k_pagetable] d1 [THEN arg_cong, of k_nextpid]
      d1 [THEN arg_cong, of k_first] d1 [THEN arg_cong, of k_csr] pt pid by simp_all
  have free: "free_pages s1 ys" using b vm_rep_hart [OF s1(2)] by simp
  have k1: "kernel_space s1 st ys" using b f1 tr by (auto simp: kernel_space_def vm_rep_def tables_def)
  have len: "12 \<le> length ys" using b pool by (simp add: NPROC_def)
  let ?p0 = "\<lambda>tf pg. started_proc (k_link s) 1 tf pg None (l_init_task (k_link s)) (boot_procs ! 0)"
  let ?p1 = "\<lambda>tf pg. started_proc (k_link s) 2 tf pg None (l_simple_task (k_link s)) (boot_procs ! 1)"
  have u1: "unused s1 = Some 0" by (rule unused_SomeI) (simp_all add: f1 boot_procs_nth NPROC_def zero_proc_def)
  obtain s2 tf pg zs where s2: "userinit s1 = Ok () s2" "hart {} e None s2" "ptable (set ys) s2 zs" "set zs \<subseteq> set ys" "length ys \<le> length zs + 6"
      "k_procs s2 = boot_procs[0 := ?p0 tf pg]" "slot_step 0 (set ys) (s1\<lparr>k_nextpid := 2, k_initproc := Some 0\<rparr>) s2"
    by (rule wpE [OF wp_userinit [OF s1(2) _ _ ptable_boot [OF free f1(2)] u1, where Q = "\<lambda>_ s'. \<exists>tf pg zs. hart {} e None s' \<and> ptable (set ys) s' zs \<and> set zs \<subseteq> set ys \<and>
        length ys \<le> length zs + 6 \<and> k_procs s' = boot_procs[0 := ?p0 tf pg] \<and> slot_step 0 (set ys) (s1\<lparr>k_nextpid := 2, k_initproc := Some 0\<rparr>) s'"]])
       (use len f1 in \<open>auto simp: outside_def\<close>)
  note f2 = slot_stepD(1,3,4,5) [OF s2(7)]
  have u2: "unused s2 = Some 1"
    by (rule unused_SomeI) (simp_all add: s2(6) boot_procs_nth NPROC_def zero_proc_def started_proc_def Let_def nth_list_update)
  let ?d = "\<lambda>s'. hart {} e None s' \<and> (\<exists>tf' pg' ws. ptable (set ys) s' ws \<and> set ws \<subseteq> set zs \<and> length zs \<le> length ws + 6 \<and>
     k_procs s' = boot_procs[0 := ?p0 tf pg, 1 := ?p1 tf' pg'] \<and> slot_step 1 (set zs) (s2\<lparr>k_nextpid := 3\<rparr>) s')"
  obtain s3 tf' pg' ws where s3: "create_process (l_simple_task (k_link s)) s2 = Ok 2 s3" "hart {} e None s3" "ptable (set ys) s3 ws" "set ws \<subseteq> set zs"
     "length zs \<le> length ws + 6" "k_procs s3 = boot_procs[0 := ?p0 tf pg, 1 := ?p1 tf' pg']" "slot_step 1 (set zs) (s2\<lparr>k_nextpid := 3\<rparr>) s3"
    by (rule wpE [OF wp_create_process [OF s2(2) _ _ _ s2(3) u2, where entry = "l_simple_task (k_link s)" and Q = "\<lambda>r s'. r = 2 \<and> ?d s'"]])
       (use len s2(5,6) f2 f1(1) in \<open>auto simp: outside_def\<close>)
  note f3 = slot_stepD(1,3,4,5) [OF s3(7)]
  let ?s4 = "on_cpu0 (\<lambda>c. c\<lparr>cpu_proc := None\<rparr>) s3"
  have h4: "hart {} e None ?s4" using hart_on_cpu0 [OF s3(2), of "\<lambda>c. c\<lparr>cpu_proc := None\<rparr>" e] by simp
  have d4: "data ?s4 = data s3" by simp
  note f4 = data_eqD [OF d4]
  have run: "main_processes s = Ok () ?s4"
    using s1(1) s2(1) s3(1) f2 f1 hartD(1) [OF s3(2)]
    by (simp add: main_processes_def scheduler_start_def exec_simps cpu_wf_one_cpu)
  have k2: "kernel_space s2 st zs" by (rule kernel_space_step [OF k1 s2(7,4)]) simp_all
  have k3: "kernel_space ?s4 st ws" using kernel_space_step [OF k2 s3(7,4)] kernel_space_data [OF d4] by simp
  have "process_pool st s3 = process_pool st s2" "process_pool st s2 = process_pool st s1"
    by (rule process_pool_step [OF k2 s3(7)] process_pool_step [OF k1 s2(7)]; simp)+
  then have "process_pool st ?s4 = set ys"
    using process_pool_data [OF d4] process_pool_built [OF s1(3) f1(3)] f1(1) all by simp
  then have ready: "ready_to_run e st ws ?s4"
    using h4 ptable_data [OF d4] s3(3,6) k3 f4 f3 f2 f1 unfolding ready_to_run_def by auto
  have left: "length xs \<le> length ws + NPROC + 14" using b s2(5) s3(5) by (simp add: NPROC_def)
  have "Q () ?s4"
    by (rule Q [OF ready _ left]) (use b s2(4) s3(4) f4 f3 f2 f1 slot_step_rest [OF s2(7)] slot_step_rest [OF s3(7)] in auto)
  with run show ?thesis by (rule wpI)
qed

section \<open>The whole of main\<close>

definition fresh_boot :: "bool \<Rightarrow> kstate \<Rightarrow> bool" where
  "fresh_boot e s \<longleftrightarrow> hart {} e None s \<and> link_wf (k_link s) \<and> k_freelist s = 0
     \<and> k_procs s = replicate NPROC zero_proc \<and> k_nextpid s = 1"

lemma wp_main:
  assumes "fresh_boot e s" and pool: "NPROC + 82 \<le> length (boot_pages (k_link s))"
    and Q: "\<And>s' st ys. ready_to_run e st ys s' \<Longrightarrow> set ys \<subseteq> set (boot_pages (k_link s)) \<Longrightarrow>
      length (boot_pages (k_link s)) \<le> length ys + NPROC + 82 \<Longrightarrow> k_first s' = k_first s \<Longrightarrow> k_link s' = k_link s \<Longrightarrow>
      c_satp (k_csr s') = MAKE_SATP (k_pagetable s') \<Longrightarrow> c_stvec (k_csr s') = l_kernelvec (k_link s) \<Longrightarrow> Q () s'"
  shows "wp main Q s"
  unfolding main_def wp_seqM
proof (rule wp_main_console [where e = e and c = None], goal_cases)
  case 1
  then show ?case using assms(1) by (simp add: fresh_boot_def)
next
  case (2 s1)
  note b = assms(1) [unfolded fresh_boot_def]
  have f1: "k_link s1 = k_link s" "k_freelist s1 = 0" "k_procs s1 = replicate NPROC zero_proc" "k_nextpid s1 = 1" "k_first s1 = k_first s"
    using 2(3) [THEN arg_cong, of k_link] 2(3) [THEN arg_cong, of k_freelist] 2(3) [THEN arg_cong, of k_procs] 2(3) [THEN arg_cong, of k_nextpid]
      2(3) [THEN arg_cong, of k_first] b by simp_all
  show ?case
  proof (rule wp_main_memory [OF 2(1)], goal_cases)
    case (4 s2 p ns ys)
    have f2: "k_link s2 = k_link s" "k_procs s2 = replicate NPROC zero_proc" "k_nextpid s2 = 1" "k_pagetable s2 = p" "k_first s2 = k_first s"
        "k_csr (data s2) = (k_csr (data s1))\<lparr>c_satp := MAKE_SATP p, c_stvec := l_kernelvec (k_link s)\<rparr>"
      using 4(8) [THEN arg_cong, of k_link] 4(8) [THEN arg_cong, of k_procs] 4(8) [THEN arg_cong, of k_nextpid] 4(8) [THEN arg_cong, of k_pagetable]
        4(8) [THEN arg_cong, of k_first] 4(8) [THEN arg_cong, of k_csr] f1 by simp_all
    show ?case
    proof (rule wp_main_processes [OF 4(1,4) f2(4)], goal_cases)
      case (6 s3 st zs)
      have "k_csr (data s3) = (k_csr (data s1))\<lparr>c_satp := MAKE_SATP p, c_stvec := l_kernelvec (k_link s)\<rparr>" using 6(6) f2(6) by simp
      from this [THEN arg_cong, of c_satp] this [THEN arg_cong, of c_stvec]
      have "c_satp (k_csr s3) = MAKE_SATP p" "c_stvec (k_csr s3) = l_kernelvec (k_link s)" by simp_all
      then show ?case using 4(2,3) 6 f1 f2 by (intro Q [of st zs]) auto
    qed (use 4 f1 f2 pool in \<open>auto simp: NPROC_def\<close>)
  qed (use b f1 pool in \<open>auto simp: NPROC_def\<close>)
qed

section \<open>Properties\<close>

text \<open>C34. \<open>start\<close> leaves for \<open>main\<close> in supervisor mode with paging off, the timer and external interrupts
  and all exceptions delegated, physical memory open to it, the timer armed and enabled, and its
  registers of static data and memory untouched.\<close>

theorem start_enters_main:
  "\<exists>s'. start s = Ok (1, l_main (k_link s)) s' \<and> c_satp (k_csr s') = 0 \<and> c_medeleg (k_csr s') = 0xffff
     \<and> c_mideleg (k_csr s') = push_bit 5 1 OR push_bit 9 1 \<and> c_pmpaddr0 (k_csr s') = 0x3fffffffffffff \<and> c_pmpcfg0 (k_csr s') = 0xf
     \<and> bit (r_sie (k_csr s')) 5 \<and> intr_get (k_csr s') \<and> c_stimecmp (k_csr s') = c_time (k_csr s) + 10000
     \<and> drop_bit 11 (c_mstatus (k_csr s')) AND 3 = 0 \<and> k_mem s' = k_mem s \<and> k_procs s' = k_procs s \<and> lock_free s' TicksLock"
proof -
  let ?c = "start_csrs (l_main (k_link s)) (k_csr s)"
  have "intr_get ?c" "bit (r_sie ?c) 5"
    by (simp_all add: start_csrs_def mret_def Let_def intr_get_bit start_mstatus_def bit_simps bit_SIE bit_MPP r_sie_def)
  moreover have "drop_bit 11 (c_mstatus ?c) AND 3 = 0"
  proof -
    have three: "(3 :: u64) = mask 2" by (simp add: mask_eq_exp_minus_1)
    show ?thesis unfolding three
      by (rule bit_word_eqI) (auto simp: start_csrs_def mret_def Let_def bit_simps bit_MPP less_2_cases_iff)
  qed
  ultimately show ?thesis
    by (simp add: start_run) (simp add: start_csrs_def mret_def Let_def lock_free_def)
qed

text \<open>C5. \<open>main\<close> returns from every initialisation and reaches the scheduler with paging on, on a kernel
  page table that maps the kernel one to one and the stack of every slot to a page of its own with an
  unmapped guard page above, the trap vector installed, and exactly two processes, both runnable: the
  init process with pid 1 and the test process with pid 2.\<close>

theorem main_sets_up:
  assumes "fresh_boot e s" and "NPROC + 82 \<le> length (boot_pages (k_link s))"
  shows "\<exists>s' st ys. main s = Ok () s' \<and> hart {} e None s' \<and> ptable (process_pool st s') s' ys
     \<and> c_satp (k_csr s') = MAKE_SATP (k_pagetable s') \<and> c_stvec (k_csr s') = l_kernelvec (k_link s)
     \<and> translate s' (k_pagetable s') = stack_map st (direct_map (l_etext (k_link s))) \<and> distinct st \<and> length st = NPROC
     \<and> k_initproc s' = Some 0 \<and> p_pid (k_procs s' ! 0) = 1 \<and> p_pid (k_procs s' ! 1) = 2
     \<and> (\<forall>i < NPROC. p_state (k_procs s' ! i) = (if i \<le> 1 then RUNNABLE else UNUSED) \<and> p_kstack (k_procs s' ! i) = KSTACK i)"
proof -
  obtain s' st ys where s': "main s = Ok () s'" "ready_to_run e st ys s'" "k_link s' = k_link s"
      "c_satp (k_csr s') = MAKE_SATP (k_pagetable s')" "c_stvec (k_csr s') = l_kernelvec (k_link s)"
    by (rule wpE [OF wp_main [OF assms, where Q = "\<lambda>_ s'. \<exists>st ys. ready_to_run e st ys s' \<and> k_link s' = k_link s \<and>
        c_satp (k_csr s') = MAKE_SATP (k_pagetable s') \<and> c_stvec (k_csr s') = l_kernelvec (k_link s)"]]) auto
  then obtain tf pg tf' pg' where procs: "k_procs s' = boot_procs
      [0 := started_proc (k_link s) 1 tf pg None (l_init_task (k_link s)) (boot_procs ! 0),
       1 := started_proc (k_link s) 2 tf' pg' None (l_simple_task (k_link s)) (boot_procs ! 1)]"
    by (auto simp: ready_to_run_def)
  have two: "0 < NPROC" "1 < NPROC" by (simp_all add: NPROC_def)
  have "p_state (k_procs s' ! i) = (if i \<le> 1 then RUNNABLE else UNUSED) \<and> p_kstack (k_procs s' ! i) = KSTACK i" if "i < NPROC" for i
    using that two boot_procs_nth le_Suc_eq [of i 0] by (auto simp: procs nth_list_update started_proc_def fresh_proc_def Let_def zero_proc_def)
  moreover have "p_pid (k_procs s' ! 0) = 1" "p_pid (k_procs s' ! 1) = 2"
    using two boot_procs_nth by (simp_all add: procs started_proc_def fresh_proc_def Let_def)
  ultimately show ?thesis
    using s' unfolding ready_to_run_def kernel_space_def by (intro exI [of _ s'] exI [of _ st] exI [of _ ys]) auto
qed

text \<open>A concrete machine: 256 pages of memory above the kernel.\<close>

lemma k_link_boot [simp]: "k_link (boot_state lm) = lm"
  by (simp add: boot_state_def)

lemma fresh_boot_pool: "fresh_boot False (boot_state pool_link)" "length (boot_pages pool_link) = 256"
proof -
  have "link_wf pool_link" by (simp add: link_wf_def pool_link_def demo_link_def layout_defs pg_aligned_unat)
  moreover have "idle_state None False pool_link = boot_state pool_link"
    by (simp add: idle_state_def boot_state_def NCPU_def zero_cpu_def)
  ultimately show "fresh_boot False (boot_state pool_link)"
    using hart_idle [of False None pool_link] by (simp add: fresh_boot_def) (simp add: boot_state_def)
  show "length (boot_pages pool_link) = 256"
    by (simp add: boot_pages_def pool_link_def page_range_def layout_defs PGROUNDUP_def PGSIZE_def)
qed

theorem main_sets_up_witness:
  "\<exists>s'. main (boot_state pool_link) = Ok () s' \<and> p_state (k_procs s' ! 0) = RUNNABLE \<and> p_pid (k_procs s' ! 1) = 2"
proof -
  have "(0 :: nat) < NPROC" by (simp add: NPROC_def)
  then show ?thesis using main_sets_up [OF fresh_boot_pool(1)] fresh_boot_pool(2) by (fastforce simp: NPROC_def)
qed

end
