(* ===== verification/Trampoline.thy ===== *)
theory Trampoline
  imports Boot
begin

text \<open>
  \<open>kernel/trampoline.S\<close> and \<^verbatim>\<open>struct trapframe\<close> of \<open>include/proc.h\<close>: how a trap from user mode would save the
  registers and reach the kernel, and how it would return. No code of the kernel enters it yet.

  The two routines are lists of instructions, one per line of the source, and a small machine executes
  them: the 31 general registers, \<open>sscratch\<close>, the control registers and memory. A load or store goes
  through the page table in \<open>satp\<close> (a page must be valid, have the permission and not be a user page),
  and so does the fetch of every instruction, from the page \<open>TRAMPOLINE\<close>.
\<close>

section \<open>Definitions\<close>

datatype reg = RA | SP | GP | TP | T0 | T1 | T2 | T3 | T4 | T5 | T6
  | S0 | S1 | S2 | S3 | S4 | S5 | S6 | S7 | S8 | S9 | S10 | S11
  | A0 | A1 | A2 | A3 | A4 | A5 | A6 | A7

record trapframe =
  tf_kernel_satp :: u64
  tf_kernel_sp :: u64
  tf_kernel_trap :: u64
  tf_epc :: u64
  tf_kernel_hartid :: u64
  tf_ra :: u64
  tf_sp :: u64
  tf_gp :: u64
  tf_tp :: u64
  tf_t0 :: u64
  tf_t1 :: u64
  tf_t2 :: u64
  tf_s0 :: u64
  tf_s1 :: u64
  tf_a0 :: u64
  tf_a1 :: u64
  tf_a2 :: u64
  tf_a3 :: u64
  tf_a4 :: u64
  tf_a5 :: u64
  tf_a6 :: u64
  tf_a7 :: u64
  tf_s2 :: u64
  tf_s3 :: u64
  tf_s4 :: u64
  tf_s5 :: u64
  tf_s6 :: u64
  tf_s7 :: u64
  tf_s8 :: u64
  tf_s9 :: u64
  tf_s10 :: u64
  tf_s11 :: u64
  tf_t3 :: u64
  tf_t4 :: u64
  tf_t5 :: u64
  tf_t6 :: u64

text \<open>The structure at an address of memory: 36 words without padding.\<close>

definition tf_word :: "memory \<Rightarrow> u64 \<Rightarrow> nat \<Rightarrow> u64" where
  "tf_word m p i = load64 m (slot p (of_nat i))"

definition trapframe_at :: "memory \<Rightarrow> u64 \<Rightarrow> trapframe" where
  "trapframe_at m p = \<lparr>tf_kernel_satp = tf_word m p 0, tf_kernel_sp = tf_word m p 1, tf_kernel_trap = tf_word m p 2, tf_epc = tf_word m p 3,
     tf_kernel_hartid = tf_word m p 4, tf_ra = tf_word m p 5, tf_sp = tf_word m p 6, tf_gp = tf_word m p 7, tf_tp = tf_word m p 8,
     tf_t0 = tf_word m p 9, tf_t1 = tf_word m p 10, tf_t2 = tf_word m p 11, tf_s0 = tf_word m p 12, tf_s1 = tf_word m p 13,
     tf_a0 = tf_word m p 14, tf_a1 = tf_word m p 15, tf_a2 = tf_word m p 16, tf_a3 = tf_word m p 17, tf_a4 = tf_word m p 18,
     tf_a5 = tf_word m p 19, tf_a6 = tf_word m p 20, tf_a7 = tf_word m p 21, tf_s2 = tf_word m p 22, tf_s3 = tf_word m p 23,
     tf_s4 = tf_word m p 24, tf_s5 = tf_word m p 25, tf_s6 = tf_word m p 26, tf_s7 = tf_word m p 27, tf_s8 = tf_word m p 28,
     tf_s9 = tf_word m p 29, tf_s10 = tf_word m p 30, tf_s11 = tf_word m p 31, tf_t3 = tf_word m p 32, tf_t4 = tf_word m p 33,
     tf_t5 = tf_word m p 34, tf_t6 = tf_word m p 35\<rparr>"

datatype tinstr = Sd reg nat reg | Ld reg nat reg | Li reg u64 | CsrwSscratch reg | CsrrSscratch reg
  | SfenceVma | CsrwSatp reg | Jalr reg | Sret

record umach =
  u_reg :: "reg \<Rightarrow> u64"
  u_mem :: memory
  u_csr :: csrs
  u_sscratch :: u64
  u_pc :: u64

text \<open>The physical address behind a virtual one for an access that needs \<open>perm\<close>, if it is allowed in
  supervisor mode.\<close>

definition phys :: "umach \<Rightarrow> u64 \<Rightarrow> u64 \<Rightarrow> u64 option" where
  "phys m perm va =
     (if c_satp (u_csr m) = 0 then Some va else
      let e = pt_entry (u_mem m) 2 (satp_root (c_satp (u_csr m))) va in
      if pte_valid e \<and> e AND perm \<noteq> 0 \<and> e AND PTE_U = 0 then Some (PTE2PA e + (va AND 0xFFF)) else None)"

text \<open>\<open>link\<close> is the address of the instruction after \<open>jalr\<close>, the label \<open>userret\<close>.\<close>

fun texec :: "u64 \<Rightarrow> tinstr \<Rightarrow> umach \<Rightarrow> (umach, unit) res" where
  "texec link (Sd r off b) m = (case phys m PTE_W (u_reg m b + of_nat off) of None \<Rightarrow> Err Fault m
     | Some a \<Rightarrow> Ok () (m\<lparr>u_mem := store64 (u_mem m) a (u_reg m r)\<rparr>))"
| "texec link (Ld r off b) m = (case phys m PTE_R (u_reg m b + of_nat off) of None \<Rightarrow> Err Fault m
     | Some a \<Rightarrow> Ok () (m\<lparr>u_reg := (u_reg m)(r := load64 (u_mem m) a)\<rparr>))"
| "texec link (Li r v) m = Ok () (m\<lparr>u_reg := (u_reg m)(r := v)\<rparr>)"
| "texec link (CsrwSscratch r) m = Ok () (m\<lparr>u_sscratch := u_reg m r\<rparr>)"
| "texec link (CsrrSscratch r) m = Ok () (m\<lparr>u_reg := (u_reg m)(r := u_sscratch m)\<rparr>)"
| "texec link SfenceVma m = Ok () m"
| "texec link (CsrwSatp r) m = Ok () (m\<lparr>u_csr := w_satp (u_reg m r) (u_csr m)\<rparr>)"
| "texec link (Jalr r) m = Ok () (m\<lparr>u_reg := (u_reg m)(RA := link), u_pc := u_reg m r\<rparr>)"
| "texec link Sret m = Ok () (m\<lparr>u_csr := fst (sret (u_csr m)), u_pc := snd (sret (u_csr m))\<rparr>)"

fun trun :: "u64 \<Rightarrow> tinstr list \<Rightarrow> umach \<Rightarrow> (umach, unit) res" where
  "trun link [] m = Ok () m"
| "trun link (i # is) m =
     (if phys m PTE_X TRAMPOLINE = None then Err Fault m
      else case texec link i m of Ok _ m' \<Rightarrow> trun link is m' | Err e m' \<Rightarrow> Err e m')"

definition TRAMP_TRAPFRAME :: u64 where "TRAMP_TRAPFRAME = 0x3fffffe000"

definition saved_regs :: "(reg \<times> nat) list" where
  "saved_regs = [(RA, 40), (SP, 48), (GP, 56), (TP, 64), (T0, 72), (T1, 80), (T2, 88), (S0, 96), (S1, 104),
     (A1, 120), (A2, 128), (A3, 136), (A4, 144), (A5, 152), (A6, 160), (A7, 168),
     (S2, 176), (S3, 184), (S4, 192), (S5, 200), (S6, 208), (S7, 216), (S8, 224), (S9, 232), (S10, 240), (S11, 248),
     (T3, 256), (T4, 264), (T5, 272), (T6, 280)]"

definition uservec :: "tinstr list" where
  "uservec = [CsrwSscratch A0, Li A0 TRAMP_TRAPFRAME] @ map (\<lambda>(r, off). Sd r off A0) saved_regs @
     [CsrrSscratch T0, Sd T0 112 A0, Ld SP 8 A0, Ld TP 32 A0, Ld T0 16 A0, Ld T1 0 A0,
      SfenceVma, CsrwSatp T1, SfenceVma, Jalr T0]"

definition userret :: "tinstr list" where
  "userret = [SfenceVma, CsrwSatp A0, SfenceVma, Li A0 TRAMP_TRAPFRAME] @ map (\<lambda>(r, off). Ld r off A0) saved_regs @
     [Ld A0 112 A0, Sret]"

section \<open>One page\<close>

text \<open>The assembler's constant is the address of \<open>memlayout.h\<close>.\<close>

lemma TRAMP_TRAPFRAME: "TRAMP_TRAPFRAME = TRAPFRAME"
  by (simp add: TRAMP_TRAPFRAME_def TRAPFRAME_def TRAMPOLINE_def MAXVA_def PGSIZE_def)

text \<open>An address space in which the trampoline runs and finds its frame in the page \<open>p\<close>.\<close>

definition executable :: "linkmap \<Rightarrow> memory \<Rightarrow> u64 \<Rightarrow> u64 \<Rightarrow> bool" where
  "executable lm m satp p \<longleftrightarrow> satp \<noteq> 0 \<and> pt_wf lm m 2 (satp_root satp) \<and> p \<notin> pt_set m 2 (satp_root satp)
     \<and> (let e = pt_entry m 2 (satp_root satp) TRAMPOLINE in pte_valid e \<and> e AND PTE_X \<noteq> 0 \<and> e AND PTE_U = 0)"

definition frame_mapped :: "memory \<Rightarrow> u64 \<Rightarrow> u64 \<Rightarrow> bool" where
  "frame_mapped m satp p \<longleftrightarrow> (let e = pt_entry m 2 (satp_root satp) TRAPFRAME in
     pte_valid e \<and> e AND PTE_R \<noteq> 0 \<and> e AND PTE_W \<noteq> 0 \<and> e AND PTE_U = 0 \<and> PTE2PA e = p)"

lemma PTE2PA_aligned: "pg_aligned (PTE2PA e)"
  by (simp add: pg_aligned_iff PGROUNDDOWN_bits PTE2PA_def) (rule bit_word_eqI, auto simp: bit_simps)

lemma frame_addr:
  assumes "off < 4096"
  shows "vpn (TRAPFRAME + of_nat off) = vpn TRAPFRAME" "(TRAPFRAME + of_nat off) AND 0xFFF = of_nat off"
proof -
  have f: "TRAPFRAME = 274877898752" by (simp add: TRAPFRAME_def TRAMPOLINE_def MAXVA_def PGSIZE_def)
  have u: "unat (274877898752 + of_nat off :: u64) = 274877898752 + off"
    using assms by (simp add: unat_word_ariths unat_of_nat)
  show "vpn (TRAPFRAME + of_nat off) = vpn TRAPFRAME" using assms u unfolding f vpn_def by simp
  have m: "(0xFFF :: u64) = mask 12" by (simp add: mask_eq_exp_minus_1)
  have "unat ((274877898752 + of_nat off :: u64) AND mask 12) = off"
    unfolding take_bit_eq_mask [symmetric] unsigned_take_bit_eq u using assms mod_mult_self2 [of off 4096 67108862]
    by (simp add: take_bit_eq_mod add.commute)
  then show "(TRAPFRAME + of_nat off) AND 0xFFF = of_nat off" unfolding f m by (simp add: word_unat_eq_iff unat_of_nat) (use assms in simp)
qed

lemma pt_entry_vpn: "same_vpn l va va' \<Longrightarrow> pt_entry m l pt va = pt_entry m l pt va'"
proof (induction l arbitrary: pt)
  case 0
  then show ?case by (simp add: same_vpn_def)
next
  case (Suc l)
  then have "same_vpn l va va'" "VPN_MASK va (Suc l) = VPN_MASK va' (Suc l)" by (auto simp: same_vpn_def)
  then show ?case using Suc.IH by simp
qed

lemma phys_frame:
  assumes "c_satp (u_csr m) \<noteq> 0" and "frame_mapped (u_mem m) (c_satp (u_csr m)) p" and "off < 4096"
  shows "phys m PTE_W (TRAPFRAME + of_nat off) = Some (p + of_nat off)" "phys m PTE_R (TRAPFRAME + of_nat off) = Some (p + of_nat off)"
proof -
  have "pt_entry (u_mem m) 2 pt (TRAPFRAME + of_nat off) = pt_entry (u_mem m) 2 pt TRAPFRAME" for pt
    by (rule pt_entry_vpn) (simp add: same_vpn_iff frame_addr [OF assms(3)])
  then show "phys m PTE_W (TRAPFRAME + of_nat off) = Some (p + of_nat off)" "phys m PTE_R (TRAPFRAME + of_nat off) = Some (p + of_nat off)"
    using assms(1,2) frame_addr(2) [OF assms(3)] by (simp_all add: phys_def frame_mapped_def Let_def)
qed

lemma phys_fetch: "executable lm (u_mem m) (c_satp (u_csr m)) p \<Longrightarrow> phys m PTE_X TRAMPOLINE = None \<longleftrightarrow> False"
  by (simp add: executable_def phys_def Let_def)

text \<open>Writing to the frame leaves both address spaces as they are.\<close>

lemma executable_frame:
  assumes "executable lm m satp p" and "\<And>q. q \<noteq> p \<Longrightarrow> same_page m m' q"
  shows "executable lm m' satp p" "frame_mapped m' satp q = frame_mapped m satp q"
proof -
  have "pt_set m' 2 (satp_root satp) = pt_set m 2 (satp_root satp) \<and> pt_wf lm m' 2 (satp_root satp)
      \<and> (\<forall>va. pt_entry m' 2 (satp_root satp) va = pt_entry m 2 (satp_root satp) va)"
  proof (rule pt_frame)
    show "same_page m m' q" if "q \<in> pt_set m 2 (satp_root satp)" for q using that assms by (cases "q = p") (auto simp: executable_def)
  qed (use assms(1) in \<open>simp add: executable_def\<close>)
  then show "executable lm m' satp p" "frame_mapped m' satp q = frame_mapped m satp q"
    using assms(1) by (simp_all add: executable_def frame_mapped_def)
qed

section \<open>Runs of stores and of loads\<close>

fun put_all :: "memory \<Rightarrow> u64 \<Rightarrow> (nat \<times> u64) list \<Rightarrow> memory" where
  "put_all m p [] = m"
| "put_all m p ((off, v) # ws) = put_all (store64 m (p + of_nat off) v) p ws"

definition word_offset :: "nat \<Rightarrow> bool" where
  "word_offset off \<longleftrightarrow> off mod 8 = 0 \<and> off < 4096"

lemma word_offset_slot: "word_offset off \<Longrightarrow> p + of_nat off = slot p (of_nat (off div 8)) \<and> off div 8 < 512"
  by (auto simp: word_offset_def slot_def elim!: dvdE)

lemma unat_index: "i < 512 \<Longrightarrow> unat (of_nat i :: u64) = i"
  by (simp add: unat_of_nat)

lemma put_all_other:
  assumes "pg_aligned p" and "q \<noteq> p" and "\<forall>(off, v) \<in> set ws. word_offset off"
  shows "same_page m (put_all m p ws) q"
  using assms(3)
proof (induction ws arbitrary: m)
  case (Cons w ws)
  obtain off v where w: "w = (off, v)" by (cases w)
  have "p + of_nat off = slot p (of_nat (off div 8))" "off div 8 < 512" using Cons.prems w word_offset_slot [of off p] by auto
  then have "same_page m (store64 m (p + of_nat off) v) q"
    using same_page_sym [OF same_page_store [OF assms(1) _ assms(2)]] unat_index [of "off div 8"] by simp
  then show ?case using Cons w by (auto intro: same_page_trans)
qed simp

lemma put_all_word:
  assumes "pg_aligned p" and "\<forall>(off, v) \<in> set ws. word_offset off" and "distinct (map fst ws)" and "i < 512"
  shows "tf_word (put_all m p ws) p i = (case map_of ws (8 * i) of Some v \<Rightarrow> v | None \<Rightarrow> tf_word m p i)"
  using assms(2,3)
proof (induction ws arbitrary: m)
  case (Cons w ws)
  obtain off v where w: "w = (off, v)" by (cases w)
  have off: "p + of_nat off = slot p (of_nat (off div 8))" "off div 8 < 512" "off = 8 * (off div 8)"
    using Cons.prems w word_offset_slot [of off p] by (auto simp: word_offset_def)
  have "tf_word (store64 m (p + of_nat off) v) p i = (if off = 8 * i then v else tf_word m p i)"
  proof (cases "off = 8 * i")
    case False
    then have "(of_nat (off div 8) :: u64) \<noteq> of_nat i" using off(2,3) assms(4) unat_index [of i] unat_index [of "off div 8"] by auto
    then show ?thesis using False off(1,2) assms(1,4) load64_store64_other [of p "of_nat (off div 8)" "of_nat i" m v] unat_index
      by (simp add: tf_word_def)
  qed (use off(1) in \<open>simp add: tf_word_def\<close>)
  moreover have "map_of ws (8 * i) = None" if "off = 8 * i" using that Cons.prems(2) w by (simp add: map_of_eq_None_iff)
  ultimately show ?case using Cons w by (auto split: option.split)
qed simp

lemma run_step:
  "executable lm (u_mem m) (c_satp (u_csr m)) p \<Longrightarrow> texec link i m = Ok () m' \<Longrightarrow> trun link (i # is) m = trun link is m'"
  by (simp add: phys_fetch)

lemma run_saves:
  assumes "executable lm (u_mem m) (c_satp (u_csr m)) p" and "frame_mapped (u_mem m) (c_satp (u_csr m)) p" and "u_reg m A0 = TRAPFRAME"
    and "\<forall>(r, off) \<in> set rs. word_offset off"
  shows "trun link (map (\<lambda>(r, off). Sd r off A0) rs @ is) m
    = trun link is (m\<lparr>u_mem := put_all (u_mem m) p (map (\<lambda>(r, off). (off, u_reg m r)) rs)\<rparr>)"
  using assms
proof (induction rs arbitrary: m)
  case (Cons x rs)
  obtain r off where x: "x = (r, off)" by (cases x)
  let ?m = "m\<lparr>u_mem := store64 (u_mem m) (p + of_nat off) (u_reg m r)\<rparr>"
  have off: "word_offset off" "off < 4096" using Cons.prems(4) x by (auto simp: word_offset_def)
  have al: "pg_aligned p" using Cons.prems(2) PTE2PA_aligned by (auto simp: frame_mapped_def Let_def)
  have "same_page (u_mem m) (u_mem ?m) q" if "q \<noteq> p" for q
    using put_all_other [OF al that, of "[(off, u_reg m r)]"] off by simp
  note sf = executable_frame [OF Cons.prems(1) this]
  have "texec link (Sd r off A0) m = Ok () ?m"
    using phys_frame(1) [OF _ Cons.prems(2) off(2)] Cons.prems(1,3) by (simp add: executable_def)
  moreover have "trun link (map (\<lambda>(r, off). Sd r off A0) rs @ is) ?m
      = trun link is (?m\<lparr>u_mem := put_all (u_mem ?m) p (map (\<lambda>(r, off). (off, u_reg ?m r)) rs)\<rparr>)"
    using sf Cons.prems by (intro Cons.IH) auto
  ultimately show ?case using run_step [OF Cons.prems(1)] x by (simp del: texec.simps trun.simps)
qed simp

lemma run_load:
  assumes "executable lm (u_mem m) (c_satp (u_csr m)) p" and "frame_mapped (u_mem m) (c_satp (u_csr m)) p" and "u_reg m A0 = TRAPFRAME" and "word_offset off"
  shows "trun link (Ld r off A0 # is) m = trun link is (m\<lparr>u_reg := (u_reg m)(r := tf_word (u_mem m) p (off div 8))\<rparr>)"
proof -
  have "texec link (Ld r off A0) m = Ok () (m\<lparr>u_reg := (u_reg m)(r := load64 (u_mem m) (p + of_nat off))\<rparr>)"
    using phys_frame(2) [OF _ assms(2), of off] assms(1,3,4) by (simp add: executable_def word_offset_def)
  then show ?thesis using run_step [OF assms(1)] word_offset_slot [OF assms(4), of p] by (simp add: tf_word_def del: texec.simps trun.simps)
qed

lemma run_loads:
  assumes "executable lm (u_mem m) (c_satp (u_csr m)) p" and "frame_mapped (u_mem m) (c_satp (u_csr m)) p" and "u_reg m A0 = TRAPFRAME"
    and "\<forall>(r, off) \<in> set rs. word_offset off \<and> r \<noteq> A0" and "distinct (map fst rs)"
  shows "trun link (map (\<lambda>(r, off). Ld r off A0) rs @ is) m
    = trun link is (m\<lparr>u_reg := (\<lambda>r. case map_of rs r of Some off \<Rightarrow> tf_word (u_mem m) p (off div 8) | None \<Rightarrow> u_reg m r)\<rparr>)"
  using assms
proof (induction rs arbitrary: m)
  case (Cons x rs)
  obtain r off where x: "x = (r, off)" by (cases x)
  let ?m = "m\<lparr>u_reg := (u_reg m)(r := tf_word (u_mem m) p (off div 8))\<rparr>"
  have "trun link (map (\<lambda>(r, off). Ld r off A0) (x # rs) @ is) m = trun link (map (\<lambda>(r, off). Ld r off A0) rs @ is) ?m"
    using run_load [OF Cons.prems(1-3)] Cons.prems(4) x by simp
  also have "\<dots> = trun link is (?m\<lparr>u_reg := (\<lambda>r. case map_of rs r of Some off \<Rightarrow> tf_word (u_mem ?m) p (off div 8) | None \<Rightarrow> u_reg ?m r)\<rparr>)"
    by (rule Cons.IH) (use Cons.prems x in auto)
  also have "map_of rs r = None" using Cons.prems(5) x by (simp add: map_of_eq_None_iff)
  then have "?m\<lparr>u_reg := (\<lambda>r. case map_of rs r of Some off \<Rightarrow> tf_word (u_mem ?m) p (off div 8) | None \<Rightarrow> u_reg ?m r)\<rparr>
      = m\<lparr>u_reg := (\<lambda>r. case map_of (x # rs) r of Some off \<Rightarrow> tf_word (u_mem m) p (off div 8) | None \<Rightarrow> u_reg m r)\<rparr>"
    using x by (auto simp: fun_eq_iff split: option.split)
  finally show ?case .
qed simp

section \<open>The two routines\<close>

lemma saved_regs_ok: "\<forall>(r, off) \<in> set saved_regs. word_offset off \<and> r \<noteq> A0" "distinct (map fst saved_regs)" "distinct (map snd saved_regs)"
  by (simp_all add: saved_regs_def word_offset_def)

definition saved_words :: "(reg \<Rightarrow> u64) \<Rightarrow> (nat \<times> u64) list" where
  "saved_words f = map (\<lambda>(r, off). (off, f r)) saved_regs @ [(112, f A0)]"

lemma saved_words_ok: "\<forall>(off, v) \<in> set (saved_words f). word_offset off" "distinct (map fst (saved_words f))"
  by (simp_all add: saved_words_def saved_regs_def word_offset_def)

lemma put_all_append: "put_all m p (ws @ vs) = put_all (put_all m p ws) p vs"
  by (induction m p ws rule: put_all.induct) simp_all

lemma uservec_to_satp:
  assumes ex: "executable lm (u_mem m) (c_satp (u_csr m)) p" and fm: "frame_mapped (u_mem m) (c_satp (u_csr m)) p"
  defines "w \<equiv> tf_word (u_mem m) p"
  shows "trun link uservec m = trun link [SfenceVma, Jalr T0] (m\<lparr>u_sscratch := u_reg m A0,
    u_reg := (u_reg m)(A0 := TRAPFRAME, T0 := w 2, SP := w 1, TP := w 4, T1 := w 0),
    u_mem := put_all (u_mem m) p (saved_words (u_reg m)), u_csr := w_satp (w 0) (u_csr m)\<rparr>)"
proof -
  let ?ws = "map (\<lambda>(r, off). (off, u_reg m r)) saved_regs"
  let ?m1 = "m\<lparr>u_sscratch := u_reg m A0\<rparr>"
  let ?m2 = "?m1\<lparr>u_reg := (u_reg m)(A0 := TRAPFRAME)\<rparr>"
  let ?m3 = "?m2\<lparr>u_mem := put_all (u_mem m) p ?ws\<rparr>"
  let ?m4 = "?m3\<lparr>u_reg := (u_reg m)(A0 := TRAPFRAME, T0 := u_reg m A0)\<rparr>"
  let ?m5 = "?m4\<lparr>u_mem := put_all (u_mem m) p (saved_words (u_reg m))\<rparr>"
  let ?m6 = "?m5\<lparr>u_reg := (u_reg m)(A0 := TRAPFRAME, T0 := w 2, SP := w 1, TP := w 4, T1 := w 0)\<rparr>"
  let ?m7 = "?m6\<lparr>u_csr := w_satp (w 0) (u_csr m)\<rparr>"
  let ?ls = "[(SP, 8), (TP, 32), (T0, 16), (T1, 0)]"
  have al: "pg_aligned p" using fm PTE2PA_aligned by (auto simp: frame_mapped_def Let_def)
  have sp: "same_page (u_mem m) (put_all (u_mem m) p ws) q" if "q \<noteq> p" "\<forall>(off, v) \<in> set ws. word_offset off" for q ws
    using put_all_other [OF al that] .
  have ok3: "\<forall>(off, v) \<in> set ?ws. word_offset off" using saved_regs_ok(1) by auto
  note s3 = executable_frame [OF ex sp [OF _ ok3]] and s5 = executable_frame [OF ex sp [OF _ saved_words_ok(1)]]
  have "map_of (saved_words (u_reg m)) (8 * i) = None" if "i < 5" for i
    using that by (auto simp: map_of_eq_None_iff saved_words_def saved_regs_def)
  then have w5: "tf_word (u_mem ?m5) p i = w i" if "i < 5" for i
    using put_all_word [OF al saved_words_ok, of i] that by (simp add: w_def)
  have "trun link uservec m = trun link (map (\<lambda>(r, off). Sd r off A0) saved_regs @ drop 32 uservec) ?m2"
    unfolding uservec_def using run_step [OF ex, of link "CsrwSscratch A0" ?m1] run_step [of lm ?m1 p link "Li A0 TRAPFRAME" ?m2] ex
    by (simp add: TRAMP_TRAPFRAME saved_regs_def del: trun.simps)
  also have "\<dots> = trun link (drop 32 uservec) ?m3"
  proof -
    have ws: "map (\<lambda>(r, off). (off, if r = A0 then TRAPFRAME else u_reg m r)) saved_regs = ?ws" by (simp add: saved_regs_def)
    have "\<forall>(r, off) \<in> set saved_regs. word_offset off" using saved_regs_ok(1) by auto
    then show ?thesis using run_saves [of lm ?m2 p saved_regs link "drop 32 uservec"] ex fm by (simp add: ws)
  qed
  also have "\<dots> = trun link (map (\<lambda>(r, off). Sd r off A0) [(T0, 112)] @ drop 34 uservec) ?m4"
    using run_step [of lm ?m3 p link "CsrrSscratch T0" ?m4] s3(1) by (simp add: uservec_def saved_regs_def del: trun.simps)
  also have "\<dots> = trun link (drop 34 uservec) ?m5"
    using run_saves [of lm ?m4 p "[(T0, 112)]" link "drop 34 uservec"] s3 fm
    by (simp add: word_offset_def saved_words_def put_all_append del: trun.simps)
  also have "\<dots> = trun link (map (\<lambda>(r, off). Ld r off A0) ?ls @ drop 38 uservec) ?m5"
    by (simp add: uservec_def saved_regs_def del: trun.simps)
  also have "\<dots> = trun link (drop 38 uservec) ?m6"
  proof -
    have "(\<lambda>r. case map_of ?ls r of Some off \<Rightarrow> tf_word (u_mem ?m5) p (off div 8) | None \<Rightarrow> u_reg ?m5 r) = u_reg ?m6"
      using w5 by (simp add: fun_eq_iff)
    then show ?thesis using run_loads [of lm ?m5 p ?ls link "drop 38 uservec"] s5 fm by (simp add: word_offset_def del: trun.simps)
  qed
  also have "\<dots> = trun link [SfenceVma, Jalr T0] ?m7"
    using run_step [of lm ?m6 p link SfenceVma ?m6] run_step [of lm ?m6 p link "CsrwSatp T1" ?m7] s5(1)
    by (simp add: uservec_def saved_regs_def del: trun.simps)
  finally show ?thesis by (cases m) simp
qed

lemma frame_aligned: "frame_mapped m satp p \<Longrightarrow> pg_aligned p"
  using PTE2PA_aligned by (auto simp: frame_mapped_def Let_def)

lemma saved_same_page: "pg_aligned p \<Longrightarrow> q \<noteq> p \<Longrightarrow> same_page m (put_all m p (saved_words f)) q"
  using put_all_other saved_words_ok(1) by blast

lemma uservec_run:
  assumes ex: "executable lm (u_mem m) (c_satp (u_csr m)) p" and fm: "frame_mapped (u_mem m) (c_satp (u_csr m)) p"
    and kex: "executable lm (u_mem m) (tf_word (u_mem m) p 0) p"
  defines "w \<equiv> tf_word (u_mem m) p"
  shows "trun link uservec m = Ok () (m\<lparr>u_sscratch := u_reg m A0,
    u_reg := (u_reg m)(A0 := TRAPFRAME, T0 := w 2, SP := w 1, TP := w 4, T1 := w 0, RA := link),
    u_mem := put_all (u_mem m) p (saved_words (u_reg m)), u_csr := w_satp (w 0) (u_csr m), u_pc := w 2\<rparr>)"
proof -
  let ?m = "m\<lparr>u_sscratch := u_reg m A0, u_reg := (u_reg m)(A0 := TRAPFRAME, T0 := w 2, SP := w 1, TP := w 4, T1 := w 0),
    u_mem := put_all (u_mem m) p (saved_words (u_reg m)), u_csr := w_satp (w 0) (u_csr m)\<rparr>"
  have "executable lm (u_mem ?m) (w 0) p"
    using executable_frame(1) [OF kex saved_same_page [OF frame_aligned [OF fm]]] by (simp add: w_def)
  then have e: "executable lm (u_mem ?m) (c_satp (u_csr ?m)) p" by (simp add: w_satp_def)
  have "trun link [SfenceVma, Jalr T0] ?m = Ok () (?m\<lparr>u_reg := (u_reg ?m)(RA := link), u_pc := w 2\<rparr>)"
    using run_step [OF e, of link SfenceVma ?m] run_step [OF e, of link "Jalr T0" "?m\<lparr>u_reg := (u_reg ?m)(RA := link), u_pc := w 2\<rparr>" "[]"] by simp
  then show ?thesis using uservec_to_satp [OF ex fm, of link] by (cases m) (simp add: w_def)
qed

lemma regs_none: "map_of saved_regs r = None \<longleftrightarrow> r = A0"
  by (cases r) (simp_all add: saved_regs_def)

definition frame_slot :: "reg \<Rightarrow> nat" where
  "frame_slot r = (case map_of saved_regs r of Some off \<Rightarrow> off div 8 | None \<Rightarrow> 14)"

lemma frame_slot_load:
  "(case map_of saved_regs r of Some off \<Rightarrow> w (off div 8) | None \<Rightarrow> (f(A0 := v)) r) = (if r = A0 then v else w (frame_slot r))"
  using regs_none [of r] by (cases "map_of saved_regs r") (simp_all add: frame_slot_def)

lemma userret_run:
  assumes kex: "executable lm (u_mem m) (c_satp (u_csr m)) p" and ex: "executable lm (u_mem m) (u_reg m A0) p" and fm: "frame_mapped (u_mem m) (u_reg m A0) p"
  shows "trun link userret m = Ok () (m\<lparr>u_reg := (\<lambda>r. tf_word (u_mem m) p (frame_slot r)),
    u_csr := fst (sret (w_satp (u_reg m A0) (u_csr m))), u_pc := c_sepc (u_csr m)\<rparr>)"
proof -
  let ?c = "w_satp (u_reg m A0) (u_csr m)" and ?w = "tf_word (u_mem m) p"
  let ?m1 = "m\<lparr>u_csr := ?c\<rparr>"
  let ?m2 = "?m1\<lparr>u_reg := (u_reg m)(A0 := TRAPFRAME)\<rparr>"
  let ?m3 = "?m1\<lparr>u_reg := (\<lambda>r. if r = A0 then TRAPFRAME else ?w (frame_slot r))\<rparr>"
  let ?m4 = "?m1\<lparr>u_reg := (\<lambda>r. ?w (frame_slot r))\<rparr>"
  have c: "c_satp ?c = u_reg m A0" "c_sepc ?c = c_sepc (u_csr m)" by (simp_all add: w_satp_def)
  have "trun link userret m = trun link (SfenceVma # Li A0 TRAPFRAME # drop 4 userret) ?m1"
    using run_step [OF kex, of link SfenceVma m] run_step [OF kex, of link "CsrwSatp A0" ?m1]
    by (simp add: userret_def TRAMP_TRAPFRAME del: trun.simps)
  also have "\<dots> = trun link (map (\<lambda>(r, off). Ld r off A0) saved_regs @ [Ld A0 112 A0, Sret]) ?m2"
    using run_step [of lm ?m1 p link SfenceVma ?m1] run_step [of lm ?m1 p link "Li A0 TRAPFRAME" ?m2] ex
    by (simp add: userret_def c del: trun.simps)
  also have "\<dots> = trun link [Ld A0 112 A0, Sret] ?m3"
  proof -
    have f: "(\<lambda>r. case map_of saved_regs r of Some off \<Rightarrow> tf_word (u_mem ?m2) p (off div 8) | None \<Rightarrow> u_reg ?m2 r)
        = (\<lambda>r. if r = A0 then TRAPFRAME else ?w (frame_slot r))"
      by (rule ext) (simp add: frame_slot_load del: fun_upd_apply cong: option.case_cong)
    show ?thesis
      using run_loads [of lm ?m2 p saved_regs link "[Ld A0 112 A0, Sret]"] ex fm saved_regs_ok(1,2) by (simp add: c f del: trun.simps)
  qed
  also have "\<dots> = trun link [Sret] ?m4"
  proof -
    have "(\<lambda>r. if r = A0 then TRAPFRAME else ?w (frame_slot r))(A0 := ?w 14) = (\<lambda>r. ?w (frame_slot r))"
      using regs_none [of A0] by (simp add: fun_eq_iff frame_slot_def)
    then show ?thesis using run_load [of lm ?m3 p 112 link A0 "[Sret]"] ex fm by (simp add: c word_offset_def del: trun.simps)
  qed
  also have "\<dots> = Ok () (?m4\<lparr>u_csr := fst (sret ?c), u_pc := snd (sret ?c)\<rparr>)"
    using run_step [of lm ?m4 p link Sret "?m4\<lparr>u_csr := fst (sret ?c), u_pc := snd (sret ?c)\<rparr>" "[]"] ex by (simp add: c)
  finally show ?thesis by (cases m) (simp add: sret_bits(3) w_satp_def)
qed

text \<open>What the frame holds after \<open>uservec\<close>: the words of the registers.\<close>

lemma saved_word:
  assumes "pg_aligned p"
  shows "tf_word (put_all m p (saved_words f)) p (frame_slot r) = f r"
  using put_all_word [OF assms saved_words_ok, of _ m f] by (cases r) (simp_all add: saved_words_def saved_regs_def frame_slot_def)

definition with_user_regs :: "(reg \<Rightarrow> u64) \<Rightarrow> trapframe \<Rightarrow> trapframe" where
  "with_user_regs f tf = tf\<lparr>tf_ra := f RA, tf_sp := f SP, tf_gp := f GP, tf_tp := f TP, tf_t0 := f T0, tf_t1 := f T1, tf_t2 := f T2,
     tf_s0 := f S0, tf_s1 := f S1, tf_a0 := f A0, tf_a1 := f A1, tf_a2 := f A2, tf_a3 := f A3, tf_a4 := f A4, tf_a5 := f A5, tf_a6 := f A6, tf_a7 := f A7,
     tf_s2 := f S2, tf_s3 := f S3, tf_s4 := f S4, tf_s5 := f S5, tf_s6 := f S6, tf_s7 := f S7, tf_s8 := f S8, tf_s9 := f S9, tf_s10 := f S10, tf_s11 := f S11,
     tf_t3 := f T3, tf_t4 := f T4, tf_t5 := f T5, tf_t6 := f T6\<rparr>"

lemma trapframe_saved:
  assumes "pg_aligned p"
  shows "trapframe_at (put_all m p (saved_words f)) p = with_user_regs f (trapframe_at m p)"
  using put_all_word [OF assms saved_words_ok, of _ m f] by (simp add: trapframe_at_def with_user_regs_def saved_words_def saved_regs_def)

section \<open>The address spaces of this kernel\<close>

text \<open>\<open>proc_pagetable\<close> maps the trampoline as it should be, but finds the frame of every process in the
  physical page at \<open>PGSIZE\<close>.\<close>

lemma entry_bits: "(PA2PTE a OR f) AND f' = (PA2PTE a AND f') OR (f AND f')"
  by (rule bit_word_eqI) (auto simp: bit_simps)

lemma entry_low_bits: "f < 1024 \<Longrightarrow> PA2PTE a AND f = 0"
  by (rule bit_word_eqI) (auto simp: PA2PTE_def bit_simps dest: bit_flags_small)

lemma tramp_entries:
  "pte_valid (PA2PTE a OR (PTE_R OR PTE_X) OR PTE_V)" "(PA2PTE a OR (PTE_R OR PTE_X) OR PTE_V) AND PTE_X \<noteq> 0"
  "(PA2PTE a OR (PTE_R OR PTE_X) OR PTE_V) AND PTE_U = 0" "(PA2PTE a OR (PTE_R OR PTE_W) OR PTE_V) AND PTE_U = 0"
  "pte_valid (PA2PTE a OR (PTE_R OR PTE_W) OR PTE_V)" "(PA2PTE a OR (PTE_R OR PTE_W) OR PTE_V) AND PTE_R \<noteq> 0"
  "(PA2PTE a OR (PTE_R OR PTE_W) OR PTE_V) AND PTE_W \<noteq> 0" "PTE2PA (PA2PTE a OR (PTE_R OR PTE_W) OR PTE_V) = PGROUNDDOWN a"
proof -
  have f: "PTE_R OR PTE_X OR PTE_V = 11" "PTE_R OR PTE_W OR PTE_V = 7" by (simp_all add: pte_bits)
  show "pte_valid (PA2PTE a OR (PTE_R OR PTE_X) OR PTE_V)" "(PA2PTE a OR (PTE_R OR PTE_X) OR PTE_V) AND PTE_X \<noteq> 0"
    "(PA2PTE a OR (PTE_R OR PTE_X) OR PTE_V) AND PTE_U = 0" "(PA2PTE a OR (PTE_R OR PTE_W) OR PTE_V) AND PTE_U = 0"
    "pte_valid (PA2PTE a OR (PTE_R OR PTE_W) OR PTE_V)" "(PA2PTE a OR (PTE_R OR PTE_W) OR PTE_V) AND PTE_R \<noteq> 0"
    "(PA2PTE a OR (PTE_R OR PTE_W) OR PTE_V) AND PTE_W \<noteq> 0" "PTE2PA (PA2PTE a OR (PTE_R OR PTE_W) OR PTE_V) = PGROUNDDOWN a"
    unfolding pte_valid_def or.assoc f by (simp_all add: entry_bits PTE2PA_flags) (simp_all add: pte_bits entry_low_bits)
qed

lemma satp_of_table:
  assumes "page_ok lm pt"
  shows "satp_root (MAKE_SATP pt) = pt" "MAKE_SATP pt \<noteq> 0"
proof -
  have "pg_aligned pt" "pt < PHYSTOP" using assms by (simp_all add: page_ok_def)
  then have "pg_aligned pt" "unat pt < 2281701376" by (simp_all add: word_less_nat_alt unat_layout)
  then show "satp_root (MAKE_SATP pt) = pt" "MAKE_SATP pt \<noteq> 0" by (rule satp_root_MAKE_SATP)+
qed

lemma low_page_free: "pt_wf lm m l pt \<Longrightarrow> link_wf lm \<Longrightarrow> PGSIZE \<notin> pt_set m l pt"
proof -
  assume wf: "pt_wf lm m l pt" and lw: "link_wf lm"
  have "\<not> page_ok lm PGSIZE" using lw by (auto simp: page_ok_def link_wf_def layout_defs word_le_nat_alt word_less_nat_alt)
  then show ?thesis using pt_set_page_ok [OF wf] by blast
qed

lemma user_space_frame:
  assumes "space_ok s pt" and "link_wf (k_link s)"
  shows "executable (k_link s) (k_mem s) (MAKE_SATP pt) PGSIZE" "frame_mapped (k_mem s) (MAKE_SATP pt) PGSIZE"
proof -
  have wf: "pt_wf (k_link s) (k_mem s) 2 pt" and t: "pt_entry (k_mem s) 2 pt v = user_map (k_link s) v" for v
    using assms(1) by (auto simp: space_ok_def translate_def fun_eq_iff)
  have "page_ok (k_link s) pt" using pt_wf_page_ok [OF wf] by (simp add: eval_nat_numeral)
  note satp = satp_of_table [OF this]
  have ne: "vpn TRAMPOLINE \<noteq> vpn TRAPFRAME" "PGROUNDDOWN PGSIZE = PGSIZE"
    using aligned_user(3) by (simp_all add: vpn_user pg_aligned_iff)
  show "executable (k_link s) (k_mem s) (MAKE_SATP pt) PGSIZE"
    using low_page_free [OF wf assms(2)] wf ne by (simp add: executable_def satp t user_map_def tramp_entries)
  show "frame_mapped (k_mem s) (MAKE_SATP pt) PGSIZE"
    using ne by (simp add: frame_mapped_def satp t user_map_def tramp_entries)
qed

text \<open>The kernel's own table does not map the trampoline at all, so that \<open>uservec\<close> faults at the instruction
  after the one that installs it.\<close>

lemma kernel_space_no_trampoline:
  assumes "kernel_space s st ys" and "link_wf (k_link s)"
  shows "\<not> pte_valid (pt_entry (k_mem s) 2 (k_pagetable s) TRAMPOLINE)"
proof -
  have "vpn TRAMPOLINE \<noteq> vpn (KSTACK j)" if "j < NPROC" for j using vpn_KSTACK [OF that] by (simp add: vpn_user)
  moreover have "l_etext (k_link s) \<le> PHYSTOP" using assms(2) by (auto simp: link_wf_def)
  then have "unat (l_etext (k_link s)) div 4096 \<le> 557056" by (simp add: word_le_nat_alt unat_layout div_le_mono [of _ 2281701376, simplified])
  then have "vpn (l_etext (k_link s)) \<le> 557056" by (simp add: vpn_def)
  then have "direct_map (l_etext (k_link s)) TRAMPOLINE = 0" by (simp add: direct_map_def Let_def vpn_layout vpn_user)
  moreover have "length st = NPROC" using assms(1) by (simp add: kernel_space_def)
  ultimately have "find (\<lambda>j. vpn TRAMPOLINE = vpn (KSTACK j)) [0..<length st] = None" "direct_map (l_etext (k_link s)) TRAMPOLINE = 0"
    by (simp_all add: find_None_iff)
  then have "stack_map st (direct_map (l_etext (k_link s))) TRAMPOLINE = 0" by (simp add: stack_map_def)
  then have "translate s (k_pagetable s) TRAMPOLINE = 0" using assms(1) by (simp add: kernel_space_def)
  then show ?thesis by (simp add: translate_def pte_valid_def)
qed

lemma uservec_faults:
  assumes us: "space_ok s pt" and ks: "kernel_space s st ys" and lw: "link_wf (k_link s)"
    and m: "u_mem m = k_mem s" "c_satp (u_csr m) = MAKE_SATP pt" "tf_kernel_satp (trapframe_at (k_mem s) PGSIZE) = MAKE_SATP (k_pagetable s)"
  shows "\<exists>m'. trun link uservec m = Err Fault m'"
proof -
  note u = user_space_frame [OF us lw]
  have wf: "pt_wf (k_link s) (k_mem s) 2 (k_pagetable s)" using ks by (simp add: kernel_space_def)
  note satp = satp_of_table [OF pt_wf_page_ok [OF wf]]
  let ?mem = "put_all (k_mem s) PGSIZE (saved_words (u_reg m))"
  have "pt_set ?mem 2 (k_pagetable s) = pt_set (k_mem s) 2 (k_pagetable s) \<and> pt_wf (k_link s) ?mem 2 (k_pagetable s)
      \<and> (\<forall>va. pt_entry ?mem 2 (k_pagetable s) va = pt_entry (k_mem s) 2 (k_pagetable s) va)"
    using low_page_free [OF wf lw] by (intro pt_frame [OF wf] saved_same_page aligned_user(3)) auto
  then have "\<not> pte_valid (pt_entry ?mem 2 (k_pagetable s) TRAMPOLINE)" using kernel_space_no_trampoline [OF ks lw] by simp
  moreover have "tf_word (u_mem m) PGSIZE 0 = MAKE_SATP (k_pagetable s)" using m(1,3) by (simp add: trapframe_at_def)
  ultimately show ?thesis
    using uservec_to_satp [of "k_link s" m PGSIZE link] u m(1,2) satp by (simp add: phys_def w_satp_def Let_def)
qed

section \<open>Properties\<close>

text \<open>C36. The way in and back: a trap from user mode arrives in the kernel with every register in the trap
  frame where \<^verbatim>\<open>struct trapframe\<close> has it, on the kernel's stack, hart number and page table, at the
  handler the frame names and with \<open>userret\<close> to return to; no other page has changed. When the handler
  returns there with the user's page table in \<open>a0\<close>, whatever it has done outside the frame and that
  table, all 31 registers are back and the program goes on at \<open>sepc\<close>. The conditions are those the
  comments of \<open>trampoline.S\<close> state; the table that \<open>kvminit\<close> builds does not meet the one on the kernel's
  table yet, because it lacks the page \<open>TRAMPOLINE\<close>.\<close>

theorem trampoline_roundtrip:
  assumes "executable lm (u_mem m) (c_satp (u_csr m)) p" and "frame_mapped (u_mem m) (c_satp (u_csr m)) p"
    and "executable lm (u_mem m) (tf_kernel_satp (trapframe_at (u_mem m) p)) p"
  shows "\<exists>m1. trun link uservec m = Ok () m1 \<and> trapframe_at (u_mem m1) p = with_user_regs (u_reg m) (trapframe_at (u_mem m) p)
     \<and> u_pc m1 = tf_kernel_trap (trapframe_at (u_mem m) p) \<and> u_reg m1 SP = tf_kernel_sp (trapframe_at (u_mem m) p)
     \<and> u_reg m1 TP = tf_kernel_hartid (trapframe_at (u_mem m) p) \<and> u_reg m1 RA = link
     \<and> c_satp (u_csr m1) = tf_kernel_satp (trapframe_at (u_mem m) p) \<and> (\<forall>q. q \<noteq> p \<longrightarrow> same_page (u_mem m) (u_mem m1) q)
     \<and> (\<forall>m2. executable lm (u_mem m2) (c_satp (u_csr m2)) p \<longrightarrow> u_reg m2 A0 = c_satp (u_csr m) \<longrightarrow>
          (\<forall>q. q = p \<or> q \<in> pt_set (u_mem m) 2 (satp_root (c_satp (u_csr m))) \<longrightarrow> same_page (u_mem m1) (u_mem m2) q) \<longrightarrow>
          (\<exists>m3. trun link userret m2 = Ok () m3 \<and> u_reg m3 = u_reg m \<and> c_satp (u_csr m3) = c_satp (u_csr m)
            \<and> u_pc m3 = c_sepc (u_csr m2) \<and> u_mem m3 = u_mem m2))"
proof -
  note al = frame_aligned [OF assms(2)]
  let ?satp = "c_satp (u_csr m)" and ?mem = "put_all (u_mem m) p (saved_words (u_reg m))"
  have sp: "same_page (u_mem m) ?mem q" if "q \<noteq> p" for q using saved_same_page [OF al that] .
  have kex: "executable lm (u_mem m) (tf_word (u_mem m) p 0) p" using assms(3) by (simp add: trapframe_at_def)
  have home: "\<exists>m3. trun link userret m2 = Ok () m3 \<and> u_reg m3 = u_reg m \<and> c_satp (u_csr m3) = ?satp \<and> u_pc m3 = c_sepc (u_csr m2) \<and> u_mem m3 = u_mem m2"
    if m2: "executable lm (u_mem m2) (c_satp (u_csr m2)) p" "u_reg m2 A0 = ?satp"
      "\<And>q. q = p \<or> q \<in> pt_set (u_mem m) 2 (satp_root ?satp) \<Longrightarrow> same_page ?mem (u_mem m2) q" for m2
  proof -
    have pt: "pt_set (u_mem m2) 2 (satp_root ?satp) = pt_set (u_mem m) 2 (satp_root ?satp) \<and> pt_wf lm (u_mem m2) 2 (satp_root ?satp)
        \<and> (\<forall>va. pt_entry (u_mem m2) 2 (satp_root ?satp) va = pt_entry (u_mem m) 2 (satp_root ?satp) va)"
    proof (rule pt_frame)
      show "same_page (u_mem m) (u_mem m2) q" if "q \<in> pt_set (u_mem m) 2 (satp_root ?satp)" for q
        using that assms(1) same_page_trans [OF sp m2(3) [of q]] by (cases "q = p") (auto simp: executable_def)
    qed (use assms(1) in \<open>simp add: executable_def\<close>)
    then have "executable lm (u_mem m2) (u_reg m2 A0) p" "frame_mapped (u_mem m2) (u_reg m2 A0) p"
      using assms(1,2) m2(2) by (simp_all add: executable_def frame_mapped_def)
    note run = userret_run [OF m2(1) this, of link]
    have "frame_slot r < 512" for r using saved_regs_ok(1) regs_none [of r] by (cases r) (simp_all add: frame_slot_def saved_regs_def)
    then have "tf_word (u_mem m2) p (frame_slot r) = tf_word ?mem p (frame_slot r)" for r
      using load64_same_page [OF m2(3) [of p] al, of "of_nat (frame_slot r)"] unat_index by (simp add: tf_word_def)
    then have "(\<lambda>r. tf_word (u_mem m2) p (frame_slot r)) = u_reg m" using saved_word [OF al] by (simp add: fun_eq_iff)
    then show ?thesis using run m2(2) by (simp add: sret_def w_satp_def)
  qed
  have f: "tf_kernel_satp (trapframe_at (u_mem m) p) = tf_word (u_mem m) p 0" "tf_kernel_sp (trapframe_at (u_mem m) p) = tf_word (u_mem m) p 1"
    "tf_kernel_trap (trapframe_at (u_mem m) p) = tf_word (u_mem m) p 2" "tf_kernel_hartid (trapframe_at (u_mem m) p) = tf_word (u_mem m) p 4"
    by (simp_all add: trapframe_at_def)
  show ?thesis
    by (rule exI, intro conjI allI impI, rule uservec_run [OF assms(1,2) kex, of link])
       (use trapframe_saved [OF al] sp in \<open>auto simp: f w_satp_def intro!: home\<close>)
qed

theorem trampoline_roundtrip_witness:
  "\<exists>m m1 m3. trun 0 uservec m = Ok () m1 \<and> trun 0 userret (m1\<lparr>u_reg := (u_reg m1)(A0 := c_satp (u_csr m))\<rparr>) = Ok () m3
     \<and> u_reg m3 = u_reg m \<and> u_reg m S3 = 7"
proof -
  note t = pool_table_ok [where c = None and e = False]
  have free: "free_pages (pool_table None False) (hd pool_pages # tl pool_pages)" "4 \<le> length (tl pool_pages)"
    using t(2) pool_pages_split by (simp_all add: ptable_def)
  obtain s pt where s: "space_ok s pt" "link_wf (k_link s)"
    by (rule wpE [OF wp_proc_pagetable [OF t(1) _ free, where Q = "\<lambda>p s'. space_ok s' p \<and> link_wf (k_link s')"]])
       (auto simp: free_pages_def)
  let ?satp = "MAKE_SATP pt" and ?mem = "store64 (k_mem s) PGSIZE (MAKE_SATP pt)"
  let ?m = "\<lparr>u_reg = (\<lambda>_. 7), u_mem = ?mem, u_csr = zero_csrs\<lparr>c_satp := ?satp\<rparr>, u_sscratch = 0, u_pc = 0\<rparr>"
  note u = user_space_frame [OF s]
  have sp: "q \<noteq> PGSIZE \<Longrightarrow> same_page (k_mem s) ?mem q" for q using same_page_sym [OF same_page_store_0 [OF aligned_user(3)]] .
  have ex: "executable (k_link s) ?mem ?satp PGSIZE" "frame_mapped ?mem ?satp PGSIZE" using executable_frame [OF u(1) sp] u(2) by simp_all
  have k: "tf_kernel_satp (trapframe_at ?mem PGSIZE) = ?satp" by (simp add: trapframe_at_def tf_word_def slot_0)
  have "executable (k_link s) (u_mem ?m) (c_satp (u_csr ?m)) PGSIZE" "frame_mapped (u_mem ?m) (c_satp (u_csr ?m)) PGSIZE"
    "executable (k_link s) (u_mem ?m) (tf_kernel_satp (trapframe_at (u_mem ?m) PGSIZE)) PGSIZE" using ex k by simp_all
  note run = trampoline_roundtrip [OF this, of 0]
  show ?thesis
  proof (rule exE [OF run], elim conjE, goal_cases)
    case (1 m1)
    let ?m2 = "m1\<lparr>u_reg := (u_reg m1)(A0 := ?satp)\<rparr>"
    have "executable (k_link s) (u_mem m1) ?satp PGSIZE" using 1(8) by (intro executable_frame(1) [OF ex(1)]) simp
    then have "\<exists>m3. trun 0 userret ?m2 = Ok () m3 \<and> u_reg m3 = u_reg ?m"
      using 1(7) 1(9) [rule_format, of ?m2] k by auto
    then obtain m3 where m3: "trun 0 userret ?m2 = Ok () m3" "u_reg m3 = u_reg ?m" by blast
    have "c_satp (u_csr ?m) = ?satp" "u_reg ?m S3 = 7" by simp_all
    with 1(1) m3 show ?case by (intro exI [of _ ?m] exI [of _ m1] exI [of _ m3]) (simp only: simp_thms)
  qed
qed

end
