(* ===== verification/Tasks.thy ===== *)
theory Tasks
  imports Boot
begin

text \<open>
  The two kernel threads of \<open>kernel/proc.c\<close>, \<open>init_task\<close> and \<open>simple_task\<close>: what each piece of them
  between two switches does to the process table.
\<close>

section \<open>Messages\<close>

definition renders :: "string \<Rightarrow> vararg list \<Rightarrow> bool" where
  "renders fmt args \<longleftrightarrow> render (cstr fmt) args \<noteq> None"

lemma wp_kprint_any:
  assumes "hart H e c s" and "PrintLock \<notin> H" and "renders fmt args"
    and "\<And>s'. hart H e c s' \<Longrightarrow> data s' = data s \<Longrightarrow> Q () s'"
  shows "wp (kprint fmt args) Q s"
  using assms by (auto simp: renders_def intro: wp_kprint)

lemma task_messages:
  "renders ''init: starting\<newline>'' []" "renders ''init: reaped zombie pid %d\<newline>'' [VWord w]"
  "renders ''Process PID %d is running...\<newline>'' [VWord w]"
  "renders ''\<newline>=== TEST START: Single Function Exit/Wait ===\<newline>'' []"
  "renders ''[Parent] PID %d: I am the parent. Spawning child...\<newline>'' [VWord w]"
  "renders ''[Parent] Created child PID %d. Waiting for it to exit...\<newline>'' [VWord w]"
  "renders ''  [Child] PID %d: I am the child.\<newline>'' [VWord w]"
  "renders ''  [Child] My parent is PID %d.\<newline>'' [VWord w]"
  "renders ''  [Child] Exiting with status 88...\<newline>'' []"
  by (simp_all add: renders_def cstr_def ch_def byte_at_def directive_text_def int_directive_def Let_def va_word_def)

section \<open>The init process\<close>

lemma wp_init_task_start:
  assumes "hart {} e c s" and "\<And>s'. hart {} e c s' \<Longrightarrow> data s' = data s \<Longrightarrow> Q () s'"
  shows "wp init_task_start Q s"
  unfolding init_task_start_def by (rule wp_kprint_any [OF assms(1) _ task_messages(1)]) (use assms(2) in simp_all)

text \<open>One round of its loop, \<open>wait_process\<close> and what follows: without children it yields.\<close>

datatype init_result = InitAgain | InitYields nat bool kcontext | InitSleeps nat bool kcontext

definition init_task_round :: "kcontext \<Rightarrow> wait_result \<Rightarrow> kstate \<Rightarrow> (kstate, init_result) res" where
  "init_task_round regs r = (case r of
     Waited pid status \<Rightarrow> bindM (init_task_reaped pid regs) (\<lambda>k. case k of
       None \<Rightarrow> ret InitAgain | Some (p, intena, regs') \<Rightarrow> ret (InitYields p intena regs'))
   | Asleep p intena regs' \<Rightarrow> ret (InitSleeps p intena regs'))"

lemma wp_init_idle:
  assumes h: "hart {} e (Some p) s" and n: "length (k_procs s) = NPROC" "p < NPROC"
    and none: "\<not> has_kid (Some p) [0..<NPROC] (k_procs s)"
    and Q: "\<And>s'. hart {ProcLock p} e (Some p) s' \<Longrightarrow> data s' = switched p regs (p_state_update (\<lambda>_. RUNNABLE)) (data s) \<Longrightarrow>
      Q (InitYields p e (cpu_context (cpu0 s))) s'"
  shows "wp (bindM (wait_process True regs) (init_task_round regs)) Q s"
proof -
  have z: "zombie_child (Some p) [0..<NPROC] (k_procs s) = None"
    using none by (auto simp: zombie_child_def has_kid_def find_None_iff)
  have "wp (wait_process True regs) (\<lambda>r s1. r = Waited (-1) None \<and> hart {} e (Some p) s1 \<and> data s1 = data s) s"
  proof (rule wp_wait_process [OF h])
    fix s1
    assume s1: "hart {WaitLock} e (Some p) s1" "data s1 = data s"
    note d = data_eqD(6) [OF s1(2)]
    show "wp (wait_round (Some p) True regs) (\<lambda>r s1. r = Waited (-1) None \<and> hart {} e (Some p) s1 \<and> data s1 = data s) s1"
      by (rule wp_wait_none [OF s1(1)]) (use n z none s1(2) d in auto)
  qed
  then obtain s1 where s1: "wait_process True regs s = Ok (Waited (-1) None) s1" "hart {} e (Some p) s1" "data s1 = data s"
    by (auto simp: wp_def)
  note d = data_eqD [OF s1(3)]
  have "wp (yield regs) (\<lambda>(p, intena, r). Q (InitYields p intena r)) s1"
    by (rule wp_yield [OF s1(2)]) (use n d(6,12) s1(3) Q in simp_all)
  then show ?thesis using s1(1) by (auto simp: wp_def init_task_round_def init_task_reaped_def exec_simps)
qed

section \<open>The test process and its child\<close>

lemma is_tester_run:
  "p < length (k_procs s) \<Longrightarrow> is_tester p s = Ok (p_parent (k_procs s ! p) = None \<or> k_initproc s \<noteq> None \<and> p_parent (k_procs s ! p) = k_initproc s) s"
  by (simp add: is_tester_def exec_simps)

text \<open>The part common to both: the process knows its role and has announced itself.\<close>

lemma wp_simple_task:
  assumes h: "hart {} e (Some p) s" and p: "p < length (k_procs s)"
    and parent: "\<And>s'. hart {} e (Some p) s' \<Longrightarrow> data s' = data s \<Longrightarrow> p_parent (k_procs s ! p) = None \<Longrightarrow> wp (simple_task_parent (p_pid (k_procs s ! p)) regs) Q s'"
    and child: "\<And>s'. hart {} e (Some p) s' \<Longrightarrow> data s' = data s \<Longrightarrow> p_parent (k_procs s ! p) \<noteq> None \<Longrightarrow> wp (simple_task_child p (p_pid (k_procs s ! p)) regs) Q s'"
    and init: "p_parent (k_procs s ! p) \<noteq> None \<Longrightarrow> p_parent (k_procs s ! p) \<noteq> k_initproc s"
  shows "wp (simple_task regs) Q s"
proof -
  obtain s1 where s1: "myproc s = Ok (Some p) s1" "hart {} e (Some p) s1" "data s1 = data s"
    by (rule wpE [OF wp_myproc [OF h, where Q = "\<lambda>r s'. r = Some p \<and> hart {} e (Some p) s' \<and> data s' = data s"]]) auto
  note d1 = data_eqD [OF s1(3)]
  let ?pid = "p_pid (k_procs s ! p)"
  obtain s2 where s2: "kprint ''Process PID %d is running...\<newline>'' [VWord (scast ?pid)] s1 = Ok () s2" "hart {} e (Some p) s2" "data s2 = data s"
    by (rule wpE [OF wp_kprint_any [OF s1(2) _ task_messages(3), where Q = "\<lambda>_ s'. hart {} e (Some p) s' \<and> data s' = data s"]]) (use s1(3) in auto)
  show ?thesis
  proof (cases "p_parent (k_procs s ! p) = None")
    case True
    then show ?thesis
      using s1(1) s2(1) d1(6) p parent [OF s2(2,3)] by (simp add: simple_task_def wp_def exec_simps is_tester_run)
  next
    case False
    then show ?thesis
      using s1(1) s2(1) d1(6,7) p child [OF s2(2,3)] init by (auto simp: simple_task_def wp_def exec_simps is_tester_run)
  qed
qed

text \<open>Switching away keeps the process table's invariant.\<close>

lemma ptable_switched:
  assumes "ptable U s xs" and "data s' = switched p regs f (data s)" and "p < NPROC" and "same_pages (k_procs s ! p) (f (k_procs s ! p))"
  shows "ptable U s' xs"
proof -
  let ?t = "s\<lparr>k_procs := (k_procs s)[p := (f (k_procs s ! p))\<lparr>p_context := regs\<rparr>]\<rparr>"
  have "ptable U ?t xs" using assms(4) by (intro ptable_update [OF assms(1,3)]) (simp add: same_pages_def)
  moreover have "data s' = data ?t" using assms(2) by (simp add: switched_def)
  ultimately show ?thesis using ptable_data by blast
qed

lemma switched_fields:
  assumes "data s' = switched p regs f (data s)"
  shows "k_procs s' = (k_procs s)[p := (f (k_procs s ! p))\<lparr>p_context := regs\<rparr>]" "k_link s' = k_link s" "k_nextpid s' = k_nextpid s"
    "k_initproc s' = k_initproc s" "k_pagetable s' = k_pagetable s" "k_mem s' = k_mem s" "cpu_context (cpu0 s') = cpu_context (cpu0 s)"
  using assms [THEN arg_cong, of k_procs] assms [THEN arg_cong, of k_link] assms [THEN arg_cong, of k_nextpid]
    assms [THEN arg_cong, of k_initproc] assms [THEN arg_cong, of k_pagetable] assms [THEN arg_cong, of k_mem]
    assms [THEN arg_cong, of "\<lambda>d. cpu_context (cpu0 d)"]
  by (simp_all add: switched_def)

lemma slot_step_cpu: "slot_step i A s s' \<Longrightarrow> cpu_context (cpu0 s') = cpu_context (cpu0 s)"
  unfolding slot_step_def by (drule conjunct2, drule arg_cong [where f = "\<lambda>d. cpu_context (cpu0 d)"]) simp

text \<open>What a process leaves alone while it changes the table and the pages \<open>A\<close>.\<close>

definition frame_step :: "u64 set \<Rightarrow> kstate \<Rightarrow> kstate \<Rightarrow> bool" where
  "frame_step A s s' \<longleftrightarrow> k_link s' = k_link s \<and> k_nextpid s' = k_nextpid s \<and> k_initproc s' = k_initproc s
     \<and> k_pagetable s' = k_pagetable s \<and> (\<forall>q. q \<notin> A \<longrightarrow> same_page (k_mem s) (k_mem s') q)"

lemma frame_step_trans: "frame_step A s s' \<Longrightarrow> frame_step B s' s'' \<Longrightarrow> frame_step (A \<union> B) s s''"
  unfolding frame_step_def by (auto intro: same_page_trans)

lemma frame_step_slot: "slot_step i A s s' \<Longrightarrow> frame_step A s s'"
  using slot_stepD [of i A s s'] by (auto simp: frame_step_def)

lemma frame_step_data:
  assumes "data s' = data s"
  shows "frame_step {} s s'"
  using data_eqD [OF assms] by (simp add: frame_step_def)

lemma frame_step_switched:
  assumes "data s' = switched p regs f (data s)"
  shows "frame_step {} s s'"
  using switched_fields [OF assms] by (simp add: frame_step_def)

lemma wp_simple_task_parent:
  assumes h: "hart {} e (Some p) s" and pt: "ptable U s xs" and un: "unused s = Some i" and pool: "6 \<le> length xs"
    and p: "p < NPROC" "p_state (k_procs s ! p) \<noteq> UNUSED" "p_killed (k_procs s ! p) = 0"
    and none: "\<not> has_kid (Some p) [0..<NPROC] (k_procs s)" and pid: "0 \<le> sint (k_nextpid s)"
    and Q: "\<And>s' tf pg ys. hart {ProcLock p} e (Some p) s' \<Longrightarrow> ptable U s' ys \<Longrightarrow> set ys \<subseteq> set xs \<Longrightarrow>
      (let c = started_proc (k_link s) (k_nextpid s) tf pg (Some p) (l_simple_task (k_link s)) (k_procs s ! i)
       in k_procs s' = (k_procs s)[i := c, p := (asleep (ChanProc p) (k_procs s ! p))\<lparr>p_context := regs\<rparr>]) \<Longrightarrow>
      frame_step (set xs) (s\<lparr>k_nextpid := k_nextpid s + 1\<rparr>) s' \<Longrightarrow> Q (Parent (k_nextpid s) (Asleep p e (cpu_context (cpu0 s)))) s'"
  shows "wp (simple_task_parent mypid regs) Q s"
proof -
  let ?n = "k_nextpid s" and ?fn = "l_simple_task (k_link s)"
  let ?c = "\<lambda>tf pg. started_proc (k_link s) ?n tf pg (Some p) ?fn (k_procs s ! i)"
  obtain s1 s2 where s1: "kprint ''\<newline>=== TEST START: Single Function Exit/Wait ===\<newline>'' [] s = Ok () s1"
      "kprint ''[Parent] PID %d: I am the parent. Spawning child...\<newline>'' [VWord (scast mypid)] s1 = Ok () s2" and h2: "hart {} e (Some p) s2" "data s2 = data s"
  proof -
    have "wp (seqM (kprint ''\<newline>=== TEST START: Single Function Exit/Wait ===\<newline>'' [])
       (kprint ''[Parent] PID %d: I am the parent. Spawning child...\<newline>'' [VWord (scast mypid)])) (\<lambda>_ t. hart {} e (Some p) t \<and> data t = data s) s"
      unfolding wp_simps by (rule wp_kprint_any [OF h _ task_messages(4)], simp, rule wp_kprint_any [OF _ _ task_messages(5)], assumption) simp_all
    then show ?thesis using that unfolding wp_simps by (auto simp: wp_def)
  qed
  note d2 = data_eqD [OF h2(2)]
  have i: "i < NPROC" "i \<noteq> p" "p_state (k_procs s ! i) = UNUSED" using unused_Some [OF un] p(2) by auto
  have un2: "unused s2 = Some i" using un by (simp add: unused_def d2(6))
  have len: "length (k_procs s) = NPROC" using pt by (simp add: ptable_def)
  obtain s3 tf pg ys where s3: "create_process ?fn s2 = Ok ?n s3" "hart {} e (Some p) s3" "ptable U s3 ys" "set ys \<subseteq> set xs"
      "k_procs s3 = (k_procs s)[i := ?c tf pg]" "slot_step i (set xs) (s2\<lparr>k_nextpid := ?n + 1\<rparr>) s3"
    by (rule wpE [OF wp_create_process [OF h2(1) _ _ _ _ un2 pool, where entry = ?fn and Q = "\<lambda>r t. r = ?n \<and> (\<exists>tf pg ys. hart {} e (Some p) t \<and> ptable U t ys \<and> set ys \<subseteq> set xs \<and>
        k_procs t = (k_procs s)[i := ?c tf pg] \<and> slot_step i (set xs) (s2\<lparr>k_nextpid := ?n + 1\<rparr>) t)"]])
       (use pt ptable_data [OF h2(2)] d2(1,6,8) in \<open>auto simp: outside_def\<close>)
  obtain s4 where s4: "kprint ''[Parent] Created child PID %d. Waiting for it to exit...\<newline>'' [VWord (scast ?n)] s3 = Ok () s4"
      "hart {} e (Some p) s4" "data s4 = data s3"
    by (rule wpE [OF wp_kprint_any [OF s3(2) _ task_messages(6), where Q = "\<lambda>_ t. hart {} e (Some p) t \<and> data t = data s3"]]) auto
  note d4 = data_eqD [OF s4(3)]
  let ?ps = "(k_procs s)[i := ?c tf pg]"
  have kid: "p_parent (?c tf pg) = Some p" "p_state (?c tf pg) = RUNNABLE" by (simp_all add: started_proc_def Let_def)
  have z: "zombie_child (Some p) [0..<NPROC] ?ps = None" "has_kid (Some p) [0..<NPROC] ?ps"
    using none i len kid by (auto simp: zombie_child_def has_kid_def find_None_iff nth_list_update)
  have ctx: "cpu_context (cpu0 s4) = cpu_context (cpu0 s)"
    using d4(12) d2(12) slot_step_cpu [OF s3(6)] by simp
  have "wp (wait_process True regs) (\<lambda>r. Q (Parent ?n r)) s4"
  proof (rule wp_wait_process [OF s4(2)])
    fix s5
    assume s5: "hart {WaitLock} e (Some p) s5" "data s5 = data s4"
    note d5 = data_eqD [OF s5(2)]
    have ps5: "k_procs s5 = ?ps" using d5(6) d4(6) s3(5) by simp
    have pt5: "ptable U s5 ys" using ptable_data [OF s5(2)] ptable_data [OF s4(3)] s3(3) by simp
    show "wp (wait_round (Some p) True regs) (\<lambda>r. Q (Parent ?n r)) s5"
    proof (rule wp_wait_sleep [OF s5(1)])
      fix s6
      assume s6: "hart {ProcLock p} e (Some p) s6" "data s6 = switched p regs (asleep (ChanProc p)) (data s5)"
      have "ptable U s6 ys"
        by (rule ptable_switched [OF pt5 s6(2) p(1)]) (use ps5 i p in \<open>simp add: same_pages_def asleep_def\<close>)
      moreover have "frame_step (set xs) (s\<lparr>k_nextpid := ?n + 1\<rparr>) s6"
        using frame_step_trans [OF frame_step_trans [OF frame_step_trans [OF frame_step_trans [OF frame_step_data frame_step_slot [OF s3(6)]] frame_step_data [OF s4(3)]]
          frame_step_data [OF s5(2)]] frame_step_switched [OF s6(2)], of "s\<lparr>k_nextpid := ?n + 1\<rparr>"] h2(2) by simp
      ultimately show "Q (Parent ?n (Asleep p e (cpu_context (cpu0 s5)))) s6"
        using Q [OF s6(1) _ s3(4), of tf pg] switched_fields(1) [OF s6(2)] ps5 i ctx d5(12) by (simp add: Let_def)
    qed (use ps5 len z p i in simp_all)
  qed
  then show ?thesis
    using s1 s3(1) s4(1) pid d2(1) by (auto simp: simple_task_parent_def wp_def exec_simps)
qed

lemma wp_simple_task_child:
  assumes h: "hart {} e (Some p) s" and n: "length (k_procs s) = NPROC" "p < NPROC"
    and par: "p_parent (k_procs s ! p) = Some q" "q < NPROC" and init: "k_initproc s \<noteq> Some p"
    and Q: "\<And>s'. hart {ProcLock p} e (Some p) s' \<Longrightarrow>
      data s' = switched p regs (zombie 88) ((data s)\<lparr>k_procs := left_behind p (k_initproc s) (k_procs s)\<rparr>) \<Longrightarrow>
      Q (Child p e (cpu_context (cpu0 s))) s'"
  shows "wp (simple_task_child p mypid regs) Q s"
proof -
  let ?ppid = "p_pid (k_procs s ! q)"
  have "wp (seqM (kprint ''  [Child] PID %d: I am the child.\<newline>'' [VWord (scast mypid)])
     (seqM (kprint ''  [Child] My parent is PID %d.\<newline>'' [VWord (scast ?ppid)])
           (kprint ''  [Child] Exiting with status 88...\<newline>'' []))) (\<lambda>_ t. hart {} e (Some p) t \<and> data t = data s) s"
    unfolding wp_simps by (rule wp_kprint_any [OF h _ task_messages(7)], simp, rule wp_kprint_any [OF _ _ task_messages(8)], assumption, simp,
      rule wp_kprint_any [OF _ _ task_messages(9)], assumption) simp_all
  then obtain s1 s2 s3 where run: "kprint ''  [Child] PID %d: I am the child.\<newline>'' [VWord (scast mypid)] s = Ok () s1"
      "kprint ''  [Child] My parent is PID %d.\<newline>'' [VWord (scast ?ppid)] s1 = Ok () s2"
      "kprint ''  [Child] Exiting with status 88...\<newline>'' [] s2 = Ok () s3" and s3: "hart {} e (Some p) s3" "data s3 = data s"
    unfolding wp_simps by (auto simp: wp_def)
  have "wp (kprint ''  [Child] PID %d: I am the child.\<newline>'' [VWord (scast mypid)]) (\<lambda>_ t. data t = data s) s"
    by (rule wp_kprint_any [OF h _ task_messages(7)]) simp_all
  then have p1: "k_procs s1 = k_procs s" using run(1) data_eqD(6) [of s1 s] by (auto simp: wp_def)
  note d3 = data_eqD [OF s3(2)]
  have "wp (exit_process 88 regs) (\<lambda>(q, intena, r). Q (Child q intena r)) s3"
    by (rule wp_exit_process [OF s3(1)]) (use n init d3(6,7,12) s3(2) Q in simp_all)
  then show ?thesis using run p1 par n by (auto simp: simple_task_child_def wp_def exec_simps)
qed

section \<open>The verdict\<close>

definition passed_text :: "i32 \<Rightarrow> u8 list" where
  "passed_text pid = cstr ''[Parent] Catch exited child PID '' @ show_int (sint pid) @ cstr ''.\<newline>'' @
     cstr ''[Parent] Exit status: 88 (Expected: 88)\<newline>=== TEST PASSED ===\<newline>[Parent] Test finished. Idling...\<newline>''"

lemma verdict_messages:
  "render (cstr ''[Parent] Catch exited child PID %d.\<newline>'') [VWord (scast n)] = Some (cstr ''[Parent] Catch exited child PID '' @ show_int (sint (n :: i32)) @ cstr ''.\<newline>'')"
  "render (cstr ''[Parent] Exit status: %d (Expected: 88)\<newline>'') [VWord (scast (88 :: i32))] = Some (cstr ''[Parent] Exit status: 88 (Expected: 88)\<newline>'')"
  "render (cstr ''=== TEST PASSED ===\<newline>'') [] = Some (cstr ''=== TEST PASSED ===\<newline>'')"
  "render (cstr ''[Parent] Test finished. Idling...\<newline>'') [] = Some (cstr ''[Parent] Test finished. Idling...\<newline>'')"
  using render_d [of "''[Parent] Catch exited child PID ''" "''.\<newline>''" n]
  by (simp_all add: render_eval plain_def)

lemma wp_simple_task_passed:
  assumes h: "hart {} e c s"
    and Q: "\<And>s'. hart {} e c s' \<Longrightarrow> data s' = data s \<Longrightarrow>
      k_uart s' = send (passed_text pid) (k_uart s) \<Longrightarrow> Q () s'"
  shows "wp (simple_task_waited pid pid 88) Q s"
  unfolding simple_task_waited_def simp_thms if_True wp_simps
  by (rule wp_kprint [OF h _ verdict_messages(1)], simp, rule wp_kprint [OF _ _ verdict_messages(2)], assumption, simp,
      rule wp_kprint [OF _ _ verdict_messages(3)], assumption, simp, rule wp_kprint [OF _ _ verdict_messages(4)], assumption, simp, rule Q, assumption)
     (simp_all add: send_def passed_text_def cstr_def)

lemma wp_simple_task_beat:
  assumes "hart {} e c s" and "\<And>s'. hart {} e c s' \<Longrightarrow> data s' = data s \<Longrightarrow> k_uart s' = send (cstr ''.'') (k_uart s) \<Longrightarrow> Q () s'"
  shows "wp simple_task_beat Q s"
  unfolding simple_task_beat_def
  by (rule wp_kprint [OF assms(1), where bs = "cstr ''.''"]) (use assms(2) in \<open>simp_all add: render_eval\<close>)

end
