(* ===== verification/Selftest.thy ===== *)
theory Selftest
  imports Tasks
begin

text \<open>
  The three self-tests of the kernel, which \<open>main\<close> has calls of in comments: the allocator's, the page
  table's and the one that turns paging on and prints through it. \<open>Kalloc\<close>, \<open>Vm\<close> and \<open>Kvm\<close> hold their
  definitions and the first two runs; here is the third, and the property of all three.
\<close>

lemma vm_messages:
  "renders ''--- Starting test_virtual_memory ---\<newline>'' []" "renders ''Value before enabling paging: 0x%x\<newline>'' [VWord w]"
  "renders ''Calling printf before paging works.\<newline>'' []" "renders ''Enabling virtual memory...\<newline>'' []" "renders ''Virtual memory enabled.\<newline>'' []"
  "renders ''Kernel code execution test: PASSED (still running after kvminithart)\<newline>'' []"
  "renders ''Kernel data access test: PASSED (value is 0x%x)\<newline>'' [VWord w]" "renders ''Kernel data write test: PASSED (new value is 0x%x)\<newline>'' [VWord w]"
  "renders ''Device access test (UART): PASSED (printf with %%d and %%s works: %d, %s)\<newline>'' [VWord 100, VStr (Some (cstr ''OK''))]"
  "renders ''--- test_virtual_memory finished successfully ---\<newline>\<newline>'' []"
  by (simp_all add: renders_def cstr_def ch_def byte_at_def directive_text_def int_directive_def Let_def va_word_def va_str_def)


text \<open>Two stretches of messages, each around one event.\<close>

lemma wp_kvm_on:
  assumes h: "hart {} e c s" and rep: "kmem_rep s (p # xs)" and pool: "67 \<le> length xs"
    and Q: "\<And>s' ns ys. hart {} e c s' \<Longrightarrow> xs = ns @ ys \<Longrightarrow> length ns \<le> 67 \<Longrightarrow> vm_rep s' p ys \<Longrightarrow>
      translate s' p = direct_map (l_etext (k_link s)) \<Longrightarrow> k_testdata s' = k_testdata s \<Longrightarrow> c_satp (k_csr s') = MAKE_SATP p \<Longrightarrow> Q () s'"
  shows "wp (seqM kvminit kvminithart) Q s"
  unfolding wp_simps
proof (rule wp_kvminit [OF h _ rep pool], simp, goal_cases)
  case (1 s1 ns ys)
  have d: "k_pagetable s1 = p" "k_testdata s1 = k_testdata s" using 1(8) [THEN arg_cong, of k_pagetable] 1(8) [THEN arg_cong, of k_testdata] by simp_all
  let ?s2 = "s1\<lparr>k_csr := w_satp (MAKE_SATP p) (k_csr s1)\<rparr>"
  have "intr_get (k_csr s1) = e" using 1(1) by (simp add: hart_def)
  then have h2: "hart {} e c ?s2" using hart_csr [OF 1(1), of "w_satp (MAKE_SATP p) (k_csr s1)"] by simp
  have "vm_rep ?s2 p ys" "translate ?s2 = translate s1" using vm_rep_data(1) [OF 1(1) h2, of p ys] vm_rep_data(3) [OF 1(1) h2] 1(4) by simp_all
  then have "Q () ?s2" using 1 d h2 by (intro Q [OF h2]) (simp_all add: w_satp_def)
  then show ?case using d by (intro wpI [OF kvminithart_run]) simp
qed

lemma testdata_frame: "hart H e c (s\<lparr>k_testdata := v\<rparr>) = hart H e c s" "data (s\<lparr>k_testdata := v\<rparr>) = (data s)\<lparr>k_testdata := v\<rparr>"
  by (simp_all add: hart_def) (simp add: data_def cpu0_def)

lemma wp_test_virtual_memory:
  assumes h: "hart {} e c s" and rep: "kmem_rep s (p # xs)" and pool: "67 \<le> length xs" and td: "k_testdata s = 0xDEADBEEF"
    and Q: "\<And>s' ys. hart {} e c s' \<Longrightarrow> vm_rep s' p ys \<Longrightarrow> translate s' p = direct_map (l_etext (k_link s)) \<Longrightarrow>
      k_testdata s' = 0x12345678 \<Longrightarrow> c_satp (k_csr s') = MAKE_SATP p \<Longrightarrow> Q () s'"
  shows "wp test_virtual_memory Q s"
  unfolding test_virtual_memory_def wp_simps
proof (rule wp_kprint_any [OF h _ vm_messages(1)], simp, rule wp_kprint_any [OF _ _ vm_messages(2)], assumption, simp,
    rule wp_kprint_any [OF _ _ vm_messages(3)], assumption, simp, rule wp_kprint_any [OF _ _ vm_messages(4)], assumption, simp, goal_cases)
  case (1 s1 s2 s3 s4)
  then have d: "data s4 = data s" by simp
  have rep4: "kmem_rep s4 (p # xs)" using rep kmem_rep_hart [OF h] kmem_rep_hart [OF 1(7)] free_pages_data [OF d] by simp
  note f4 = data_eqD(1,11) [OF d]
  have "wp (seqM kvminit kvminithart) (\<lambda>_ s5. hart {} e c s5 \<and> (\<exists>ys. vm_rep s5 p ys) \<and> translate s5 p = direct_map (l_etext (k_link s)) \<and>
      k_testdata s5 = 0xDEADBEEF \<and> c_satp (k_csr s5) = MAKE_SATP p) s4"
    by (rule wp_kvm_on [OF 1(7) rep4 pool]) (use f4 td in auto)
  then obtain t s5 ys where run: "kvminit s4 = Ok () t" "kvminithart t = Ok () s5" and s5: "hart {} e c s5" "vm_rep s5 p ys"
      "translate s5 p = direct_map (l_etext (k_link s))" "k_testdata s5 = 0xDEADBEEF" "c_satp (k_csr s5) = MAKE_SATP p"
    by (auto simp: wp_def seqM_def bindM_def split: res.splits)
  have rest: "Q () s'" if "hart {} e c s'" "data s' = (data s5)\<lparr>k_testdata := 0x12345678\<rparr>" for s'
  proof (rule Q [OF that(1)])
    have f: "k_link s' = k_link s5" "k_mem s' = k_mem s5" "k_freelist s' = k_freelist s5" "k_testdata s' = 0x12345678" "c_satp (k_csr s') = c_satp (k_csr s5)"
      using that(2) [THEN arg_cong, of k_link] that(2) [THEN arg_cong, of k_mem] that(2) [THEN arg_cong, of k_freelist]
        that(2) [THEN arg_cong, of k_testdata] that(2) [THEN arg_cong, of "\<lambda>d. c_satp (k_csr d)"] by simp_all
    note v = vm_rep_data [OF s5(1) that(1) _ f(1-3)]
    show "vm_rep s' p ys" "translate s' p = direct_map (l_etext (k_link s))" "k_testdata s' = 0x12345678" "c_satp (k_csr s') = MAKE_SATP p"
      using v(1) [of p ys] v(3) s5 f by simp_all
  qed
  show ?case
  proof (rule wpI, rule run(1), rule wpI, rule run(2), rule wp_kprint_any [OF s5(1) _ vm_messages(5)], simp,
      rule wp_kprint_any [OF _ _ vm_messages(6)], assumption, simp, goal_cases)
    case (1 s6 s7)
    then have d7: "data s7 = data s5" by simp
    then have t7: "k_testdata s7 = 0xDEADBEEF" using data_eqD(11) s5(4) by metis
    show ?case unfolding t7
    proof (simp add: wp_simps, rule wp_kprint_any [OF 1(3) _ vm_messages(7)], simp, goal_cases)
      case (1 s8)
      let ?s9 = "s8\<lparr>k_testdata := 0x12345678\<rparr>"
      have h9: "hart {} e c ?s9" and d9: "data ?s9 = (data s5)\<lparr>k_testdata := 0x12345678\<rparr>" using 1 d7 by (simp_all add: testdata_frame)
      show ?case
        by (rule wp_kprint_any [OF h9 _ vm_messages(8)], simp, rule wp_kprint_any [OF _ _ vm_messages(9)], assumption, simp,
            rule wp_kprint_any [OF _ _ vm_messages(10)], assumption, simp, rule rest) (use d9 in simp_all)
    qed
  qed
qed

text \<open>C37. The self-tests pass, every assertion included: the allocator's gives all pages back, the page
  table's maps a page and reads its entry back, and the one of virtual memory turns paging on with the
  kernel mapped one to one, reads the word of static data as it was before and writes it.\<close>

theorem self_tests_pass:
  assumes "hart {} e c s" and "kmem_rep s (p # xs)" and "67 \<le> length xs" and "k_testdata s = 0xDEADBEEF"
  shows "(\<exists>s'. test_physical_memory s = Ok () s' \<and> kmem_rep s' (p # xs)) \<and> (\<exists>s'. test_pagetable s = Ok () s')
     \<and> (\<exists>s' ys. test_virtual_memory s = Ok () s' \<and> hart {} e c s' \<and> vm_rep s' p ys \<and> translate s' p = direct_map (l_etext (k_link s))
          \<and> k_testdata s' = 0x12345678 \<and> c_satp (k_csr s') = MAKE_SATP p)"
proof -
  obtain q zs where xs: "xs = q # zs" "2 \<le> length zs" using assms(3) by (cases xs) auto
  have "wp test_virtual_memory (\<lambda>_ s'. \<exists>ys. hart {} e c s' \<and> vm_rep s' p ys \<and> translate s' p = direct_map (l_etext (k_link s))
      \<and> k_testdata s' = 0x12345678 \<and> c_satp (k_csr s') = MAKE_SATP p) s"
    by (rule wp_test_virtual_memory [OF assms]) auto
  then have "\<exists>s' ys. test_virtual_memory s = Ok () s' \<and> hart {} e c s' \<and> vm_rep s' p ys \<and> translate s' p = direct_map (l_etext (k_link s))
      \<and> k_testdata s' = 0x12345678 \<and> c_satp (k_csr s') = MAKE_SATP p" by (auto simp: wp_def)
  then show ?thesis using test_physical_memory_run [of s p q zs] test_pagetable_run [of s p q zs] assms(2) xs by auto
qed

theorem self_tests_pass_witness:
  "\<exists>s1 s2 s3. test_physical_memory (pool_table None True) = Ok () s1 \<and> test_pagetable (pool_table None True) = Ok () s2
     \<and> test_virtual_memory (pool_table None True) = Ok () s3 \<and> k_testdata s3 = 0x12345678"
proof -
  note t = pool_table_ok [where c = None and e = True]
  have "kmem_rep (pool_table None True) (hd pool_pages # tl pool_pages)" "67 \<le> length (tl pool_pages)"
    using t(2) kmem_rep_hart [OF t(1)] pool_pages_split by (simp_all add: ptable_def)
  moreover have "k_testdata (pool_table None True) = 0xDEADBEEF" by (simp add: pool_table_def idle_state_def boot_state_def)
  ultimately show ?thesis using self_tests_pass [OF t(1)] by blast
qed

end
