(* ===== verification/System.thy ===== *)
theory System
  imports Tasks
begin

text \<open>
  The running kernel: the scheduler's loop, the processes it switches to and the timer, as one
  transition system over the kernel state.

  A configuration is what the hart executes (\<open>ctl\<close>), where each process that is not running will
  go on (\<open>frame\<close>: the part of its stack that says which call it is in), and the kernel state. \<open>turn\<close>
  executes the next piece of code between two switches or polls; its arguments are whether a timer
  interrupt is pending, the program counter and the callee-saved registers at that moment. An
  interrupt is taken only where interrupts are enabled.

  The locale \<open>transition_system\<close> states what an invariant and a variant have to satisfy and derives
  that nothing reachable is stuck and that every run reaches its goal; it is interpreted on the
  kernel, whose invariant follows the life of the three processes.
\<close>

section \<open>Definitions\<close>

datatype frame = Fresh | InitStart | InitLoop | InitYielded bool | InitAsleep bool
  | TaskStart | TaskAsleep i32 bool | TaskWaited i32 i32 i32 | Beating | Exited bool
  | Interrupted frame bool u64 u64

datatype ctl = AtPoll | AtSlot nat bool | Running nat frame | Back nat

type_synonym sys = "ctl \<times> (nat \<Rightarrow> frame) \<times> kstate"

definition TIMER :: u64 where "TIMER = 0x8000000000000005"

text \<open>How the test process goes on after \<open>wait_process\<close>; \<open>status\<close> starts at -999.\<close>

definition task_waits :: "i32 \<Rightarrow> wait_result \<Rightarrow> frame + frame" where
  "task_waits pid r = (case r of
     Waited w st \<Rightarrow> Inl (TaskWaited pid w (case st of Some x \<Rightarrow> x | None \<Rightarrow> -999))
   | Asleep p intena regs' \<Rightarrow> Inr (TaskAsleep pid intena))"

definition init_goes_on :: "init_result \<Rightarrow> frame + frame" where
  "init_goes_on r = (case r of InitAgain \<Rightarrow> Inl InitLoop
     | InitYields p intena regs' \<Rightarrow> Inr (InitYielded intena) | InitSleeps p intena regs' \<Rightarrow> Inr (InitAsleep intena))"

text \<open>The next piece of process \<open>p\<close>: \<open>Inl\<close> it still runs, \<open>Inr\<close> it has switched to the scheduler.\<close>

fun run_frame :: "nat \<Rightarrow> frame \<Rightarrow> kcontext \<Rightarrow> kstate \<Rightarrow> (kstate, frame + frame) res" where
  "run_frame p Fresh regs s =
     bindM forkret (\<lambda>fn. bindM (readM k_link) (\<lambda>lm.
       if fn = l_init_task lm then ret (Inl InitStart)
       else if fn = l_simple_task lm then ret (Inl TaskStart) else fail Fault)) s"
| "run_frame p InitStart regs s = seqM init_task_start (ret (Inl InitLoop)) s"
| "run_frame p InitLoop regs s =
     bindM (bindM (wait_process True regs) (init_task_round regs)) (\<lambda>r. ret (init_goes_on r)) s"
| "run_frame p (InitYielded intena) regs s = seqM (yield_resume p intena) (ret (Inl InitLoop)) s"
| "run_frame p (InitAsleep intena) regs s =
     bindM (bindM (wait_resume p True intena regs) (init_task_round regs)) (\<lambda>r. ret (init_goes_on r)) s"
| "run_frame p TaskStart regs s =
     bindM (simple_task regs) (\<lambda>r. case r of
       Parent pid w \<Rightarrow> ret (task_waits pid w) | Child q intena regs' \<Rightarrow> ret (Inr (Exited intena))) s"
| "run_frame p (TaskAsleep pid intena) regs s = bindM (wait_resume p True intena regs) (\<lambda>w. ret (task_waits pid w)) s"
| "run_frame p (TaskWaited pid w status) regs s = seqM (simple_task_waited pid w status) (ret (Inl Beating)) s"
| "run_frame p Beating regs s = seqM simple_task_beat (ret (Inl Beating)) s"
| "run_frame p (Exited intena) regs s = seqM (exit_resume intena) (fail Fault) s"
| "run_frame p (Interrupted f intena sepc sstatus) regs s = seqM (kernelvec_resume p intena sepc sstatus) (ret (Inl f)) s"

text \<open>\<open>intr_on(); intr_off();\<close> with the interrupt that may come in between.\<close>

definition poll_with_tick :: "bool \<Rightarrow> u64 \<Rightarrow> kcontext \<Rightarrow> kstate \<Rightarrow> (kstate, unit) res" where
  "poll_with_tick tick pc regs =
     (if \<not> tick then scheduler_poll else
      seqM (csr_write intr_on)
     (bindM (kernelvec TIMER pc regs) (\<lambda>r. case r of Inl _ \<Rightarrow> csr_write intr_off | Inr _ \<Rightarrow> fail Fault)))"

definition turn :: "bool \<Rightarrow> u64 \<Rightarrow> kcontext \<Rightarrow> ctl \<Rightarrow> (nat \<Rightarrow> frame) \<Rightarrow> kstate \<Rightarrow> (kstate, ctl \<times> (nat \<Rightarrow> frame)) res" where
  "turn tick pc regs ctl fr = (case ctl of
     AtPoll \<Rightarrow> seqM (poll_with_tick tick pc regs) (ret (AtSlot 0 False, fr))
   | AtSlot i found \<Rightarrow>
       if i < NPROC then bindM (scheduler_visit i regs) (\<lambda>r. case r of
         None \<Rightarrow> ret (AtSlot (Suc i) found, fr) | Some regs' \<Rightarrow> ret (Running i (fr i), fr))
       else ret (AtPoll, fr)
   | Back i \<Rightarrow> seqM (scheduler_return i) (ret (AtSlot (Suc i) True, fr))
   | Running p f \<Rightarrow>
       bindM (csr_read intr_get) (\<lambda>on.
       if tick \<and> on then bindM (kernelvec TIMER pc regs) (\<lambda>r. case r of
         Inr (Preempted q intena regs' sepc sstatus) \<Rightarrow> ret (Back p, fr(p := Interrupted f intena sepc sstatus))
       | _ \<Rightarrow> ret (Running p f, fr))
       else bindM (run_frame p f regs) (\<lambda>r. case r of
         Inl f' \<Rightarrow> ret (Running p f', fr) | Inr f' \<Rightarrow> ret (Back p, fr(p := f')))))"

inductive sys_step :: "sys \<Rightarrow> sys \<Rightarrow> bool" where
  turn: "turn tick pc regs ctl fr s = Ok (ctl', fr') s' \<Longrightarrow> sys_step (ctl, fr, s) (ctl', fr', s')"

text \<open>The address of a task is not null, and the two tasks are different functions.\<close>

definition task_addrs :: "linkmap \<Rightarrow> bool" where
  "task_addrs lm \<longleftrightarrow> l_init_task lm \<noteq> 0 \<and> l_simple_task lm \<noteq> 0 \<and> l_init_task lm \<noteq> l_simple_task lm"

section \<open>Transition systems with an invariant and a variant\<close>

locale transition_system =
  fixes step :: "'x \<Rightarrow> 'x \<Rightarrow> bool"
    and inv :: "'x \<Rightarrow> bool"
    and goal :: "'x \<Rightarrow> bool"
    and variant :: "'x \<Rightarrow> nat"
  assumes progress: "inv x \<Longrightarrow> \<exists>x'. step x x'"
    and preserved: "inv x \<Longrightarrow> step x x' \<Longrightarrow> inv x'"
    and decreases: "inv x \<Longrightarrow> \<not> goal x \<Longrightarrow> step x x' \<Longrightarrow> variant x' < variant x"
    and stays: "inv x \<Longrightarrow> goal x \<Longrightarrow> step x x' \<Longrightarrow> goal x'"
begin

lemma run_inv:
  assumes "inv (run 0)" and "\<And>n. step (run n) (run (Suc n))"
  shows "inv (run n)"
  using assms preserved by (induction n) auto

text \<open>Every run reaches the goal, within as many steps as the variant says, and stays there.\<close>

lemma run_reaches:
  assumes i: "inv (run 0)" and s: "\<And>n. step (run n) (run (Suc n))"
  shows "goal (run (variant (run 0) + n))"
proof -
  have bound: "goal (run k) \<or> variant (run k) + k \<le> variant (run 0)" for k
  proof (induction k)
    case (Suc k)
    have iv: "inv (run k)" by (rule run_inv [OF i s])
    show ?case
      using Suc stays [OF iv _ s] decreases [OF iv _ s] by (cases "goal (run k)") auto
  qed simp
  have "goal (run (variant (run 0)))"
    by (rule ccontr) (use bound [of "variant (run 0)"] decreases [OF run_inv [OF i s] _ s, of "variant (run 0)"] in auto)
  then show ?thesis
  proof (induction n)
    case (Suc n)
    then show ?case using stays [OF run_inv [OF i s] _ s, of "variant (run 0) + n"] by simp
  qed simp
qed

text \<open>There is such a run, and it enters the goal at a definite step.\<close>

lemma run_exists:
  assumes "inv x"
  shows "\<exists>run. run 0 = x \<and> (\<forall>n. step (run n) (run (Suc n)))"
proof -
  have "\<exists>run. \<forall>n. (inv (run n) \<and> (n = 0 \<longrightarrow> run n = x)) \<and> step (run n) (run (Suc n))"
    using progress preserved assms by (intro dependent_nat_choice) blast+
  then show ?thesis by blast
qed

lemma run_enters:
  assumes i: "inv (run 0)" and s: "\<And>n. step (run n) (run (Suc n))" and g: "\<not> goal (run 0)"
  obtains n where "n < variant (run 0)" "\<not> goal (run n)" "goal (run (Suc n))"
proof -
  let ?k = "LEAST k. goal (run k)"
  have v: "goal (run (variant (run 0)))" using run_reaches [OF i s, of 0] by simp
  have k: "goal (run ?k)" "?k \<le> variant (run 0)" by (rule LeastI [of "\<lambda>k. goal (run k)", OF v], rule Least_le [of "\<lambda>k. goal (run k)", OF v])
  then obtain n where n: "?k = Suc n" using g by (cases ?k) auto
  then have "\<not> goal (run n)" using not_less_Least [of n "\<lambda>k. goal (run k)"] by simp
  with k n that [of n] show ?thesis by simp
qed

text \<open>What the invariant says holds of everything that can be reached.\<close>

lemma reachable_inv:
  assumes "step\<^sup>*\<^sup>* x x'" and "inv x"
  shows "inv x'"
  using assms by (induction rule: rtranclp_induct) (auto intro: preserved)

end

section \<open>The invariant\<close>

text \<open>The test goes through four phases: before the child is created, while it lives, while it is a
  zombie, and after it has been reaped.\<close>

datatype phase = Before | Spawned | Dead | Done

definition tester_state :: "phase \<Rightarrow> procstate" where
  "tester_state ph = (if ph = Spawned then SLEEPING else RUNNABLE)"

definition child_state :: "phase \<Rightarrow> procstate" where
  "child_state ph = (case ph of Spawned \<Rightarrow> RUNNABLE | Dead \<Rightarrow> ZOMBIE | _ \<Rightarrow> UNUSED)"

definition init_slot :: "linkmap \<Rightarrow> bool \<Rightarrow> procstate \<Rightarrow> proc \<Rightarrow> bool" where
  "init_slot lm fresh st p \<longleftrightarrow> p_state p = st \<and> p_parent p = None \<and> (fresh \<longrightarrow> ctx_s0 (p_context p) = l_init_task lm)"

definition tester_slot :: "linkmap \<Rightarrow> phase \<Rightarrow> procstate \<Rightarrow> proc \<Rightarrow> bool" where
  "tester_slot lm ph st p \<longleftrightarrow> p_state p = st \<and> p_parent p = None \<and> p_killed p = 0
     \<and> (ph = Before \<longrightarrow> ctx_s0 (p_context p) = l_simple_task lm) \<and> (ph = Spawned \<longrightarrow> p_chan p = ChanProc 1)"

definition child_slot :: "linkmap \<Rightarrow> phase \<Rightarrow> procstate \<Rightarrow> proc \<Rightarrow> bool" where
  "child_slot lm ph st p \<longleftrightarrow> p_state p = st \<and> (ph \<in> {Spawned, Dead} \<longrightarrow> p_parent p = Some 1 \<and> p_pid p = 3)
     \<and> (ph = Spawned \<longrightarrow> ctx_s0 (p_context p) = l_simple_task lm) \<and> (ph = Dead \<longrightarrow> p_xstate p = 88)"

definition rest_unused :: "proc list \<Rightarrow> bool" where
  "rest_unused ps \<longleftrightarrow> (\<forall>i. 3 \<le> i \<longrightarrow> i < NPROC \<longrightarrow> p_state (ps ! i) = UNUSED)"

definition resources :: "u64 set \<Rightarrow> phase \<Rightarrow> kstate \<Rightarrow> bool" where
  "resources U ph s \<longleftrightarrow> (\<exists>ys. ptable U s ys \<and> (ph = Before \<longrightarrow> 6 \<le> length ys)) \<and> k_initproc s = Some 0
     \<and> (ph = Before \<longrightarrow> k_nextpid s = 3) \<and> task_addrs (k_link s)"

definition frames_ok :: "phase \<Rightarrow> (nat \<Rightarrow> frame) \<Rightarrow> bool" where
  "frames_ok ph fr \<longleftrightarrow> fr 0 \<in> {Fresh, InitYielded False} \<and> (ph = Before \<longrightarrow> fr 1 = Fresh \<and> fr 2 = Fresh)
     \<and> (ph = Spawned \<longrightarrow> fr 2 = Fresh) \<and> (ph \<in> {Spawned, Dead} \<longrightarrow> fr 1 = TaskAsleep 3 False)"

definition table_at :: "u64 set \<Rightarrow> phase \<Rightarrow> procstate \<Rightarrow> procstate \<Rightarrow> procstate \<Rightarrow> (nat \<Rightarrow> frame) \<Rightarrow> kstate \<Rightarrow> bool" where
  "table_at U ph s0 s1 s2 fr s \<longleftrightarrow> init_slot (k_link s) (fr 0 = Fresh) s0 (k_procs s ! 0) \<and> tester_slot (k_link s) ph s1 (k_procs s ! 1)
     \<and> child_slot (k_link s) ph s2 (k_procs s ! 2) \<and> rest_unused (k_procs s) \<and> resources U ph s \<and> frames_ok ph fr"

text \<open>A process that has just been switched to still holds its lock.\<close>

fun resuming :: "frame \<Rightarrow> bool" where
  "resuming Fresh = True" | "resuming (InitYielded _) = True" | "resuming (TaskAsleep _ _) = True" | "resuming _ = False"

fun sys_inv :: "u64 set \<Rightarrow> sys \<Rightarrow> bool" where
  "sys_inv U (AtPoll, fr, s) \<longleftrightarrow> (\<exists>e ph. ph \<in> {Before, Dead} \<and> hart {} e None s \<and> table_at U ph RUNNABLE RUNNABLE (child_state ph) fr s)"
| "sys_inv U (AtSlot i found, fr, s) \<longleftrightarrow> (\<exists>ph. (if i \<le> 1 then ph \<in> {Before, Dead} else if i = 2 then ph = Spawned else i \<le> NPROC \<and> ph = Dead)
     \<and> hart {} False None s \<and> table_at U ph RUNNABLE (tester_state ph) (child_state ph) fr s)"
| "sys_inv U (Back p, fr, s) \<longleftrightarrow> hart {ProcLock p} False (Some p) s \<and> (\<exists>ph. (p = 0 \<and> ph \<in> {Before, Dead} \<or> p = 1 \<and> ph = Spawned \<or> p = 2 \<and> ph = Dead)
     \<and> table_at U ph RUNNABLE (tester_state ph) (child_state ph) fr s)"
| "sys_inv U (Running p f, fr, s) \<longleftrightarrow>
     hart (if resuming f then {ProcLock p} else {}) False (Some p) s \<and>
     (p = 0 \<and> (\<exists>ph \<in> {Before, Dead}. f \<in> {Fresh, InitStart, InitLoop, InitYielded False} \<and> (f = Fresh \<longrightarrow> fr 0 = Fresh)
        \<and> table_at U ph RUNNING RUNNABLE (child_state ph) fr s)
    \<or> p = 1 \<and> f \<in> {Fresh, TaskStart} \<and> table_at U Before RUNNABLE RUNNING UNUSED fr s
    \<or> p = 1 \<and> f = TaskAsleep 3 False \<and> table_at U Dead RUNNABLE RUNNING ZOMBIE fr s
    \<or> p = 1 \<and> f \<in> {TaskWaited 3 3 88, Beating} \<and> table_at U Done RUNNABLE RUNNING UNUSED fr s
    \<or> p = 2 \<and> f \<in> {Fresh, TaskStart} \<and> table_at U Spawned RUNNABLE SLEEPING RUNNING fr s)"

definition sys_goal :: "sys \<Rightarrow> bool" where
  "sys_goal x \<longleftrightarrow> fst x = Running 1 Beating"

text \<open>How far the round of the scheduler has come, and the variant: the rounds and places left.\<close>

fun place :: "ctl \<Rightarrow> nat" where
  "place AtPoll = 0"
| "place (AtSlot i found) = 10 * i + 1"
| "place (Back p) = 10 * p + 9"
| "place (Running p f) = 10 * p + (case f of InitStart \<Rightarrow> 3 | TaskStart \<Rightarrow> 3 | TaskWaited _ _ _ \<Rightarrow> 3 | InitLoop \<Rightarrow> 4 | Beating \<Rightarrow> 4 | _ \<Rightarrow> 2)"

definition last_round :: "ctl \<Rightarrow> kstate \<Rightarrow> bool" where
  "last_round ctl s \<longleftrightarrow> p_state (k_procs s ! 2) = ZOMBIE \<and> place ctl < 25
     \<or> (case ctl of Running p f \<Rightarrow> (case f of TaskWaited _ _ _ \<Rightarrow> True | Beating \<Rightarrow> True | _ \<Rightarrow> False) | _ \<Rightarrow> False)"

fun sys_variant :: "sys \<Rightarrow> nat" where
  "sys_variant (ctl, fr, s) = (if last_round ctl s then 999 else 1999) - place ctl"

section \<open>What keeps the invariant\<close>

lemma table_at_cong:
  assumes "k_link s' = k_link s" and "k_mem s' = k_mem s" and "k_freelist s' = k_freelist s" and "k_procs s' = k_procs s"
    and "k_initproc s' = k_initproc s" and "k_nextpid s' = k_nextpid s"
  shows "table_at U ph s0 s1 s2 fr s' \<longleftrightarrow> table_at U ph s0 s1 s2 fr s"
  by (simp only: table_at_def resources_def ptable_cong [OF assms(1-4)] assms)

lemma table_at_data:
  assumes "data s' = data s"
  shows "table_at U ph s0 s1 s2 fr s' \<longleftrightarrow> table_at U ph s0 s1 s2 fr s"
  by (rule table_at_cong [OF data_eqD(1,2,4,6,7,8) [OF assms]])

lemma table_atD:
  assumes "table_at U ph s0 s1 s2 fr s"
  obtains ys where "ptable U s ys" "length (k_procs s) = NPROC" "ph = Before \<Longrightarrow> 6 \<le> length ys"
  using assms that by (auto simp: table_at_def resources_def ptable_def)

lemma table_at_states:
  assumes "table_at U ph s0 s1 s2 fr s"
  shows "p_state (k_procs s ! 0) = s0" "p_state (k_procs s ! 1) = s1" "p_state (k_procs s ! 2) = s2"
    "3 \<le> i \<Longrightarrow> i < NPROC \<Longrightarrow> p_state (k_procs s ! i) = UNUSED" "p_parent (k_procs s ! 0) = None" "p_parent (k_procs s ! 1) = None"
  using assms by (simp_all add: table_at_def init_slot_def tester_slot_def child_slot_def rest_unused_def)

lemma table_at_parent:
  assumes "table_at U ph s0 s1 s2 fr s" and "i < NPROC" and "p_parent (k_procs s ! i) = Some q"
  shows "i = 2 \<and> p_state (k_procs s ! 2) \<noteq> UNUSED"
proof -
  obtain ys where pt: "ptable U s ys" using assms(1) by (rule table_atD)
  have u: "p_state (k_procs s ! i) \<noteq> UNUSED" using ptableD(3) [OF pt assms(2)] assms(3) by (auto simp: proc_ok_def)
  have "\<not> 3 \<le> i" using u table_at_states(4) [OF assms(1) _ assms(2)] by auto
  moreover have "i \<noteq> 0" "i \<noteq> 1" using table_at_states(5,6) [OF assms(1)] assms(3) by (cases "i = 0"; cases "i = 1"; simp)+
  ultimately have "i = 2" by simp
  with u show ?thesis by simp
qed

lemma three_slots:
  assumes "i < NPROC"
  obtains "i = 0" | "i = 1" | "i = 2" | "3 \<le> i"
  using assms by linarith

section \<open>The scheduler's steps\<close>

lemma hart_poll: "hart {} e c s \<Longrightarrow> hart {} False c (s\<lparr>k_csr := intr_off (k_csr s)\<rparr>)" "hart {} e c s \<Longrightarrow> hart {} True c (s\<lparr>k_csr := intr_on (k_csr s)\<rparr>)"
  using hart_csr [of "{}" e c s "intr_off (k_csr s)"] hart_csr [of "{}" e c s "intr_on (k_csr s)"]
  by (simp_all add: intr_off_eq intr_on_eq del: intr_get_off intr_get_on) (simp_all add: intr_get_bit bit_simps bit_SIE)

lemma data_intr: "data (s\<lparr>k_csr := intr_on (k_csr s)\<rparr>) = data s" "data (s\<lparr>k_csr := intr_off (k_csr s)\<rparr>) = data s"
  by (simp_all add: data_def intr_on_eq intr_off_eq cpu0_def)

lemma wp_poll:
  assumes h: "hart {} e None s" and n: "length (k_procs s) = NPROC"
    and Q: "\<And>s'. hart {} False None s' \<Longrightarrow> data s' = (if tick then ticked None (entered TIMER pc (data s)) else data s) \<Longrightarrow> Q () s'"
  shows "wp (poll_with_tick tick pc regs) Q s"
proof (cases tick)
  case False
  let ?s1 = "s\<lparr>k_csr := intr_on (k_csr s)\<rparr>"
  let ?s2 = "?s1\<lparr>k_csr := intr_off (k_csr ?s1)\<rparr>"
  have "hart {} False None ?s2" by (rule hart_poll(1) [OF hart_poll(2) [OF h]])
  moreover have "data ?s2 = data s" using data_intr(2) [of ?s1] data_intr(1) [of s] by (rule trans)
  ultimately show ?thesis using Q [of ?s2] False by (simp add: poll_with_tick_def scheduler_poll_def wp_def exec_simps)
next
  case True
  let ?s1 = "s\<lparr>k_csr := intr_on (k_csr s)\<rparr>"
  obtain s2 where s2: "kernelvec TIMER pc regs ?s1 = Ok (Inl pc) s2" "hart {} True None s2" "data s2 = ticked None (entered TIMER pc (data s))"
    by (rule wpE [OF wp_kernelvec_idle [OF hart_poll(2) [OF h], where pc = pc and regs = regs and Q = "\<lambda>r s'. r = Inl pc \<and> hart {} True None s' \<and>
        data s' = ticked None (entered TIMER pc (data s))"]]) (use n data_intr(1) [of s] in \<open>auto simp: TIMER_def\<close>)
  have "Q () (s2\<lparr>k_csr := intr_off (k_csr s2)\<rparr>)"
    by (rule Q [OF hart_poll(1) [OF s2(2)]]) (use s2(3) data_intr(2) [of s2] True in simp)
  then show ?thesis using s2(1) True by (simp add: poll_with_tick_def wp_def exec_simps)
qed

text \<open>A tick wakes nobody: no process sleeps on the clock.\<close>

lemma ticked_procs:
  assumes "table_at U ph s0 s1 s2 fr s" and "SLEEPING \<notin> {s0, s1, s2}"
  shows "woken ChanTicks None (k_procs s) = k_procs s"
proof -
  obtain ys where n: "length (k_procs s) = NPROC" using assms(1) by (rule table_atD)
  have "p_state (k_procs s ! i) \<noteq> SLEEPING" if "i < NPROC" for i
    using table_at_states [OF assms(1)] assms(2) that by (cases rule: three_slots [OF that]) auto
  then show ?thesis using n by (intro nth_equalityI) (auto simp: nth_woken woken_proc_def)
qed

text \<open>The obligation of every step: the invariant again, and a smaller variant.\<close>

definition good :: "u64 set \<Rightarrow> sys \<Rightarrow> ctl \<times> (nat \<Rightarrow> frame) \<Rightarrow> kstate \<Rightarrow> bool" where
  "good U x r s' \<longleftrightarrow> sys_inv U (fst r, snd r, s') \<and> (sys_goal x \<longrightarrow> sys_goal (fst r, snd r, s'))
     \<and> (sys_goal x \<or> sys_variant (fst r, snd r, s') < sys_variant x)"

lemma turn_poll:
  assumes "sys_inv U (AtPoll, fr, s)"
  shows "wp (turn tick pc regs AtPoll fr) (good U (AtPoll, fr, s)) s"
proof -
  obtain e ph where h: "ph \<in> {Before, Dead}" "hart {} e None s" and t: "table_at U ph RUNNABLE RUNNABLE (child_state ph) fr s"
    using assms by auto
  obtain ys where n: "length (k_procs s) = NPROC" using t by (rule table_atD)
  have w: "woken ChanTicks None (k_procs s) = k_procs s" by (rule ticked_procs [OF t]) (use h(1) in \<open>auto simp: child_state_def\<close>)
  show ?thesis
    unfolding turn_def ctl.case wp_simps
  proof (rule wp_poll [OF h(2) n])
    fix s'
    assume s': "hart {} False None s'" and d: "data s' = (if tick then ticked None (entered TIMER pc (data s)) else data s)"
    have f: "k_link s' = k_link s" "k_mem s' = k_mem s" "k_freelist s' = k_freelist s" "k_procs s' = k_procs s" "k_initproc s' = k_initproc s" "k_nextpid s' = k_nextpid s"
      using d [THEN arg_cong, of k_link] d [THEN arg_cong, of k_mem] d [THEN arg_cong, of k_freelist] d [THEN arg_cong, of k_procs]
        d [THEN arg_cong, of k_initproc] d [THEN arg_cong, of k_nextpid] w by (simp_all add: ticked_def entered_def split: if_splits)
    have "table_at U ph RUNNABLE RUNNABLE (child_state ph) fr s'" using t table_at_cong [OF f] by simp
    then show "good U (AtPoll, fr, s) (AtSlot 0 False, fr) s'"
      using s' h(1) f(4) by (auto simp: good_def sys_goal_def tester_state_def last_round_def)
  qed
qed

text \<open>Changing one slot, and none of the pages it owns.\<close>

definition slot_set :: "nat \<Rightarrow> proc \<Rightarrow> kstate \<Rightarrow> kstate \<Rightarrow> bool" where
  "slot_set i p s s' \<longleftrightarrow> k_link s' = k_link s \<and> k_mem s' = k_mem s \<and> k_freelist s' = k_freelist s \<and> k_procs s' = (k_procs s)[i := p]
     \<and> k_initproc s' = k_initproc s \<and> k_nextpid s' = k_nextpid s"

lemma resources_set:
  assumes "resources U ph s" and "i < NPROC" and "same_pages (k_procs s ! i) p" and "slot_set i p s s'"
  shows "resources U ph s'"
proof -
  obtain ys where ys: "ptable U s ys" "ph = Before \<longrightarrow> 6 \<le> length ys" using assms(1) by (auto simp: resources_def)
  have "ptable U s' ys"
    using ptable_update [OF ys(1) assms(2,3)] ptable_cong [of s' "s\<lparr>k_procs := (k_procs s)[i := p]\<rparr>"] assms(4) by (simp add: slot_set_def)
  then show ?thesis using assms(1,4) ys(2) by (auto simp: resources_def slot_set_def)
qed

lemma slot_set_switched: "data s' = switched i regs f (data s) \<Longrightarrow> slot_set i ((f (k_procs s ! i))\<lparr>p_context := regs\<rparr>) s s'"
  by (drule arg_cong [where f = "\<lambda>d. (k_link d, k_mem d, k_freelist d, k_procs d, k_initproc d, k_nextpid d)"])
     (simp add: slot_set_def switched_def)

lemma slot_set_dispatched: "data s' = dispatched i regs s \<Longrightarrow> slot_set i ((k_procs s ! i)\<lparr>p_state := RUNNING\<rparr>) s s'"
  by (drule arg_cong [where f = "\<lambda>d. (k_link d, k_mem d, k_freelist d, k_procs d, k_initproc d, k_nextpid d)"])
     (simp add: slot_set_def dispatched_def)

lemma rest_unused_set: "rest_unused ps \<Longrightarrow> i < 3 \<Longrightarrow> rest_unused (ps[i := p])"
  by (simp add: rest_unused_def)

text \<open>A visit that finds nothing to run, and one that switches.\<close>

lemma turn_idle:
  assumes h: "hart {} False None s" and i: "i < NPROC" "length (k_procs s) = NPROC" "p_state (k_procs s ! i) \<noteq> RUNNABLE"
    and Q: "\<And>s'. hart {} False None s' \<Longrightarrow> data s' = data s \<Longrightarrow> Q (AtSlot (Suc i) found, fr) s'"
  shows "wp (turn tick pc regs (AtSlot i found) fr) Q s"
  unfolding turn_def ctl.case if_P [OF i(1)] wp_bindM
  by (rule wp_scheduler_visit_idle [OF h]) (use i Q in \<open>simp_all add: wp_ret\<close>)

lemma turn_dispatch:
  assumes h: "hart {} False None s" and i: "i < NPROC" "length (k_procs s) = NPROC" "p_state (k_procs s ! i) = RUNNABLE"
    and Q: "\<And>s'. hart {ProcLock i} False (Some i) s' \<Longrightarrow> slot_set i ((k_procs s ! i)\<lparr>p_state := RUNNING\<rparr>) s s' \<Longrightarrow> Q (Running i (fr i), fr) s'"
  shows "wp (turn tick pc regs (AtSlot i found) fr) Q s"
  unfolding turn_def ctl.case if_P [OF i(1)] wp_bindM
  by (rule wp_scheduler_visit_run [OF h]) (use i Q slot_set_dispatched in \<open>simp_all add: wp_ret\<close>)

lemma table_at_dispatch:
  assumes t: "table_at U ph s0 s1 s2 fr s" and ss: "slot_set i ((k_procs s ! i)\<lparr>p_state := RUNNING\<rparr>) s s'"
    and i: "i < 3" "p_state (k_procs s ! i) \<noteq> UNUSED"
  shows "table_at U ph (if i = 0 then RUNNING else s0) (if i = 1 then RUNNING else s1) (if i = 2 then RUNNING else s2) fr s'"
proof -
  obtain ys where n: "length (k_procs s) = NPROC" using t by (rule table_atD)
  have "resources U ph s'"
    using t i by (intro resources_set [OF _ _ _ ss]) (auto simp: table_at_def same_pages_def NPROC_def)
  moreover have "rest_unused (k_procs s')" using t ss i by (simp add: table_at_def slot_set_def rest_unused_set)
  moreover have "k_link s' = k_link s" "k_procs s' = (k_procs s)[i := (k_procs s ! i)\<lparr>p_state := RUNNING\<rparr>]" using ss by (simp_all add: slot_set_def)
  moreover have "i = 0 \<or> i = 1 \<or> i = 2" using i(1) by linarith
  ultimately show ?thesis
    using t n by (elim disjE) (simp_all add: table_at_def NPROC_def init_slot_def tester_slot_def child_slot_def)
qed

lemma goodI: "\<not> sys_goal x \<Longrightarrow> sys_inv U (ctl, fr, s') \<Longrightarrow> sys_variant (ctl, fr, s') < sys_variant x \<Longrightarrow> good U x (ctl, fr) s'"
  by (simp add: good_def)

text \<open>The steps of a round, one kind of slot at a time.\<close>

lemma turn_slot_end:
  assumes "hart {} False None s" and "table_at U Dead RUNNABLE RUNNABLE ZOMBIE fr s"
  shows "wp (turn tick pc regs (AtSlot NPROC found) fr) (good U (AtSlot NPROC found, fr, s)) s"
proof -
  have "good U (AtSlot NPROC found, fr, s) (AtPoll, fr) s"
  proof (rule goodI)
    show "sys_inv U (AtPoll, fr, s)"
      unfolding sys_inv.simps using assms by (intro exI [of _ False] exI [of _ Dead]) (simp add: child_state_def)
    show "sys_variant (AtPoll, fr, s) < sys_variant (AtSlot NPROC found, fr, s)"
      using table_at_states(3) [OF assms(2)] by (simp add: last_round_def NPROC_def)
  qed (simp add: sys_goal_def)
  then show ?thesis by (simp add: turn_def wp_ret)
qed

lemma turn_slot_rest:
  assumes h: "hart {} False None s" and t: "table_at U Dead RUNNABLE RUNNABLE ZOMBIE fr s" and i: "3 \<le> i" "i < NPROC"
  shows "wp (turn tick pc regs (AtSlot i found) fr) (good U (AtSlot i found, fr, s)) s"
proof -
  obtain ys where n: "length (k_procs s) = NPROC" using t by (rule table_atD)
  show ?thesis
  proof (rule turn_idle [OF h i(2) n])
    show "p_state (k_procs s ! i) \<noteq> RUNNABLE" using table_at_states(4) [OF t i] by simp
    fix s'
    assume s': "hart {} False None s'" "data s' = data s"
    show "good U (AtSlot i found, fr, s) (AtSlot (Suc i) found, fr) s'"
    proof (rule goodI)
      show "sys_inv U (AtSlot (Suc i) found, fr, s')"
        using s' t i table_at_data [OF s'(2)] by (simp add: tester_state_def child_state_def)
      have "i < 64" using i by (simp add: NPROC_def)
      then show "sys_variant (AtSlot (Suc i) found, fr, s') < sys_variant (AtSlot i found, fr, s)"
        using i(1) by (simp add: last_round_def)
    qed (simp add: sys_goal_def)
  qed
qed

lemma turn_slot_run:
  assumes h: "hart {} False None s" and t: "table_at U ph RUNNABLE (tester_state ph) (child_state ph) fr s"
    and i: "i = 0 \<and> ph \<in> {Before, Dead} \<or> i = 1 \<and> ph \<in> {Before, Dead} \<or> i = 2 \<and> ph = Spawned"
  shows "wp (turn tick pc regs (AtSlot i found) fr) (good U (AtSlot i found, fr, s)) s"
proof -
  obtain ys where n: "length (k_procs s) = NPROC" using t by (rule table_atD)
  have run: "p_state (k_procs s ! i) = RUNNABLE" and i': "i < NPROC" "i < 3"
    using table_at_states [OF t] i by (auto simp: tester_state_def child_state_def NPROC_def)
  have fo: "frames_ok ph fr" using t by (simp add: table_at_def)
  show ?thesis
  proof (rule turn_dispatch [OF h i'(1) n run])
    fix s'
    assume s': "hart {ProcLock i} False (Some i) s'" "slot_set i ((k_procs s ! i)\<lparr>p_state := RUNNING\<rparr>) s s'"
    have t': "table_at U ph (if i = 0 then RUNNING else RUNNABLE) (if i = 1 then RUNNING else tester_state ph) (if i = 2 then RUNNING else child_state ph) fr s'"
      by (rule table_at_dispatch [OF t s'(2) i'(2)]) (simp add: run)
    show "good U (AtSlot i found, fr, s) (Running i (fr i), fr) s'"
    proof (rule goodI)
      show "sys_inv U (Running i (fr i), fr, s')"
        using i s'(1) t' fo by (elim disjE conjE; cases ph) (auto simp: frames_ok_def tester_state_def child_state_def)
      have fi: "fr i \<in> {Fresh, InitYielded False, TaskAsleep 3 False}" using i fo by (auto simp: frames_ok_def)
      have "p_state (k_procs s' ! 2) = ZOMBIE \<longleftrightarrow> p_state (k_procs s ! 2) = ZOMBIE"
        using s'(2) run n i' by (cases "i = 2") (simp_all add: slot_set_def NPROC_def)
      then have "last_round (AtSlot i found) s = last_round (Running i (fr i)) s'" "place (Running i (fr i)) = 10 * i + 2"
        using fi i'(2) by (auto simp: last_round_def)
      then show "sys_variant (Running i (fr i), fr, s') < sys_variant (AtSlot i found, fr, s)"
        using i'(2) by auto
    qed (simp add: sys_goal_def)
  qed
qed

lemma turn_slot:
  assumes "sys_inv U (AtSlot i found, fr, s)"
  shows "wp (turn tick pc regs (AtSlot i found) fr) (good U (AtSlot i found, fr, s)) s"
proof -
  obtain ph where ph: "if i \<le> 1 then ph \<in> {Before, Dead} else if i = 2 then ph = Spawned else i \<le> NPROC \<and> ph = Dead"
      and h: "hart {} False None s" and t: "table_at U ph RUNNABLE (tester_state ph) (child_state ph) fr s"
    using assms by auto
  consider "i \<le> 2" | "3 \<le> i" "i < NPROC" | "i = NPROC" using ph by (fastforce split: if_splits)
  then show ?thesis
  proof cases
    case 1
    then have "i = 0 \<and> ph \<in> {Before, Dead} \<or> i = 1 \<and> ph \<in> {Before, Dead} \<or> i = 2 \<and> ph = Spawned" using ph by (auto split: if_splits)
    then show ?thesis by (rule turn_slot_run [OF h t])
  next
    case 2
    then have "ph = Dead" using ph by simp
    then show ?thesis using turn_slot_rest [OF h _ 2] t by (simp add: tester_state_def child_state_def)
  next
    case 3
    then have "ph = Dead" using ph by (simp add: NPROC_def)
    then show ?thesis using turn_slot_end [OF h] t 3 by (simp add: tester_state_def child_state_def)
  qed
qed

lemma turn_back:
  assumes "sys_inv U (Back p, fr, s)"
  shows "wp (turn tick pc regs (Back p) fr) (good U (Back p, fr, s)) s"
proof -
  obtain ph where h: "hart {ProcLock p} False (Some p) s" and ph: "p = 0 \<and> ph \<in> {Before, Dead} \<or> p = 1 \<and> ph = Spawned \<or> p = 2 \<and> ph = Dead"
      and t: "table_at U ph RUNNABLE (tester_state ph) (child_state ph) fr s" using assms by auto
  show ?thesis
    unfolding turn_def ctl.case wp_simps
  proof (rule wp_scheduler_return [OF h])
    fix s'
    assume s': "hart {} False None s'" "data s' = data s"
    show "good U (Back p, fr, s) (AtSlot (Suc p) True, fr) s'"
      using s' ph t table_at_data [OF s'(2)] data_eqD(6) [OF s'(2)] table_at_states(3) [OF t]
      by (auto simp: good_def sys_goal_def last_round_def child_state_def NPROC_def)
  qed
qed

section \<open>The processes' steps\<close>

text \<open>While a process runs interrupts are off, so the timer does not get in.\<close>

lemma hart_intr_off: "hart H False c s \<Longrightarrow> \<not> intr_get (k_csr s)"
  using hartD(7) [of H False c s] by (cases "H = {}") (auto simp: hart_def)

lemma turn_running:
  assumes "hart H False c s"
    and "wp (run_frame p f regs) (\<lambda>r. case r of Inl f' \<Rightarrow> Q (Running p f', fr) | Inr f' \<Rightarrow> Q (Back p, fr(p := f'))) s"
  shows "wp (turn tick pc regs (Running p f) fr) Q s"
proof -
  obtain r s' where "run_frame p f regs s = Ok r s'" "(case r of Inl f' \<Rightarrow> Q (Running p f', fr) | Inr f' \<Rightarrow> Q (Back p, fr(p := f'))) s'"
    using assms(2) by (auto simp: wp_def)
  then show ?thesis
    using hart_intr_off [OF assms(1)] by (cases r) (auto simp: turn_def wp_def exec_simps)
qed

lemma wp_run_frame:
  "wp (run_frame p InitStart regs) Q = wp (seqM init_task_start (ret (Inl InitLoop))) Q"
  "wp (run_frame p InitLoop regs) Q = wp (bindM (bindM (wait_process True regs) (init_task_round regs)) (\<lambda>r. ret (init_goes_on r))) Q"
  "wp (run_frame p (InitYielded intena) regs) Q = wp (seqM (yield_resume p intena) (ret (Inl InitLoop))) Q"
  "wp (run_frame p TaskStart regs) Q = wp (bindM (simple_task regs) (\<lambda>r. case r of
       Parent pid w \<Rightarrow> ret (task_waits pid w) | Child q intena regs' \<Rightarrow> ret (Inr (Exited intena)))) Q"
  "wp (run_frame p (TaskAsleep pid intena) regs) Q = wp (bindM (wait_resume p True intena regs) (\<lambda>w. ret (task_waits pid w))) Q"
  "wp (run_frame p (TaskWaited pid w status) regs) Q = wp (seqM (simple_task_waited pid w status) (ret (Inl Beating))) Q"
  "wp (run_frame p Beating regs) Q = wp (seqM simple_task_beat (ret (Inl Beating))) Q"
  by (simp_all add: wp_def fun_eq_iff)

text \<open>A process goes on without changing the table.\<close>

definition table_kept :: "kstate \<Rightarrow> kstate \<Rightarrow> bool" where
  "table_kept s s' \<longleftrightarrow> k_link s' = k_link s \<and> k_mem s' = k_mem s \<and> k_freelist s' = k_freelist s \<and> k_procs s' = k_procs s
     \<and> k_initproc s' = k_initproc s \<and> k_nextpid s' = k_nextpid s"

lemma table_kept_data:
  assumes "data s' = data s \<or> data s' = (data s)\<lparr>k_first := b\<rparr>"
  shows "table_kept s s'"
  using assms by (elim disjE; drule_tac f = "\<lambda>d. (k_link d, k_mem d, k_freelist d, k_procs d, k_initproc d, k_nextpid d)" in arg_cong)
    (simp_all add: table_kept_def)

lemma table_kept_at: "table_kept s s' \<Longrightarrow> table_at U ph s0 s1 s2 fr s' \<longleftrightarrow> table_at U ph s0 s1 s2 fr s"
  unfolding table_kept_def using table_at_cong [of s' s] by blast

lemma turn_goes_on:
  assumes run: "wp (run_frame p f regs) (\<lambda>r s'. r = Inl f' \<and> hart {} False (Some p) s' \<and> table_kept s s') s"
    and h: "hart H False (Some p) s"
    and inv: "\<And>s'. hart {} False (Some p) s' \<Longrightarrow> table_kept s s' \<Longrightarrow> sys_inv U (Running p f', fr, s')"
    and var: "f = Beating \<and> f' = Beating \<or> place (Running p f) < place (Running p f') \<and> place (Running p f') < 25"
      "\<And>s'. last_round (Running p f) s \<Longrightarrow> k_procs s' = k_procs s \<Longrightarrow> last_round (Running p f') s'"
    and goal: "p = 1 \<or> f \<noteq> Beating"
  shows "wp (turn tick pc regs (Running p f) fr) (good U (Running p f, fr, s)) s"
proof (rule turn_running [OF h], rule wp_mono [OF run])
  fix r :: "frame + frame" and s'
  assume r: "r = Inl f' \<and> hart {} False (Some p) s' \<and> table_kept s s'"
  then have "sys_inv U (Running p f', fr, s')" using inv by blast
  moreover have "sys_goal (Running p f, fr, s) \<or> sys_variant (Running p f', fr, s') < sys_variant (Running p f, fr, s)"
    using var(1) var(2) [of s'] goal r by (auto simp: sys_goal_def table_kept_def)
  moreover have "sys_goal (Running p f, fr, s) \<longrightarrow> sys_goal (Running p f', fr, s')"
    using var(1) by (cases f') (auto simp: sys_goal_def)
  ultimately have "good U (Running p f, fr, s) (Running p f', fr) s'" by (simp add: good_def)
  then show "(case r of Inl f' \<Rightarrow> good U (Running p f, fr, s) (Running p f', fr) | Inr f' \<Rightarrow> good U (Running p f, fr, s) (Back p, fr(p := f'))) s'"
    using r by simp
qed

lemma turn_fresh:
  assumes "sys_inv U (Running p Fresh, fr, s)"
  shows "wp (turn tick pc regs (Running p Fresh) fr) (good U (Running p Fresh, fr, s)) s"
proof -
  have h: "hart {ProcLock p} False (Some p) s" using assms by simp
  obtain ph s0 s1 s2 where t: "table_at U ph s0 s1 s2 fr s" and p: "p = 0 \<and> fr 0 = Fresh \<or> p = 1 \<and> ph = Before \<or> p = 2 \<and> ph = Spawned"
    using assms by auto
  obtain ys where n: "length (k_procs s) = NPROC" using t by (rule table_atD)
  have lm: "task_addrs (k_link s)" using t by (simp add: table_at_def resources_def)
  let ?entry = "if p = 0 then l_init_task (k_link s) else l_simple_task (k_link s)" and ?f = "if p = 0 then InitStart else TaskStart"
  have entry: "ctx_s0 (p_context (k_procs s ! p)) = ?entry"
    using t p by (auto simp: table_at_def init_slot_def tester_slot_def child_slot_def)
  have "wp forkret (\<lambda>fn s'. fn = ?entry \<and> hart {} False (Some p) s' \<and> data s' = (data s)\<lparr>k_first := False\<rparr>) s"
    by (rule wp_forkret [OF h]) (use entry lm p n in \<open>auto simp: task_addrs_def NPROC_def\<close>)
  then obtain s' where s': "forkret s = Ok ?entry s'" "hart {} False (Some p) s'" "data s' = (data s)\<lparr>k_first := False\<rparr>"
    by (auto simp: wp_def)
  then have k: "table_kept s s'" using table_kept_data [of s' s False] by simp
  then have "wp (run_frame p Fresh regs) (\<lambda>r s'. r = Inl ?f \<and> hart {} False (Some p) s' \<and> table_kept s s') s"
    using s' lm by (auto simp: wp_def exec_simps task_addrs_def table_kept_def)
  then show ?thesis
  proof (rule turn_goes_on [OF _ h])
    fix t assume "hart {} False (Some p) t" "table_kept s t"
    then show "sys_inv U (Running p ?f, fr, t)" using assms p table_kept_at [of s t] by (auto split: if_splits)
  qed (use p in \<open>auto simp: last_round_def\<close>)
qed

lemma turn_same_data:
  assumes "sys_inv U (Running p f, fr, s)" and "(f, f') \<in> {(InitStart, InitLoop), (InitYielded False, InitLoop), (TaskWaited 3 3 88, Beating), (Beating, Beating)}"
  shows "wp (turn tick pc regs (Running p f) fr) (good U (Running p f, fr, s)) s"
proof -
  have h: "hart (if resuming f then {ProcLock p} else {}) False (Some p) s" using assms(1) by simp
  have "p < NPROC" using assms(1) by (auto simp: NPROC_def)
  moreover obtain ph s0 s1 s2 where "table_at U ph s0 s1 s2 fr s" using assms(1) by auto
  then obtain ys where n: "length (k_procs s) = NPROC" by (rule table_atD)
  ultimately have "wp (run_frame p f regs) (\<lambda>r s'. r = Inl f' \<and> hart {} False (Some p) s' \<and> table_kept s s') s"
    using assms(2) h by (auto simp: wp_run_frame wp_simps intro!: wp_init_task_start wp_yield_resume wp_simple_task_passed wp_simple_task_beat table_kept_data)
  then show ?thesis
  proof (rule turn_goes_on [OF _ h])
    fix t assume "hart {} False (Some p) t" "table_kept s t"
    then show "sys_inv U (Running p f', fr, t)" using assms table_kept_at [of s t] by auto
  qed (use assms in \<open>auto simp: last_round_def\<close>)
qed

text \<open>The processes' steps that end in a switch to the scheduler.\<close>

lemma no_kids:
  assumes t: "table_at U ph s0 s1 s2 fr s" and q: "s2 = UNUSED \<or> ph \<in> {Spawned, Dead} \<and> q \<noteq> 1"
  shows "\<not> has_kid (Some q) [0..<NPROC] (k_procs s)"
proof
  assume "has_kid (Some q) [0..<NPROC] (k_procs s)"
  then obtain i where i: "i < NPROC" "p_parent (k_procs s ! i) = Some q" by (auto simp: has_kid_def)
  then have "i = 2" "p_state (k_procs s ! 2) \<noteq> UNUSED" using table_at_parent [OF t] by blast+
  then show False using t i q by (auto simp: table_at_def child_slot_def)
qed

lemma good_back:
  assumes "sys_inv U (Back p, fr', s')" and "p < 3" and "case f of TaskWaited _ _ _ \<Rightarrow> False | Beating \<Rightarrow> False | _ \<Rightarrow> True"
    and "p_state (k_procs s ! 2) = ZOMBIE \<Longrightarrow> p_state (k_procs s' ! 2) = ZOMBIE \<and> p \<le> 1"
  shows "good U (Running p f, fr, s) (Back p, fr') s'"
proof (rule goodI [OF _ assms(1)])
  show "\<not> sys_goal (Running p f, fr, s)" using assms(3) by (auto simp: sys_goal_def)
  have "last_round (Back p) s'" if "last_round (Running p f) s"
    using that assms(2-4) by (cases f) (auto simp: last_round_def)
  then show "sys_variant (Back p, fr', s') < sys_variant (Running p f, fr, s)"
    using assms(2) by (cases f) auto
qed

lemma turn_init_loop:
  assumes "sys_inv U (Running 0 InitLoop, fr, s)"
  shows "wp (turn tick pc regs (Running 0 InitLoop) fr) (good U (Running 0 InitLoop, fr, s)) s"
proof -
  have h: "hart {} False (Some 0) s" using assms by simp
  obtain ph where ph: "ph \<in> {Before, Dead}" and t: "table_at U ph RUNNING RUNNABLE (child_state ph) fr s" using assms by auto
  obtain ys where n: "length (k_procs s) = NPROC" using t by (rule table_atD)
  have kids: "\<not> has_kid (Some 0) [0..<NPROC] (k_procs s)" by (rule no_kids [OF t]) (use ph in \<open>auto simp: child_state_def\<close>)
  have "0 < NPROC" "2 < NPROC" by (simp_all add: NPROC_def)
  show ?thesis
  proof (rule turn_running [OF h], unfold wp_run_frame wp_bindM wp_ret, rule wp_init_idle [unfolded wp_bindM, OF h n \<open>0 < NPROC\<close> kids])
    fix s'
    assume s': "hart {ProcLock 0} False (Some 0) s'" "data s' = switched 0 regs (p_state_update (\<lambda>_. RUNNABLE)) (data s)"
    note ss = slot_set_switched [OF s'(2)]
    have procs: "k_procs s' = (k_procs s)[0 := (k_procs s ! 0)\<lparr>p_state := RUNNABLE, p_context := regs\<rparr>]" and lm: "k_link s' = k_link s"
      using ss by (simp_all add: slot_set_def)
    have "resources U ph s'"
      by (rule resources_set [OF _ _ _ ss]) (use t in \<open>auto simp: table_at_def same_pages_def NPROC_def init_slot_def\<close>)
    moreover have "rest_unused (k_procs s')" using t procs by (simp add: table_at_def rest_unused_set)
    ultimately have "table_at U ph RUNNABLE (tester_state ph) (child_state ph) (fr(0 := InitYielded False)) s'"
      using t ph n \<open>0 < NPROC\<close> by (auto simp: table_at_def procs lm init_slot_def frames_ok_def tester_state_def)
    then have "good U (Running 0 InitLoop, fr, s) (Back 0, fr(0 := InitYielded False)) s'"
      using s'(1) ph procs by (intro good_back) auto
    then show "(case init_goes_on (InitYields 0 False (cpu_context (cpu0 s))) of
        Inl f' \<Rightarrow> good U (Running 0 InitLoop, fr, s) (Running 0 f', fr) | Inr f' \<Rightarrow> good U (Running 0 InitLoop, fr, s) (Back 0, fr(0 := f'))) s'"
      by (simp add: init_goes_on_def)
  qed
qed

text \<open>The child exits: it becomes a zombie and its parent, asleep in \<open>wait_process\<close>, is woken.\<close>

lemma left_behind_child:
  assumes t: "table_at U Spawned RUNNABLE SLEEPING RUNNING fr s"
  shows "left_behind 2 (Some 0) (k_procs s) = (k_procs s)[1 := (k_procs s ! 1)\<lparr>p_state := RUNNABLE\<rparr>]"
proof -
  obtain ys where n: "length (k_procs s) = NPROC" using t by (rule table_atD)
  have kids: "\<not> has_kid (Some 2) [0..<NPROC] (k_procs s)" by (rule no_kids [OF t]) auto
  then have "\<not> orphan_zombie NPROC (Some 2) (k_procs s)" by (auto simp: has_kid_def orphan_zombie_def)
  moreover have "map (\<lambda>i. if i < NPROC then adopted (Some 2) (Some 0) (k_procs s ! i) else k_procs s ! i) [0..<NPROC] = k_procs s"
    using kids n by (intro nth_equalityI) (auto simp: adopted_def has_kid_def)
  ultimately have "reparented_upto NPROC (Some 2) (Some 0) (k_procs s) = k_procs s" using n by (simp add: reparented_upto_def Let_def)
  moreover have "p_parent (k_procs s ! 2) = Some 1" using t by (simp add: table_at_def child_slot_def)
  ultimately have lb: "left_behind 2 (Some 0) (k_procs s) = woken (ChanProc 1) (Some 2) (k_procs s)"
    using n by (simp add: left_behind_def)
  have one: "p_state (k_procs s ! 1) = SLEEPING" "p_chan (k_procs s ! 1) = ChanProc 1" using t by (simp_all add: table_at_def tester_slot_def)
  show ?thesis
  proof (unfold lb, rule nth_equalityI)
    fix i assume "i < length (woken (ChanProc 1) (Some 2) (k_procs s))"
    then have i: "i < NPROC" using n by simp
    show "woken (ChanProc 1) (Some 2) (k_procs s) ! i = (k_procs s)[1 := (k_procs s ! 1)\<lparr>p_state := RUNNABLE\<rparr>] ! i"
      using i n one table_at_states [OF t] by (cases rule: three_slots [OF i]) (auto simp: nth_woken woken_proc_def)
  qed simp
qed

lemma turn_child:
  assumes "sys_inv U (Running 2 TaskStart, fr, s)"
  shows "wp (turn tick pc regs (Running 2 TaskStart) fr) (good U (Running 2 TaskStart, fr, s)) s"
proof -
  have h: "hart {} False (Some 2) s" and t: "table_at U Spawned RUNNABLE SLEEPING RUNNING fr s" using assms by auto
  obtain ys where pt: "ptable U s ys" and n: "length (k_procs s) = NPROC" using t by (rule table_atD)
  have par: "p_parent (k_procs s ! 2) = Some 1" "k_initproc s = Some 0" using t by (simp_all add: table_at_def child_slot_def resources_def)
  have two: "2 < NPROC" "1 < NPROC" "2 < length (k_procs s)" using n by (simp_all add: NPROC_def)
  show ?thesis
  proof (rule turn_running [OF h], unfold wp_run_frame wp_bindM, rule wp_simple_task [OF h two(3)])
    fix s1
    assume s1: "hart {} False (Some 2) s1" "data s1 = data s"
    note d = data_eqD [OF s1(2)]
    have t1: "table_at U Spawned RUNNABLE SLEEPING RUNNING fr s1" using t table_at_data [OF s1(2)] by simp
    show "wp (simple_task_child 2 (p_pid (k_procs s ! 2)) regs) (\<lambda>a. wp (case a of Parent pid w \<Rightarrow> ret (task_waits pid w) | Child q intena regs' \<Rightarrow> ret (Inr (Exited intena)))
        (\<lambda>r. case r of Inl f' \<Rightarrow> good U (Running 2 TaskStart, fr, s) (Running 2 f', fr) | Inr f' \<Rightarrow> good U (Running 2 TaskStart, fr, s) (Back 2, fr(2 := f')))) s1"
    proof (rule wp_simple_task_child [OF s1(1), where q = 1])
      fix s'
      assume s': "hart {ProcLock 2} False (Some 2) s'"
        "data s' = switched 2 regs (zombie 88) ((data s1)\<lparr>k_procs := left_behind 2 (k_initproc s1) (k_procs s1)\<rparr>)"
      let ?w = "(k_procs s)[1 := (k_procs s ! 1)\<lparr>p_state := RUNNABLE\<rparr>]"
      let ?z = "(zombie 88 (k_procs s ! 2))\<lparr>p_context := regs\<rparr>"
      let ?t = "s\<lparr>k_procs := ?w\<rparr>"
      have "left_behind 2 (k_initproc s1) (k_procs s1) = ?w"
        using left_behind_child [OF t] par d by simp
      then have "data s' = switched 2 regs (zombie 88) (data ?t)" using s'(2) s1(2) by simp
      then have ss: "slot_set 2 ?z ?t s'" using slot_set_switched [of s' 2 regs "zombie 88" ?t] by simp
      have procs: "k_procs s' = (k_procs s)[1 := (k_procs s ! 1)\<lparr>p_state := RUNNABLE\<rparr>, 2 := ?z]" and lm: "k_link s' = k_link s"
        using ss by (simp_all add: slot_set_def)
      have "resources U Dead ?t"
        by (rule resources_set [where s = s and i = 1 and p = "(k_procs s ! 1)\<lparr>p_state := RUNNABLE\<rparr>"])
           (use t two table_at_states(2) [OF t] in \<open>auto simp: table_at_def same_pages_def slot_set_def resources_def\<close>)
      then have "resources U Dead s'"
        by (rule resources_set [OF _ two(1) _ ss]) (use t two table_at_states(3) [OF t] in \<open>auto simp: same_pages_def zombie_def\<close>)
      moreover have "rest_unused (k_procs s')" using t procs by (simp add: table_at_def rest_unused_set)
      ultimately have "table_at U Dead RUNNABLE (tester_state Dead) (child_state Dead) (fr(2 := Exited False)) s'"
        using t n two by (auto simp: table_at_def procs lm init_slot_def tester_slot_def child_slot_def frames_ok_def tester_state_def child_state_def zombie_def)
      then have "good U (Running 2 TaskStart, fr, s) (Back 2, fr(2 := Exited False)) s'"
        using s'(1) table_at_states(3) [OF t] by (intro good_back) auto
      then show "wp (case Child 2 False (cpu_context (cpu0 s1)) of Parent pid w \<Rightarrow> ret (task_waits pid w) | Child q intena regs' \<Rightarrow> ret (Inr (Exited intena)))
        (\<lambda>r. case r of Inl f' \<Rightarrow> good U (Running 2 TaskStart, fr, s) (Running 2 f', fr) | Inr f' \<Rightarrow> good U (Running 2 TaskStart, fr, s) (Back 2, fr(2 := f'))) s'"
        by (simp add: wp_ret)
    qed (use par d n two in simp_all)
  qed (use par in simp_all)
qed

text \<open>The test process creates its child and goes to sleep.\<close>

lemma turn_parent:
  assumes "sys_inv U (Running 1 TaskStart, fr, s)"
  shows "wp (turn tick pc regs (Running 1 TaskStart) fr) (good U (Running 1 TaskStart, fr, s)) s"
proof -
  have h: "hart {} False (Some 1) s" and t: "table_at U Before RUNNABLE RUNNING UNUSED fr s" using assms by auto
  obtain ys where pt: "ptable U s ys" and n: "length (k_procs s) = NPROC" and pool: "6 \<le> length ys" using t by (auto elim: table_atD)
  have par: "p_parent (k_procs s ! 1) = None" "p_killed (k_procs s ! 1) = 0" "k_initproc s = Some 0" "k_nextpid s = 3"
    using t by (simp_all add: table_at_def tester_slot_def resources_def)
  have two: "2 < NPROC" "1 < NPROC" "1 < length (k_procs s)" using n by (simp_all add: NPROC_def)
  have "[0..<NPROC] = [0, 1, 2] @ [3..<NPROC]" by (simp add: NPROC_def upt_conv_Cons)
  then have un: "unused s = Some 2" using table_at_states [OF t] by (simp add: unused_def)
  have kids: "\<not> has_kid (Some 1) [0..<NPROC] (k_procs s)" by (rule no_kids [OF t]) simp
  show ?thesis
  proof (rule turn_running [OF h], unfold wp_run_frame wp_bindM, rule wp_simple_task [OF h two(3)])
    fix s1
    assume s1: "hart {} False (Some 1) s1" "data s1 = data s"
    note d = data_eqD [OF s1(2)]
    show "wp (simple_task_parent (p_pid (k_procs s ! 1)) regs) (\<lambda>a. wp (case a of Parent pid w \<Rightarrow> ret (task_waits pid w) | Child q intena regs' \<Rightarrow> ret (Inr (Exited intena)))
        (\<lambda>r. case r of Inl f' \<Rightarrow> good U (Running 1 TaskStart, fr, s) (Running 1 f', fr) | Inr f' \<Rightarrow> good U (Running 1 TaskStart, fr, s) (Back 1, fr(1 := f')))) s1"
    proof (rule wp_simple_task_parent [OF s1(1), where xs = ys and i = 2])
      fix s' tf pg zs
      let ?c = "started_proc (k_link s1) (k_nextpid s1) tf pg (Some 1) (l_simple_task (k_link s1)) (k_procs s1 ! 2)"
      assume s': "hart {ProcLock 1} False (Some 1) s'" "ptable U s' zs"
        and ps: "let c = ?c in k_procs s' = (k_procs s1)[2 := c, 1 := (asleep (ChanProc 1) (k_procs s1 ! 1))\<lparr>p_context := regs\<rparr>]"
        and fs: "frame_step (set ys) (s1\<lparr>k_nextpid := k_nextpid s1 + 1\<rparr>) s'"
      have procs: "k_procs s' = (k_procs s)[2 := ?c, 1 := (asleep (ChanProc 1) (k_procs s ! 1))\<lparr>p_context := regs\<rparr>]" and lm: "k_link s' = k_link s"
        using ps d fs by (simp_all add: Let_def frame_step_def)
      have "resources U Spawned s'" using t fs s'(2) par(3) d by (auto simp: table_at_def resources_def frame_step_def)
      moreover have "rest_unused (k_procs s')" using t procs by (simp add: table_at_def rest_unused_set)
      moreover have "child_slot (k_link s) Spawned RUNNABLE ?c" using par(4) d by (simp add: child_slot_def started_proc_def fresh_proc_def Let_def)
      ultimately have "table_at U Spawned RUNNABLE (tester_state Spawned) (child_state Spawned) (fr(1 := TaskAsleep 3 False)) s'"
        using t n two by (auto simp: table_at_def procs lm init_slot_def tester_slot_def frames_ok_def tester_state_def child_state_def asleep_def)
      then have "good U (Running 1 TaskStart, fr, s) (Back 1, fr(1 := TaskAsleep 3 False)) s'"
        using s'(1) table_at_states(3) [OF t] by (intro good_back) auto
      then show "wp (case Parent (k_nextpid s1) (Asleep 1 False (cpu_context (cpu0 s1))) of Parent pid w \<Rightarrow> ret (task_waits pid w) | Child q intena regs' \<Rightarrow> ret (Inr (Exited intena)))
        (\<lambda>r. case r of Inl f' \<Rightarrow> good U (Running 1 TaskStart, fr, s) (Running 1 f', fr) | Inr f' \<Rightarrow> good U (Running 1 TaskStart, fr, s) (Back 1, fr(1 := f'))) s'"
        using par(4) d by (simp add: wp_ret task_waits_def)
    qed (use par d n two un kids pt pool ptable_data [OF s1(2)] table_at_states(2) [OF t] in \<open>simp_all add: unused_def\<close>)
  qed (use par in simp_all)
qed

text \<open>Woken up, it finds the zombie and frees its slot.\<close>

lemma turn_reap:
  assumes "sys_inv U (Running 1 (TaskAsleep 3 False), fr, s)"
  shows "wp (turn tick pc regs (Running 1 (TaskAsleep 3 False)) fr) (good U (Running 1 (TaskAsleep 3 False), fr, s)) s"
proof -
  have h: "hart {ProcLock 1} False (Some 1) s" and t: "table_at U Dead RUNNABLE RUNNING ZOMBIE fr s" using assms by auto
  obtain ys where pt: "ptable U s ys" and n: "length (k_procs s) = NPROC" using t by (auto elim: table_atD)
  have two: "2 < NPROC" "1 < NPROC" "1 < length (k_procs s)" using n by (simp_all add: NPROC_def)
  have kid: "p_parent (k_procs s ! 2) = Some 1" "p_state (k_procs s ! 2) = ZOMBIE" "p_pid (k_procs s ! 2) = 3" "p_xstate (k_procs s ! 2) = 88"
    using t by (simp_all add: table_at_def child_slot_def)
  have one: "p_parent (k_procs s ! 1) = None" "p_state (k_procs s ! 1) = RUNNING" "p_parent (k_procs s ! 0) = None" using table_at_states [OF t] by simp_all
  let ?x = "(Running 1 (TaskAsleep 3 False), fr, s)"
  show ?thesis
  proof (rule turn_running [OF h], unfold wp_run_frame wp_bindM wait_resume_def wp_seqM, rule wp_sleep_resume [OF h two(3), where l = WaitLock])
    fix s1
    let ?p = "(k_procs s ! 1)\<lparr>p_chan := NoChan\<rparr>"
    let ?t = "s\<lparr>k_procs := (k_procs s)[1 := ?p]\<rparr>"
    assume s1: "hart {WaitLock} False (Some 1) s1" "data s1 = (data s)\<lparr>k_procs := (k_procs s)[1 := ?p]\<rparr>"
    then have dt: "data s1 = data ?t" by simp
    note d = data_eqD [OF dt]
    have "ptable U ?t ys" by (rule ptable_update [OF pt two(2)]) (use one in \<open>simp add: same_pages_def\<close>)
    then have pt1: "ptable U s1 ys" using ptable_data [OF dt] by simp
    have "[0..<NPROC] = [0, 1, 2] @ [3..<NPROC]" by (simp add: NPROC_def upt_conv_Cons)
    then have z: "zombie_child (Some 1) [0..<NPROC] (k_procs s1) = Some 2"
      using d(6) kid one n two by (simp add: zombie_child_def)
    show "wp (wait_round (Some 1) True regs) (\<lambda>a. wp (ret (task_waits 3 a))
        (\<lambda>r. case r of Inl f' \<Rightarrow> good U ?x (Running 1 f', fr) | Inr f' \<Rightarrow> good U ?x (Back 1, fr(1 := f')))) s1"
    proof (rule wp_wait_reap [OF s1(1) pt1 z])
      fix s' zs
      assume s': "hart {} False (Some 1) s'" "ptable U s' zs"
        and ps: "k_procs s' = (k_procs s1)[2 := cleared (k_procs s1 ! 2)]" and st: "slot_step 2 (proc_pages s1 (k_procs s1 ! 2)) s1 s'"
      have procs: "k_procs s' = (k_procs s)[1 := ?p, 2 := cleared (k_procs s ! 2)]" and lm: "k_link s' = k_link s"
        using ps d(6) slot_stepD(1) [OF st] d(1) by simp_all
      have "resources U Done s'" using t s'(2) slot_stepD(1,4) [OF st] d by (auto simp: table_at_def resources_def)
      moreover have "rest_unused (k_procs s')" using t procs by (simp add: table_at_def rest_unused_set)
      ultimately have "table_at U Done RUNNABLE RUNNING UNUSED fr s'"
        using t n two by (auto simp: table_at_def procs lm init_slot_def tester_slot_def child_slot_def frames_ok_def cleared_def)
      then have "sys_inv U (Running 1 (TaskWaited 3 3 88), fr, s')" using s'(1) by simp
      moreover have "sys_variant (Running 1 (TaskWaited 3 3 88), fr, s') < sys_variant ?x" by (simp add: last_round_def kid)
      ultimately have "good U ?x (Running 1 (TaskWaited 3 3 88), fr) s'" by (intro goodI) (simp_all add: sys_goal_def)
      then show "wp (ret (task_waits 3 (Waited (p_pid (k_procs s1 ! 2)) (if True then Some (p_xstate (k_procs s1 ! 2)) else None))))
        (\<lambda>r. case r of Inl f' \<Rightarrow> good U ?x (Running 1 f', fr) | Inr f' \<Rightarrow> good U ?x (Back 1, fr(1 := f'))) s'"
        using d(6) kid by (simp add: wp_ret task_waits_def)
    qed
  qed
qed

section \<open>The kernel is such a system\<close>

lemma turn_good:
  assumes "sys_inv U (c, fr, s)"
  shows "wp (turn tick pc regs c fr) (good U (c, fr, s)) s"
proof (cases c)
  case (Running p f)
  note inv = assms [unfolded Running]
  consider "f = Fresh" | f' where "(f, f') \<in> {(InitStart, InitLoop), (InitYielded False, InitLoop), (TaskWaited 3 3 88, Beating), (Beating, Beating)}"
    | "p = 0" "f = InitLoop" | "p = 1" "f = TaskStart" | "p = 1" "f = TaskAsleep 3 False" | "p = 2" "f = TaskStart"
    using inv by auto
  then show ?thesis
    using turn_fresh turn_same_data turn_init_loop turn_parent turn_reap turn_child inv Running by cases metis+
qed (use assms turn_poll turn_slot turn_back in auto)

inductive_cases sys_stepE: "sys_step (c, fr, s) x'"

lemma sys_step_good:
  assumes "sys_inv U x" and "sys_step x x'"
  shows "good U x (fst x', fst (snd x')) (snd (snd x'))"
proof -
  obtain c fr s where x: "x = (c, fr, s)" by (cases x)
  obtain tick pc regs c' fr' s' where "turn tick pc regs c fr s = Ok (c', fr') s'" "x' = (c', fr', s')"
    using assms(2) unfolding x by (rule sys_stepE)
  then show ?thesis using turn_good [OF assms(1) [unfolded x], of tick pc regs] by (simp add: wp_def x)
qed

interpretation kernel: transition_system sys_step "sys_inv U" sys_goal sys_variant for U
proof
  fix x :: sys
  assume i: "sys_inv U x"
  obtain c fr s where x: "x = (c, fr, s)" by (cases x)
  obtain c' fr' s' where "turn False 0 undefined c fr s = Ok (c', fr') s'"
    using turn_good [OF i [unfolded x], of False 0 undefined] by (auto simp: wp_def)
  then show "\<exists>x'. sys_step x x'" unfolding x by (blast intro: sys_step.turn)
next
  fix x x' :: sys
  assume "sys_inv U x" "sys_step x x'"
  from sys_step_good [OF this] show "sys_inv U x'" and "\<not> sys_goal x \<Longrightarrow> sys_variant x' < sys_variant x" and "sys_goal x \<Longrightarrow> sys_goal x'"
    by (simp_all add: good_def)
qed

text \<open>The step that enters the goal is the verdict on the child's exit status.\<close>

lemma run_frame_to_Beating:
  "run_frame p f regs s = Ok (Inl Beating) s' \<Longrightarrow> f = Beating \<or> (\<exists>pid w st. f = TaskWaited pid w st) \<or> (\<exists>i e t. f = Interrupted Beating i e t)"
  by (cases f) (auto simp: exec_simps init_goes_on_def task_waits_def split: res.splits if_splits init_result.splits wait_result.splits task_result.splits)

lemma enters_goal:
  assumes i: "sys_inv U x" and st: "sys_step x x'" and g: "\<not> sys_goal x" "sys_goal x'"
  shows "fst x = Running 1 (TaskWaited 3 3 88) \<and> k_uart (snd (snd x')) = send (passed_text 3) (k_uart (snd (snd x)))"
proof -
  obtain c fr s where x: "x = (c, fr, s)" by (cases x)
  obtain tick pc regs c' fr' s' where t: "turn tick pc regs c fr s = Ok (c', fr') s'" and x': "x' = (c', fr', s')"
    using st unfolding x by (rule sys_stepE)
  have c': "c' = Running 1 Beating" using g(2) x' by (simp add: sys_goal_def)
  show ?thesis
  proof (cases c)
    case (AtSlot n found)
    then have "fr 1 = Beating" "n = 1" using t c' by (auto simp: turn_def exec_simps split: res.splits if_splits option.splits)
    then show ?thesis using i x AtSlot by (auto simp: table_at_def frames_ok_def split: if_splits)
  next
    case (Running p f)
    note inv = i [unfolded x Running]
    have h: "hart (if resuming f then {ProcLock p} else {}) False (Some p) s" using inv by simp
    then have "p = 1" "run_frame p f regs s = Ok (Inl Beating) s'"
      using t c' Running hart_intr_off [OF h] by (auto simp: turn_def exec_simps split: res.splits sum.splits)
    then have f: "f = TaskWaited 3 3 88" "p = 1" using run_frame_to_Beating [of p f regs s s'] inv g(1) x Running by (auto simp: sys_goal_def)
    then have "wp (simple_task_waited 3 3 88) (\<lambda>_ s'. k_uart s' = send (passed_text 3) (k_uart s)) s"
      using h by (intro wp_simple_task_passed) auto
    then show ?thesis using \<open>run_frame p f regs s = Ok (Inl Beating) s'\<close> f x x' Running by (auto simp: wp_def exec_simps split: res.splits)
  qed (use t c' in \<open>auto simp: turn_def exec_simps split: res.splits\<close>)
qed

text \<open>The state \<open>main\<close> leaves, with every process at its beginning, satisfies the invariant.\<close>

lemma started_fields [simp]:
  "p_state (started_proc lm pid tf pg par fn q) = RUNNABLE" "p_parent (started_proc lm pid tf pg par fn q) = par"
  "p_pid (started_proc lm pid tf pg par fn q) = pid" "ctx_s0 (p_context (started_proc lm pid tf pg par fn q)) = fn"
  "p_killed (started_proc lm pid tf pg par fn q) = p_killed q" 
  by (simp_all add: started_proc_def fresh_proc_def Let_def)

lemma initial_inv:
  assumes r: "ready_to_run e st ys s" and "6 \<le> length ys" and "task_addrs (k_link s)"
  shows "sys_inv (process_pool st s) (AtPoll, \<lambda>_. Fresh, s)"
proof -
  have len: "length boot_procs = NPROC" "2 < NPROC" "1 < NPROC" by (simp_all add: boot_procs_nth NPROC_def)
  have zero: "p_state (boot_procs ! i) = UNUSED" "p_killed (boot_procs ! i) = 0" if "i < NPROC" for i
    using that by (simp_all add: boot_procs_nth zero_proc_def)
  have "table_at (process_pool st s) Before RUNNABLE RUNNABLE UNUSED (\<lambda>_. Fresh) s"
    using r assms(2,3) len zero
    by (auto simp: ready_to_run_def table_at_def init_slot_def tester_slot_def child_slot_def rest_unused_def resources_def frames_ok_def)
  moreover have "hart {} e None s" using r by (simp add: ready_to_run_def)
  ultimately show ?thesis unfolding sys_inv.simps by (intro exI [of _ e] exI [of _ Before]) (simp add: child_state_def)
qed

end
