(* ===== verification/Interrupts.thy ===== *)
theory Interrupts
  imports System
begin

text \<open>
  Timer interrupts while \<open>main\<close> sets the kernel up. \<open>start\<close> leaves with interrupts enabled, so they arrive
  before the scheduler runs. \<open>main_calls\<close> is the body of \<open>main\<close> as the list of its calls, and \<open>with_ticks\<close>
  runs it with any number of interrupts before each call. They are harmless once \<open>trapinithart\<close> has
  installed the handler; one that arrives earlier jumps to whatever \<open>stvec\<close> holds.

  The proofs give the state between two calls as a phase that the interrupt handler preserves; a phase
  depends on the fields that the relation \<open>quiet\<close> keeps.
\<close>

section \<open>Definitions\<close>

definition kcall :: "string \<times> vararg list \<Rightarrow> kstate \<Rightarrow> (kstate, unit) res" where
  "kcall l = (case l of (fmt, args) \<Rightarrow> kprint fmt args)"

definition spawn_test :: "kstate \<Rightarrow> (kstate, unit) res" where
  "spawn_test = bindM (readM (\<lambda>s. l_simple_task (k_link s))) (\<lambda>fn. seqM (create_process fn) (ret ()))"

definition main_calls :: "(kstate \<Rightarrow> (kstate, unit) res) list" where
  "main_calls = [uartinit, trapinithart, hello] @ map kcall test_lines1 @ [csr_write (\<lambda>c. w_stimecmp (r_time c + 10000) c)] @
     map kcall test_lines2 @ [clear_screen, pmm_init, kvminit, kvminithart, trapinithart, hello] @
     map kcall (test_lines1 @ test_lines2) @ [clear_screen, procinit, userinit, spawn_test, scheduler_start]"

text \<open>A pending timer interrupt is taken if interrupts are enabled, at the address in \<open>stvec\<close>.\<close>

definition take_tick :: "u64 \<times> kcontext \<Rightarrow> kstate \<Rightarrow> (kstate, unit) res" where
  "take_tick t =
     bindM (csr_read intr_get) (\<lambda>on. if \<not> on then ret () else
     bindM (readM (\<lambda>s. c_stvec (k_csr s) = l_kernelvec (k_link s))) (\<lambda>installed.
     if \<not> installed then fail Fault else
     bindM (kernelvec TIMER (fst t) (snd t)) (\<lambda>r. case r of Inl _ \<Rightarrow> ret () | Inr _ \<Rightarrow> fail Fault)))"

fun with_ticks :: "(u64 \<times> kcontext) list list \<Rightarrow> (kstate \<Rightarrow> (kstate, unit) res) list \<Rightarrow> kstate \<Rightarrow> (kstate, unit) res" where
  "with_ticks ts [] s = Ok () s"
| "with_ticks [] (f # fs) s = seqM f (with_ticks [] fs) s"
| "with_ticks (t # ts) (f # fs) s = seqM (forM t take_tick) (seqM f (with_ticks ts fs)) s"

section \<open>The list of calls\<close>

lemma seqM_assoc: "seqM (seqM m n) k = seqM m (seqM n k)"
  by (simp add: seqM_def bindM_def fun_eq_iff split: res.split)

lemma with_ticks_append: "with_ticks [] (fs @ gs) = seqM (with_ticks [] fs) (with_ticks [] gs)"
proof (induction fs)
  case (Cons f fs)
  then show ?case by (intro ext) (simp add: seqM_def bindM_def split: res.split)
qed (simp add: fun_eq_iff seqM_def bindM_def)

lemma calls_Cons: "with_ticks [] (f # fs) = seqM f (with_ticks [] fs)"
  by (simp add: fun_eq_iff)

lemma print_all_calls: "print_all ls = with_ticks [] (map kcall ls)"
proof (induction ls)
  case (Cons l ls)
  have "print_all (l # ls) = seqM (kcall l) (print_all ls)"
    by (cases l) (auto simp: print_all_def kcall_def seqM_def bindM_def fun_eq_iff split: res.split)
  with Cons show ?case by (simp add: calls_Cons del: with_ticks.simps)
qed (simp add: print_all_def fun_eq_iff)

lemma seqM_ret: "seqM m (ret ()) = m" for m :: "kstate \<Rightarrow> (kstate, unit) res"
  by (simp add: fun_eq_iff seqM_def bindM_def ret_def split: res.split)

lemma with_ticks_Nil: "with_ticks [] [] = ret ()"
  by (simp add: fun_eq_iff ret_def)

lemma main_is_calls: "main = with_ticks [] main_calls"
proof -
  have p: "main_processes = with_ticks [] [procinit, userinit, spawn_test, scheduler_start]"
    by (simp add: calls_Cons with_ticks_Nil seqM_ret main_processes_def spawn_test_def)
       (simp add: fun_eq_iff seqM_def bindM_def readM_def ret_def split: res.split)
  show ?thesis
    unfolding main_def main_console_def main_memory_def main_calls_def p with_ticks_append print_all_calls seqM_assoc
    by (simp add: calls_Cons with_ticks_Nil seqM_ret seqM_assoc with_ticks_append del: with_ticks.simps map_append)
qed

section \<open>Phases\<close>

text \<open>What an interrupt between two calls leaves as it was.\<close>

definition quiet :: "kstate \<Rightarrow> kstate \<Rightarrow> bool" where
  "quiet s s' \<longleftrightarrow> k_link s' = k_link s \<and> k_mem s' = k_mem s \<and> k_freelist s' = k_freelist s \<and> k_pagetable s' = k_pagetable s
     \<and> k_procs s' = k_procs s \<and> k_initproc s' = k_initproc s \<and> k_nextpid s' = k_nextpid s
     \<and> c_satp (k_csr s') = c_satp (k_csr s) \<and> c_stvec (k_csr s') = c_stvec (k_csr s)"

definition awake :: "kstate \<Rightarrow> bool" where
  "awake s \<longleftrightarrow> hart {} True None s \<and> length (k_procs s) = NPROC \<and> c_stvec (k_csr s) = l_kernelvec (k_link s)
     \<and> (\<forall>p \<in> set (k_procs s). p_state p \<noteq> SLEEPING)"

definition phase :: "(kstate \<Rightarrow> bool) \<Rightarrow> bool" where
  "phase I \<longleftrightarrow> (\<forall>s. I s \<longrightarrow> awake s) \<and> (\<forall>s s'. I s \<longrightarrow> hart {} True None s' \<longrightarrow> quiet s s' \<longrightarrow> I s')"

lemma phaseD: "phase I \<Longrightarrow> I s \<Longrightarrow> awake s" "phase I \<Longrightarrow> I s \<Longrightarrow> hart {} True None s' \<Longrightarrow> quiet s s' \<Longrightarrow> I s'"
  by (auto simp: phase_def)

lemma woken_awake: "\<forall>p \<in> set ps. p_state p \<noteq> SLEEPING \<Longrightarrow> woken ChanTicks None ps = ps"
  by (rule nth_equalityI) (auto simp: woken_def woken_proc_def)

lemma quiet_data:
  assumes "data s' = data s"
  shows "quiet s s'"
proof -
  note e = data_eqD(13) [OF assms]
  have "c_satp (k_csr s') = c_satp (k_csr s)" using e [THEN arg_cong, of c_satp] by simp
  moreover have "c_stvec (k_csr s') = c_stvec (k_csr s)" using e [THEN arg_cong, of c_stvec] by simp
  ultimately show ?thesis using data_eqD(1-8) [OF assms] by (simp add: quiet_def)
qed

lemma wp_take_tick:
  assumes "phase I" and "I s"
  shows "wp (take_tick t) (\<lambda>_. I) s"
proof -
  have a: "awake s" by (rule phaseD(1) [OF assms])
  then have on: "intr_get (k_csr s)" by (simp add: awake_def hart_def)
  have "wp (kernelvec TIMER (fst t) (snd t)) (\<lambda>r s'. (\<exists>pc. r = Inl pc) \<and> I s') s"
    unfolding TIMER_def
  proof (rule wp_kernelvec_idle)
    show "hart {} True None s" "length (k_procs s) = NPROC" using a by (simp_all add: awake_def)
    fix s'
    assume s': "hart {} True None s'" "data s' = ticked None (entered 0x8000000000000005 (fst t) (data s))"
    note * = s'(2) [THEN arg_cong, of k_link] s'(2) [THEN arg_cong, of k_mem] s'(2) [THEN arg_cong, of k_freelist] s'(2) [THEN arg_cong, of k_pagetable]
      s'(2) [THEN arg_cong, of k_procs] s'(2) [THEN arg_cong, of k_initproc] s'(2) [THEN arg_cong, of k_nextpid]
      s'(2) [THEN arg_cong, of "\<lambda>d. c_satp (k_csr d)"] s'(2) [THEN arg_cong, of "\<lambda>d. c_stvec (k_csr d)"]
    have "quiet s s'" unfolding quiet_def
      using * woken_awake [of "k_procs s"] a by (simp add: ticked_def entered_def w_stimecmp_def awake_def)
    then show "(\<exists>pc. Inl (fst t) = Inl pc) \<and> I s'" using phaseD(2) [OF assms s'(1)] by simp
  qed
  then obtain pc s' where "kernelvec TIMER (fst t) (snd t) s = Ok (Inl pc) s'" "I s'" by (auto simp: wp_def)
  then show ?thesis using on a by (simp add: take_tick_def exec_simps wp_def awake_def)
qed

lemma wp_ticks: "phase I \<Longrightarrow> I s \<Longrightarrow> wp (forM ts take_tick) (\<lambda>_. I) s"
proof (induction ts arbitrary: s)
  case (Cons t ts)
  obtain s1 where "take_tick t s = Ok () s1" "I s1" using wp_take_tick [OF Cons.prems, of t] by (auto simp: wp_def simp del: split_paired_All)
  then show ?case using Cons.IH [OF Cons.prems(1)] by (simp add: wp_def)
qed (simp add: wp_def)

text \<open>A call from one phase to the next, whatever interrupts arrive before it.\<close>

lemma wp_call:
  assumes "phase I" and "I s" and "\<And>s. I s \<Longrightarrow> wp f (\<lambda>_. J) s" and "\<And>s ts. J s \<Longrightarrow> wp (with_ticks ts fs) Q s"
  shows "wp (with_ticks ts (f # fs)) Q s"
proof (cases ts)
  case Nil
  then show ?thesis using assms(3) [OF assms(2)] assms(4) by (auto simp: wp_def seqM_def bindM_def)
next
  case (Cons t ts')
  obtain s1 where s1: "forM t take_tick s = Ok () s1" "I s1" using wp_ticks [OF assms(1,2)] by (auto simp: wp_def)
  obtain s2 where "f s1 = Ok () s2" "J s2" using assms(3) [OF s1(2)] by (auto simp: wp_def)
  then show ?thesis using s1 assms(4) [of s2 ts'] Cons by (auto simp: wp_def seqM_def bindM_def)
qed

text \<open>Calls that stay within the phase.\<close>

definition stays :: "(kstate \<Rightarrow> (kstate, unit) res) \<Rightarrow> bool" where
  "stays f \<longleftrightarrow> (\<forall>s. awake s \<longrightarrow> wp f (\<lambda>_ s'. hart {} True None s' \<and> quiet s s') s)"

lemma wp_stays: "stays f \<Longrightarrow> phase I \<Longrightarrow> I s \<Longrightarrow> wp f (\<lambda>_. I) s"
  by (rule wp_mono [where Q = "\<lambda>_ s'. hart {} True None s' \<and> quiet s s'"]) (auto simp: stays_def dest: phaseD)

lemma wp_all_stay:
  assumes "phase I" and "\<forall>f \<in> set fs. stays f" and "I s" and "\<And>s ts. I s \<Longrightarrow> wp (with_ticks ts gs) Q s"
  shows "wp (with_ticks ts (fs @ gs)) Q s"
  using assms(2,3)
proof (induction fs arbitrary: s ts)
  case (Cons f fs)
  have "\<And>s. I s \<Longrightarrow> wp f (\<lambda>_. I) s" using wp_stays [OF _ assms(1)] Cons.prems(1) by simp
  then show ?case unfolding append_Cons
    by (rule wp_call [OF assms(1) Cons.prems(2)]) (use Cons in auto)
qed (use assms(4) in simp)

section \<open>The calls that print\<close>

lemma stays_kprint: "renders fmt args \<Longrightarrow> stays (kcall (fmt, args))"
  unfolding stays_def kcall_def by (auto simp: awake_def intro!: wp_kprint_any [where H = "{}" and e = True and c = None] quiet_data)

lemma stays_hello: "stays hello"
  unfolding stays_def hello_def by (auto simp: wp_simps awake_def intro!: quiet_data)

lemma stays_clear_screen: "stays clear_screen"
  unfolding stays_def by (auto simp: awake_def intro!: wp_clear_screen [where H = "{}" and e = True and c = None] quiet_data)

lemma stays_lines: "f \<in> set (map kcall test_lines1) \<or> f \<in> set (map kcall test_lines2) \<Longrightarrow> stays f"
  by (auto simp: test_lines1_def test_lines2_def intro!: stays_kprint)
     (simp_all add: renders_def cstr_def ch_def byte_at_def directive_text_def int_directive_def Let_def va_word_def va_str_def)

lemma stays_trapinithart: "stays trapinithart"
  unfolding stays_def
proof (intro allI impI)
  fix s assume a: "awake s"
  show "wp trapinithart (\<lambda>_ s'. hart {} True None s' \<and> quiet s s') s"
  proof (rule wp_trapinithart)
    show "hart {} True None s" using a by (simp add: awake_def)
    fix s' assume s': "hart {} True None s'" "data s' = (data s)\<lparr>k_csr := (k_csr (data s))\<lparr>c_stvec := l_kernelvec (k_link s)\<rparr>\<rparr>"
    have "(k_csr (data s))\<lparr>c_stvec := l_kernelvec (k_link s)\<rparr> = k_csr (data s)" using a by (simp add: awake_def)
    then have "data s' = data s" using s'(2) by simp
    then show "hart {} True None s' \<and> quiet s s'" using s'(1) quiet_data by blast
  qed
qed

lemma stays_stimecmp: "stays (csr_write (\<lambda>c. w_stimecmp (r_time c + 10000) c))"
  unfolding stays_def
proof (intro allI impI)
  fix s assume a: "awake s"
  let ?c = "w_stimecmp (r_time (k_csr s) + 10000) (k_csr s)"
  have "intr_get (k_csr s)" using a by (simp add: awake_def hart_def)
  then have "hart {} True None (s\<lparr>k_csr := ?c\<rparr>)" using a hart_csr [of "{}" True None s ?c] by (simp add: awake_def)
  then show "wp (csr_write (\<lambda>c. w_stimecmp (r_time c + 10000) c)) (\<lambda>_ s'. hart {} True None s' \<and> quiet s s') s"
    by (simp add: csr_write_def wp_simps quiet_def w_stimecmp_def)
qed

section \<open>The phases of main\<close>

definition kept :: "(kstate \<Rightarrow> bool) \<Rightarrow> bool" where
  "kept P \<longleftrightarrow> (\<forall>s s'. hart {} True None s \<longrightarrow> hart {} True None s' \<longrightarrow> quiet s s' \<longrightarrow> P s \<longrightarrow> P s')"

lemma awake_quiet: "awake s \<Longrightarrow> hart {} True None s' \<Longrightarrow> quiet s s' \<Longrightarrow> awake s'"
  by (simp add: awake_def quiet_def)

lemma phase_kept: "kept P \<Longrightarrow> phase (\<lambda>s. awake s \<and> P s)"
  by (auto simp: phase_def kept_def intro: awake_quiet) (auto simp: awake_def)

lemma keptI: "(\<And>s s'. hart {} True None s \<Longrightarrow> hart {} True None s' \<Longrightarrow> quiet s s' \<Longrightarrow> P s \<Longrightarrow> P s') \<Longrightarrow> kept P"
  by (simp add: kept_def)

lemma quietD:
  assumes "hart {} True None s" and "hart {} True None s'" and "quiet s s'"
  shows "k_link s' = k_link s" "k_mem s' = k_mem s" "k_freelist s' = k_freelist s" "k_pagetable s' = k_pagetable s" "k_procs s' = k_procs s"
    "k_initproc s' = k_initproc s" "k_nextpid s' = k_nextpid s" "c_satp (k_csr s') = c_satp (k_csr s)"
    "free_pages s' xs = free_pages s xs" "kmem_rep s' xs = kmem_rep s xs" "vm_rep s' pt xs = vm_rep s pt xs"
    "translate s' = translate s" "tables s' = tables s" "ptable U s' xs = ptable U s xs" "process_pool st s' = process_pool st s" "kernel_space s' st xs = kernel_space s st xs"
proof -
  show q: "k_link s' = k_link s" "k_mem s' = k_mem s" "k_freelist s' = k_freelist s" "k_pagetable s' = k_pagetable s" "k_procs s' = k_procs s"
    "k_initproc s' = k_initproc s" "k_nextpid s' = k_nextpid s" "c_satp (k_csr s') = c_satp (k_csr s)"
    using assms(3) by (simp_all add: quiet_def)
  show f: "free_pages s' xs = free_pages s xs" by (simp add: free_pages_def q)
  then show "kmem_rep s' xs = kmem_rep s xs" using assms(1,2) by (simp add: kmem_rep_hart)
  show "vm_rep s' pt xs = vm_rep s pt xs" by (rule vm_rep_data [OF assms(1,2) _ q(1-3)]) simp
  show t: "translate s' = translate s" by (rule vm_rep_data [OF assms(1,2) _ q(1-3)]) simp
  show u: "tables s' = tables s" by (rule vm_rep_data [OF assms(1,2) _ q(1-3)]) simp
  then show "kernel_space s' st xs = kernel_space s st xs" by (simp only: kernel_space_def t q)
  show "process_pool st s' = process_pool st s" by (simp only: process_pool_def u q)
  show "ptable U s' xs = ptable U s xs" by (rule ptable_cong [OF q(1-3,5)])
qed

definition untouched :: "linkmap \<Rightarrow> kstate \<Rightarrow> bool" where
  "untouched lm s \<longleftrightarrow> k_link s = lm \<and> k_procs s = replicate NPROC zero_proc \<and> k_nextpid s = 1"

definition paged :: "linkmap \<Rightarrow> kstate \<Rightarrow> bool" where
  "paged lm s \<longleftrightarrow> untouched lm s \<and> (\<exists>ys. vm_rep s (k_pagetable s) ys \<and> NPROC + 14 \<le> length ys \<and> set ys \<union> tables s (k_pagetable s) = set (boot_pages lm))
     \<and> translate s (k_pagetable s) = direct_map (l_etext lm)"

definition paging_on :: "kstate \<Rightarrow> bool" where
  "paging_on s \<longleftrightarrow> c_satp (k_csr s) = MAKE_SATP (k_pagetable s)"

text \<open>The process table after the first \<open>n\<close> processes; \<open>lm\<close> fixes where their tasks are.\<close>

definition first_procs :: "linkmap \<Rightarrow> nat \<Rightarrow> proc list \<Rightarrow> bool" where
  "first_procs lm n ps \<longleftrightarrow> (\<exists>tf pg tf' pg'. ps = (if n = 0 then boot_procs else
     let ps1 = boot_procs[0 := started_proc lm 1 tf pg None (l_init_task lm) (boot_procs ! 0)] in
     if n = 1 then ps1 else ps1[1 := started_proc lm 2 tf' pg' None (l_simple_task lm) (boot_procs ! 1)]))"

definition populated :: "linkmap \<Rightarrow> nat \<Rightarrow> kstate \<Rightarrow> bool" where
  "populated lm n s \<longleftrightarrow> k_link s = lm \<and> first_procs lm n (k_procs s) \<and> k_nextpid s = word_of_nat (Suc n)
     \<and> (0 < n \<longrightarrow> k_initproc s = Some 0) \<and> paging_on s
     \<and> (\<exists>st ys. ptable (process_pool st s) s ys \<and> kernel_space s st ys \<and> 12 \<le> length ys + 6 * n)"

lemma kept_phases:
  "kept (\<lambda>s. untouched lm s \<and> k_freelist s = 0)"
  "kept (\<lambda>s. untouched lm s \<and> kmem_rep s (boot_pages lm))"
  "kept (paged lm)" "kept (\<lambda>s. paged lm s \<and> paging_on s)" "kept (populated lm n)"
proof -
  have *: "kept P" if "\<And>s s'. (\<And>xs pt st U. k_link s' = k_link s \<and> k_procs s' = k_procs s \<and> k_nextpid s' = k_nextpid s \<and> k_freelist s' = k_freelist s
      \<and> k_pagetable s' = k_pagetable s \<and> k_initproc s' = k_initproc s \<and> c_satp (k_csr s') = c_satp (k_csr s) \<and> kmem_rep s' xs = kmem_rep s xs
      \<and> vm_rep s' pt xs = vm_rep s pt xs \<and> translate s' = translate s \<and> tables s' = tables s \<and> ptable U s' xs = ptable U s xs \<and> process_pool st s' = process_pool st s \<and> kernel_space s' st xs = kernel_space s st xs) \<Longrightarrow> P s' = P s" for P
    by (rule keptI, subst that) (simp_all only: quietD simp_thms)
  show "kept (\<lambda>s. untouched lm s \<and> k_freelist s = 0)" "kept (\<lambda>s. untouched lm s \<and> kmem_rep s (boot_pages lm))"
    "kept (paged lm)" "kept (\<lambda>s. paged lm s \<and> paging_on s)" "kept (populated lm n)"
    by (rule *, simp add: untouched_def paged_def paging_on_def populated_def)+
qed

lemmas main_phases = kept_phases [THEN phase_kept]

text \<open>\<open>awake\<close> after a call, from what the call does to the rest of the state.\<close>

lemma awakeI:
  assumes "awake s" and "hart {} True None s'" and "k_link s' = k_link s" and "c_stvec (k_csr (data s')) = c_stvec (k_csr (data s))"
    and "length (k_procs s') = NPROC" and "\<forall>p \<in> set (k_procs s'). p_state p \<noteq> SLEEPING"
  shows "awake s'"
  using assms by (simp add: awake_def)

lemma no_sleepers:
  "\<forall>p \<in> set (replicate NPROC zero_proc). p_state p \<noteq> SLEEPING" "length (replicate NPROC zero_proc) = NPROC"
  by (simp_all add: zero_proc_def)

lemma no_sleepers_boot:
  assumes "first_procs lm n ps"
  shows "\<forall>p \<in> set ps. p_state p \<noteq> SLEEPING" "length ps = NPROC"
proof -
  show l: "length ps = NPROC" using assms boot_procs_nth(2) by (auto simp: first_procs_def Let_def)
  show "\<forall>p \<in> set ps. p_state p \<noteq> SLEEPING"
    using assms l boot_procs_nth by (auto simp: first_procs_def Let_def in_set_conv_nth nth_list_update started_proc_def fresh_proc_def zero_proc_def NPROC_def split: if_splits)
qed

section \<open>From phase to phase\<close>

lemma phase_pmm:
  assumes "awake s" and "untouched lm s \<and> k_freelist s = 0" and "link_wf lm"
  shows "wp pmm_init (\<lambda>_ s'. awake s' \<and> untouched lm s' \<and> kmem_rep s' (boot_pages lm)) s"
proof (rule wp_pmm_init)
  show "hart {} True None s" using assms(1) by (simp add: awake_def)
  show "link_wf (k_link s)" "k_freelist s = 0" using assms by (simp_all add: untouched_def)
  fix s'
  assume h: "hart {} True None s'" and r: "kmem_rep s' (boot_pages (k_link s))" and d: "data s' = (data s)\<lparr>k_mem := k_mem s', k_freelist := k_freelist s'\<rparr>"
  have u: "untouched lm s'"
    using assms(2) d [THEN arg_cong, of k_link] d [THEN arg_cong, of k_procs] d [THEN arg_cong, of k_nextpid] by (simp add: untouched_def)
  have "awake s'"
    by (rule awakeI [OF assms(1) h], use d [THEN arg_cong, of "\<lambda>d. c_stvec (k_csr d)"] u no_sleepers assms(2) in \<open>simp_all add: untouched_def\<close>)
  then show "awake s' \<and> untouched lm s' \<and> kmem_rep s' (boot_pages lm)" using u r assms(2) by (simp add: untouched_def)
qed simp

lemma phase_kvm:
  assumes "awake s" and "untouched lm s \<and> kmem_rep s (boot_pages lm)" and "NPROC + 82 \<le> length (boot_pages lm)"
  shows "wp kvminit (\<lambda>_ s'. awake s' \<and> paged lm s') s"
proof -
  obtain p xs where xs: "boot_pages lm = p # xs" "NPROC + 81 \<le> length xs" using assms(3) by (cases "boot_pages lm") auto
  show ?thesis
  proof (rule wp_kvminit)
    show "hart {} True None s" using assms(1) by (simp add: awake_def)
    show "kmem_rep s (p # xs)" using assms(2) xs by simp
    fix s' ns ys
    assume s': "hart {} True None s'" "xs = ns @ ys" "length ns \<le> 67" "vm_rep s' p ys" "translate s' p = direct_map (l_etext (k_link s))" "tables s' p = insert p (set ns)"
      "data s' = (data s)\<lparr>k_mem := k_mem s', k_freelist := k_freelist s', k_pagetable := p\<rparr>"
    note d = s'(7)
    have u: "untouched lm s'" "k_pagetable s' = p"
      using assms(2) d [THEN arg_cong, of k_link] d [THEN arg_cong, of k_procs] d [THEN arg_cong, of k_nextpid] d [THEN arg_cong, of k_pagetable]
      by (simp_all add: untouched_def)
    have "awake s'"
      by (rule awakeI [OF assms(1) s'(1)], use d [THEN arg_cong, of "\<lambda>d. c_stvec (k_csr d)"] u no_sleepers assms(2) in \<open>simp_all add: untouched_def\<close>)
    moreover have "NPROC + 14 \<le> length ys" "set ys \<union> tables s' p = set (boot_pages lm)" using s'(2,3,6) xs by auto
    moreover have "translate s' p = direct_map (l_etext lm)" using s'(5) assms(2) by (simp add: untouched_def)
    ultimately have "awake s'" "paged lm s'" using u s'(4) unfolding paged_def by auto
    then show "awake s' \<and> paged lm s'" by blast
  qed (use xs in simp_all)
qed

lemma phase_satp:
  assumes "awake s" and "paged lm s"
  shows "wp kvminithart (\<lambda>_ s'. awake s' \<and> paged lm s' \<and> paging_on s') s"
proof -
  let ?s = "s\<lparr>k_csr := w_satp (MAKE_SATP (k_pagetable s)) (k_csr s)\<rparr>"
  have h: "hart {} True None s" using assms(1) by (simp add: awake_def)
  have h': "hart {} True None ?s" using hart_csr [OF h, of "w_satp (MAKE_SATP (k_pagetable s)) (k_csr s)"] h by (simp add: hart_def)
  have "vm_rep ?s p ys = vm_rep s p ys" "translate ?s p = translate s p" for p ys by (simp_all add: vm_rep_data [OF h h'])
  moreover have "tables ?s p = tables s p" for p by (simp add: tables_def)
  moreover have "awake ?s" using assms(1) h' by (simp add: awake_def w_satp_def)
  ultimately show ?thesis using assms(2) by (simp add: wp_def kvminithart_run paged_def untouched_def paging_on_def w_satp_def)
qed

lemma phase_stacks:
  assumes "awake s" and "paged lm s \<and> paging_on s"
  shows "wp procinit (\<lambda>_ s'. awake s' \<and> populated lm 0 s') s"
proof -
  note p = assms(2) [unfolded paged_def untouched_def]
  have h: "hart {} True None s" using assms(1) by (simp add: awake_def)
  from p obtain xs where v: "vm_rep s (k_pagetable s) xs" and pool: "NPROC + 14 \<le> length xs" and all: "set xs \<union> tables s (k_pagetable s) = set (boot_pages lm)" by blast
  have lw: "link_wf lm" using vm_repD(4) [OF v] p by simp
  show ?thesis
  proof (rule wp_procinit [OF h _ _ _ v refl])
    fix v j assume "j < NPROC" "vpn v = vpn (KSTACK j)"
    then show "\<not> pte_valid (translate s (k_pagetable s) v)" using direct_map_stacks [OF lw] p by (simp add: pte_valid_def)
  next
    fix s' st ys
    assume h': "hart {} True None s'" and built: "stacks_built NPROC (k_pagetable s) xs st ys s s'"
    note b = built [unfolded stacks_built_def]
    have d: "data s' = (data s)\<lparr>k_mem := k_mem s', k_freelist := k_freelist s', k_procs := boot_procs\<rparr>" using b p by (simp add: boot_procs_def)
    have f: "k_link s' = lm" "k_procs s' = boot_procs" "k_pagetable s' = k_pagetable s" "k_nextpid s' = 1" "c_satp (k_csr s') = c_satp (k_csr s)"
      using p d [THEN arg_cong, of k_link] d [THEN arg_cong, of k_procs] d [THEN arg_cong, of k_pagetable] d [THEN arg_cong, of k_nextpid]
        d [THEN arg_cong, of "\<lambda>d. c_satp (k_csr d)"] by simp_all
    have fp: "first_procs lm 0 (k_procs s')" by (simp add: first_procs_def f)
    have "awake s'" 
      by (rule awakeI [OF assms(1) h'], use d [THEN arg_cong, of "\<lambda>d. c_stvec (k_csr d)"] f p no_sleepers_boot [OF fp] in simp_all)
    moreover have "ptable (set ys) s' ys" using b vm_rep_hart [OF h'] by (intro ptable_boot f(2)) simp
    moreover have "kernel_space s' st ys" using b f p by (auto simp: kernel_space_def vm_rep_def tables_def)
    moreover have "12 \<le> length ys" using b pool by (simp add: NPROC_def)
    moreover have "process_pool st s' = set ys" using process_pool_built [OF built] f all by simp
    ultimately have "awake s' \<and> ptable (process_pool st s') s' ys \<and> kernel_space s' st ys \<and> 12 \<le> length ys" by simp
    then have "\<exists>st ys. ptable (process_pool st s') s' ys \<and> kernel_space s' st ys \<and> 12 \<le> length ys" "awake s'" by blast+
    then show "awake s' \<and> populated lm 0 s'" using f fp assms(2) by (auto simp: populated_def paging_on_def)
  qed (use p pool in simp_all)
qed

text \<open>The two calls that create the first processes take slot \<open>n\<close> each.\<close>

lemma populatedD:
  assumes "awake s" and "populated lm n s" and "n < 2"
  obtains st xs where "hart {} True None s" "ptable (process_pool st s) s xs" "kernel_space s st xs" "12 \<le> length xs + 6 * n" "unused s = Some n" "6 \<le> length xs"
proof -
  note p = assms(2) [unfolded populated_def]
  from p obtain st xs where x: "ptable (process_pool st s) s xs" "kernel_space s st xs" "12 \<le> length xs + 6 * n" by blast
  have procs: "first_procs lm n (k_procs s)" using p by blast
  have "p_state (k_procs s ! n) = UNUSED" "\<And>j. j < n \<Longrightarrow> p_state (k_procs s ! j) \<noteq> UNUSED" "n < NPROC"
    using procs assms(3) boot_procs_nth less_2_cases_iff [of n]
    by (auto simp: first_procs_def Let_def NPROC_def zero_proc_def started_proc_def nth_list_update)
  then have "unused s = Some n" by (intro unused_SomeI)
  moreover have "hart {} True None s" using assms(1) by (simp add: awake_def)
  ultimately show ?thesis using that x assms(3) by simp
qed

lemma populated_next:
  assumes "awake s" and "populated lm n s" and "n < 2" and "kernel_space s st xs" and "12 \<le> length xs + 6 * n"
    and "hart {} True None s'" and "ptable (process_pool st s) s' ys" "set ys \<subseteq> set xs" "length xs \<le> length ys + 6"
    and "slot_step n (set xs) (s\<lparr>k_nextpid := k_nextpid s + 1, k_initproc := i\<rparr>) s'"
    and "first_procs lm (Suc n) (k_procs s')" and "i = Some 0"
  shows "awake s' \<and> populated lm (Suc n) s'"
proof -
  note p = assms(2) [unfolded populated_def] and f = slot_stepD(1,3,4,5) [OF assms(10)] slot_step_rest [OF assms(10)]
  have csr: "k_csr (data s') = k_csr (data s)" using f(5) by (simp add: data_def cpu0_def)
  have satp: "c_satp (k_csr s') = c_satp (k_csr s)" using csr [THEN arg_cong, of c_satp] by simp
  have k: "kernel_space s' st ys" by (rule kernel_space_step [OF assms(4,10,8)]) simp_all
  have pp: "process_pool st s' = process_pool st s" by (rule trans [OF process_pool_step [OF assms(4,10)]]) simp_all
  have pool: "\<exists>st ys. ptable (process_pool st s') s' ys \<and> kernel_space s' st ys \<and> 12 \<le> length ys + 6 * Suc n"
    by (intro exI [of _ st] exI [of _ ys]) (use k assms(5,7,9) pp in simp)
  have "awake s'"
    by (rule awakeI [OF assms(1,6)], use f csr no_sleepers_boot [OF assms(11)] in simp_all)
  moreover have "populated lm (Suc n) s'"
    using p f pool satp assms(11,12) by (simp add: populated_def paging_on_def)
  ultimately show ?thesis by blast
qed

lemma phase_init:
  assumes "awake s" and "populated lm 0 s"
  shows "wp userinit (\<lambda>_ s'. awake s' \<and> populated lm 1 s') s"
proof -
  obtain st xs where x: "hart {} True None s" "ptable (process_pool st s) s xs" "kernel_space s st xs" "12 \<le> length xs + 6 * 0" "unused s = Some 0" "6 \<le> length xs"
    by (rule populatedD [OF assms]) simp_all
  note p = assms(2) [unfolded populated_def]
  show ?thesis
  proof (rule wp_userinit [OF x(1) _ _ x(2,5,6)], goal_cases)
    case (3 s' tf pg ys)
    have "first_procs lm (Suc 0) (k_procs s')"
      using 3(5) p by (auto simp: first_procs_def Let_def)
    from populated_next [OF assms(1,2) _ x(3,4) 3(1-4,6) this] show ?case by simp
  qed (auto simp: outside_def)
qed

lemma phase_test:
  assumes "awake s" and "populated lm 1 s"
  shows "wp spawn_test (\<lambda>_ s'. awake s' \<and> populated lm 2 s') s"
proof -
  obtain st xs where x: "hart {} True None s" "ptable (process_pool st s) s xs" "kernel_space s st xs" "12 \<le> length xs + 6 * 1" "unused s = Some 1" "6 \<le> length xs"
    by (rule populatedD [OF assms]) simp_all
  note p = assms(2) [unfolded populated_def]
  have init: "s\<lparr>k_nextpid := n, k_initproc := Some 0\<rparr> = s\<lparr>k_nextpid := n\<rparr>" for n using p by simp
  have "wp (create_process (l_simple_task lm)) (\<lambda>_ s'. awake s' \<and> populated lm 2 s') s"
  proof (rule wp_create_process [OF x(1) _ _ _ x(2,5,6)], goal_cases)
    case (4 s' tf pg ys)
    have "first_procs lm (Suc 1) (k_procs s')"
      using 4(5) p by (auto simp: first_procs_def Let_def nth_list_update NPROC_def) blast
    moreover have "slot_step 1 (set xs) (s\<lparr>k_nextpid := k_nextpid s + 1, k_initproc := Some 0\<rparr>) s'" using 4(6) by (simp add: init)
    ultimately have "awake s' \<and> populated lm (Suc 1) s'"
      using populated_next [OF assms(1,2) _ x(3,4) 4(1-4)] by simp
    then show ?case by (simp add: numeral_2_eq_2)
  qed (auto simp: outside_def)
  then show ?thesis using p by (simp add: spawn_test_def wp_simps)
qed

lemma phase_scheduler:
  assumes "awake s" and "populated lm 2 s"
  shows "wp scheduler_start (\<lambda>_ s'. (\<exists>st ys. ready_to_run True st ys s') \<and> paging_on s' \<and> k_link s' = lm) s"
proof -
  let ?s = "on_cpu0 (\<lambda>c. c\<lparr>cpu_proc := None\<rparr>) s"
  have h: "hart {} True None s" using assms(1) by (simp add: awake_def)
  have h': "hart {} True None ?s" using hart_on_cpu0 [OF h, of "\<lambda>c. c\<lparr>cpu_proc := None\<rparr>" True] by simp
  have d: "data ?s = data s" by simp
  note p = assms(2) [unfolded populated_def] and f = data_eqD [OF d]
  from p obtain st ys where x: "ptable (process_pool st s) s ys" "kernel_space s st ys" by blast
  have "ready_to_run True st ys ?s"
    using h' x p f ptable_data [OF d] process_pool_data [OF d] kernel_space_data [OF d] unfolding ready_to_run_def by (auto simp: first_procs_def Let_def)
  moreover have "paging_on ?s" 
    using p f(5) f(13) [THEN arg_cong, of c_satp] by (simp add: paging_on_def)
  moreover have "scheduler_start s = Ok () ?s" using hartD(1) [OF h] by (simp add: scheduler_start_def exec_simps cpu_wf_one_cpu)
  ultimately show ?thesis using p f(1) by (auto simp: wp_def)
qed

section \<open>The whole of main\<close>

lemma stays_all:
  "\<forall>f \<in> set (hello # map kcall test_lines1 @ [csr_write (\<lambda>c. w_stimecmp (r_time c + 10000) c)] @ map kcall test_lines2 @ [clear_screen]). stays f"
  "\<forall>f \<in> set (trapinithart # hello # map kcall (test_lines1 @ test_lines2) @ [clear_screen]). stays f"
  using stays_hello stays_stimecmp stays_clear_screen stays_trapinithart stays_lines by auto

lemma main_calls_split:
  "main_calls = uartinit # trapinithart #
     (hello # map kcall test_lines1 @ [csr_write (\<lambda>c. w_stimecmp (r_time c + 10000) c)] @ map kcall test_lines2 @ [clear_screen]) @
     pmm_init # kvminit # kvminithart #
     (trapinithart # hello # map kcall (test_lines1 @ test_lines2) @ [clear_screen]) @ [procinit, userinit, spawn_test, scheduler_start]"
  by (simp add: main_calls_def)

lemma wp_main_ticks:
  assumes "awake s" and "untouched lm s \<and> k_freelist s = 0" and "link_wf lm" and "NPROC + 82 \<le> length (boot_pages lm)"
    and fs: "\<forall>f \<in> set fs. stays f" and gs: "\<forall>f \<in> set gs. stays f"
  shows "wp (with_ticks ts (fs @ pmm_init # kvminit # kvminithart # gs @ [procinit, userinit, spawn_test, scheduler_start]))
     (\<lambda>_ s'. (\<exists>st ys. ready_to_run True st ys s') \<and> paging_on s' \<and> k_link s' = lm) s"
    (is "wp _ ?Q s")
proof (rule wp_all_stay [OF main_phases(1) fs])
  show "awake s \<and> untouched lm s \<and> k_freelist s = 0" using assms(1,2) by blast
  have 5: "wp (with_ticks ts [procinit, userinit, spawn_test, scheduler_start]) ?Q s" if "awake s \<and> paged lm s \<and> paging_on s" for s ts
    by (rule wp_call [OF main_phases(4) that phase_stacks], blast, blast, rule wp_call [OF main_phases(5) _ phase_init], assumption, blast, blast,
        rule wp_call [OF main_phases(5) _ phase_test], assumption, blast, blast, rule wp_call [OF main_phases(5) _ phase_scheduler], assumption, blast, blast)
       (simp add: wp_def)
  have 4: "wp (with_ticks ts (gs @ [procinit, userinit, spawn_test, scheduler_start])) ?Q s" if "awake s \<and> paged lm s \<and> paging_on s" for s ts
    by (rule wp_all_stay [OF main_phases(4) gs that 5])
  have 3: "wp (with_ticks ts (kvminithart # gs @ [procinit, userinit, spawn_test, scheduler_start])) ?Q s" if "awake s \<and> paged lm s" for s ts
    by (rule wp_call [OF main_phases(3) that phase_satp 4], blast, blast)
  have 2: "wp (with_ticks ts (kvminit # kvminithart # gs @ [procinit, userinit, spawn_test, scheduler_start])) ?Q s"
    if "awake s \<and> untouched lm s \<and> kmem_rep s (boot_pages lm)" for s ts
    by (rule wp_call [OF main_phases(2) that phase_kvm [OF _ _ assms(4)] 3], blast, blast)
  show "wp (with_ticks ts (pmm_init # kvminit # kvminithart # gs @ [procinit, userinit, spawn_test, scheduler_start])) ?Q s"
    if "awake s \<and> untouched lm s \<and> k_freelist s = 0" for s ts
    by (rule wp_call [OF main_phases(1) that phase_pmm [OF _ _ assms(3)] 2], blast, blast)
qed

text \<open>C6. \<open>main\<close> is \<open>main_calls\<close> without interrupts. However many timer interrupts arrive between its calls
  once the trap vector is installed, it reaches the scheduler as it does without them: paging on, the
  resources of the kernel accounted for and the first two processes runnable. An interrupt that arrives before the
  vector is installed jumps to another address.\<close>

theorem main_survives_interrupts:
  assumes "fresh_boot True s" and "NPROC + 82 \<le> length (boot_pages (k_link s))"
  shows "main = with_ticks [] main_calls
     \<and> (\<exists>s' st ys. with_ticks ([] # [] # ts) main_calls s = Ok () s' \<and> ready_to_run True st ys s'
         \<and> c_satp (k_csr s') = MAKE_SATP (k_pagetable s') \<and> k_link s' = k_link s)
     \<and> (c_stvec (k_csr s) \<noteq> l_kernelvec (k_link s) \<longrightarrow> with_ticks ((t # b) # ts) main_calls s = Err Fault s)"
proof (intro conjI impI)
  note b = assms(1) [unfolded fresh_boot_def]
  show "main = with_ticks [] main_calls" by (rule main_is_calls)
  obtain s1 where s1: "uartinit s = Ok () s1" "hart {} True None s1" "data s1 = data s"
    by (rule wpE [OF wp_uartinit [where s = s and Q = "\<lambda>_ s'. hart {} True None s' \<and> data s' = data s"]]) (use b in auto)
  obtain s2 where s2: "trapinithart s1 = Ok () s2" "hart {} True None s2"
      "data s2 = (data s1)\<lparr>k_csr := (k_csr (data s1))\<lparr>c_stvec := l_kernelvec (k_link s1)\<rparr>\<rparr>"
    by (rule wpE [OF wp_trapinithart [OF s1(2), where Q = "\<lambda>_ s'. hart {} True None s' \<and> data s' = (data s1)\<lparr>k_csr := (k_csr (data s1))\<lparr>c_stvec := l_kernelvec (k_link s1)\<rparr>\<rparr>"]]) auto
  note f1 = data_eqD [OF s1(3)] and d = s2(3)
  have f2: "k_link s2 = k_link s" "k_procs s2 = replicate NPROC zero_proc" "k_nextpid s2 = 1" "k_freelist s2 = 0" "c_stvec (k_csr s2) = l_kernelvec (k_link s)"
    using b f1 d [THEN arg_cong, of k_link] d [THEN arg_cong, of k_procs] d [THEN arg_cong, of k_nextpid] d [THEN arg_cong, of k_freelist]
      d [THEN arg_cong, of "\<lambda>d. c_stvec (k_csr d)"] by simp_all
  have "awake s2" using s2(2) f2 no_sleepers by (simp add: awake_def)
  from wp_main_ticks [OF this _ _ _ stays_all, of "k_link s" ts] obtain s' st ys where s':
      "with_ticks ts (drop 2 main_calls) s2 = Ok () s'" "ready_to_run True st ys s'" "paging_on s'" "k_link s' = k_link s"
    using b f2 assms(2) by (auto simp: untouched_def wp_def main_calls_split)
  have "with_ticks ([] # [] # ts) main_calls s = with_ticks ts (drop 2 main_calls) s2"
    using s1(1) s2(1) by (simp add: main_calls_def seqM_def bindM_def ret_def)
  with s' show "\<exists>s' st ys. with_ticks ([] # [] # ts) main_calls s = Ok () s' \<and> ready_to_run True st ys s'
       \<and> c_satp (k_csr s') = MAKE_SATP (k_pagetable s') \<and> k_link s' = k_link s"
    unfolding paging_on_def by auto
  assume "c_stvec (k_csr s) \<noteq> l_kernelvec (k_link s)"
  moreover have "intr_get (k_csr s)" using b by (simp add: hart_def)
  ultimately show "with_ticks ((t # b) # ts) main_calls s = Err Fault s"
    by (simp add: main_calls_def exec_simps take_tick_def)
qed

theorem main_survives_interrupts_witness:
  "(\<exists>s'. with_ticks [[], [], [(0x80000104, zero_context), (0x80000104, zero_context)], [(0x80000108, zero_context)]] main_calls
       (idle_state None True pool_link) = Ok () s' \<and> k_nextpid s' = 3)
   \<and> with_ticks [[(0x80000100, zero_context)]] main_calls (idle_state None True pool_link) = Err Fault (idle_state None True pool_link)"
proof -
  let ?s = "idle_state None True pool_link"
  have "fresh_boot False (boot_state pool_link)" by (rule fresh_boot_pool(1))
  then have f: "fresh_boot True ?s" using hart_idle [of True None pool_link] by (auto simp: fresh_boot_def idle_state_def)
  have len: "NPROC + 82 \<le> length (boot_pages (k_link ?s))" using fresh_boot_pool(2) by (simp add: idle_state_def NPROC_def)
  have v: "c_stvec (k_csr ?s) \<noteq> l_kernelvec (k_link ?s)"
    by (simp add: idle_state_def pool_link_def demo_link_def zero_csrs_def intr_on_def w_sstatus_def)
  note m = main_survives_interrupts [OF f len]
  have "\<exists>s'. with_ticks ([] # [] # ts) main_calls ?s = Ok () s' \<and> k_nextpid s' = 3" for ts
    using m [THEN conjunct2, THEN conjunct1, of ts] unfolding ready_to_run_def by blast
  moreover have "with_ticks ((t # b) # ts) main_calls ?s = Err Fault ?s" for t b ts
    using m [THEN conjunct2, THEN conjunct2] v by blast
  ultimately show ?thesis by blast
qed

end
