(* ===== verification/Spec2Isabelle.thy ===== *)
theory Spec2Isabelle
  imports Wakeups Smp Entry Trampoline Selftest Interrupts
begin

text \<open>
  A verification library for a teaching kernel in the style of xv6 on 64-bit RISC-V, one hart, with
  physical pages, Sv39 page tables, kernel threads and a timer, but no user mode or file system.

  \<^bold>\<open>The program.\<close> \<open>entry.S\<close> sets up a stack and calls \<open>start\<close> (\<open>boot/start.c\<close>, machine mode), which
  leaves for \<open>main\<close> in supervisor mode. \<open>main\<close> tests the console, initialises the page allocator
  (\<open>mm/kalloc.c\<close>), builds the kernel's address space and turns paging on (\<open>mm/vm.c\<close>), gives every slot
  of the process table a kernel stack, creates the init process and a test process (\<open>proc.c\<close>), and
  enters the scheduler. The test process creates a child, which exits with status 88; the parent,
  asleep in \<open>wait_process\<close>, is woken, reaps it and prints its verdict. Timer interrupts arrive through
  \<open>kernelvec.S\<close> and \<open>trap.c\<close>. Shared data is protected by spin locks (\<open>spinlock.c\<close>), which keep
  interrupts off; everything prints through \<open>printf.c\<close> and the UART driver.

  \<^bold>\<open>How the code is modelled.\<close> A C function that touches kernel state is a function from the state
  \<open>kstate\<close> (\<open>Machine\<close>: registers, byte memory, devices and every global variable) to an outcome: \<open>Ok\<close>
  a value and a state, or \<open>Err\<close> an error and the state at that moment. The errors are \<open>Panic msg\<close> (a
  call of \<open>panic\<close>, whose own behaviour \<open>Printf\<close> describes), \<open>Fault\<close> (a wild access), \<open>Spin\<close> (a loop
  that would never end) and \<open>OutOfFuel\<close>. Integers are words of their C width; \<open>noff\<close>, at most the number of locks, and
  indices of tables are unbounded. Addresses the linker assigns are the parameter \<open>linkmap\<close>, the
  delays of the UART a parameter of the device. A function that switches to another context is cut at
  the call of \<open>swtch\<close>: \<open>sleep\<close> is what happens up to the switch and \<open>sleep_resume\<close> what follows when
  the process is switched to again, and so for \<open>sched\<close>, \<open>yield\<close>, \<open>exit_process\<close>, \<open>wait_process\<close>,
  \<open>kerneltrap\<close> and \<open>kernelvec\<close>; the callee-saved registers at the switch are an argument.

  \<^bold>\<open>The theories\<close>, in the order they build on each other:
  \<^item> \<open>Prelude\<close>: word types, the state-and-error monad, total correctness \<open>wp\<close> (it returns, and the
    result satisfies the post-condition), shared lemmas and the simp collections.
  \<^item> \<open>Riscv\<close> (\<open>include/riscv.h\<close>, \<open>memlayout.h\<close>, \<open>param.h\<close>): control registers, page-table and layout
    macros; bits of the entries, layout of the kernel stacks. \<open>Memory\<close>: bytes, 64-bit accesses,
    \<open>memset\<close>. \<open>Machine\<close>: the data structures.
  \<^item> \<open>Spinlock\<close> (\<open>spinlock.c\<close>) and \<open>Hart\<close>: the locks, and the discipline of one hart as an invariant
    \<open>hart H e c s\<close> (exactly the locks \<open>H\<close> are held, interrupts were on or off, process \<open>c\<close> is current);
    the contract of a lock is the locale \<open>locking\<close>, interpreted on \<open>acquire\<close> and \<open>release\<close>.
  \<^item> \<open>Uart\<close>, \<open>Printf\<close> (\<open>uart.c\<close>, \<open>console.c\<close>, \<open>printf.c\<close>): the driver, and \<open>printf\<close> against a reference
    rendering of its format.
  \<^item> \<open>Kalloc\<close> (\<open>mm/kalloc.c\<close>): the free list refines a stack of pages (locale \<open>page_pool\<close>).
  \<^item> \<open>Vm\<close>, \<open>Kvm\<close> (\<open>mm/vm.c\<close>): page tables in memory refine a map from virtual pages to entries (locale
    \<open>address_space\<close>); ranges, destruction, the kernel's direct map, the self-tests.
  \<^item> \<open>Proc\<close>, \<open>Sched\<close>, \<open>Procinit\<close> (\<open>proc.c\<close>, \<open>swtch.S\<close>): the process table. \<open>ptable U s xs\<close> says that the
    pages \<open>xs\<close> are free, that every page of a process belongs to that process alone, and that these are
    all the pages in \<open>U\<close>: none is lost. \<open>process_pool\<close> is the set \<open>U\<close> that \<open>main\<close> leaves.
  \<^item> \<open>Trap\<close> (\<open>trap.c\<close>, \<open>plic.c\<close>, \<open>kernelvec.S\<close>), \<open>Boot\<close> (\<open>start.c\<close>, \<open>main.c\<close>), \<open>Tasks\<close> (\<open>init_task\<close> and
    \<open>simple_task\<close>): traps, boot, and the two kernel threads piece by piece.
  \<^item> \<open>System\<close>: the scheduler, the processes and the timer as one transition system; the locale
    \<open>transition_system\<close> (invariant, variant, goal) is interpreted on the kernel.
  \<^item> \<open>Interrupts\<close>: \<open>main\<close> as the list of its calls, with any number of timer interrupts between them.
  \<^item> \<open>Smp\<close>: \<open>acquire\<close> and \<open>release\<close> cut at each access to a shared field, every interleaving of any
    number of harts, and the functions of \<open>Spinlock\<close> as the runs that nobody interrupts.
  \<^item> \<open>Wakeups\<close>: \<open>sleep\<close> and \<open>wakeup\<close> cut at each lock operation and each access to the process table, one
    process that goes to sleep and any number of harts that wake it, in every order; a waker may be
    \<open>timer_interrupt\<close> or the end of \<open>exit_process\<close>.
  \<^item> \<open>Entry\<close> (\<open>boot/entry.S\<close>): the loop that clears static data, a partial function, and the first stack.
  \<^item> \<open>Trampoline\<close> (\<open>trampoline.S\<close>, \<open>include/proc.h\<close>): \<open>uservec\<close> and \<open>userret\<close> as lists of instructions that a
    small machine executes through the page tables, and \<^verbatim>\<open>struct trapframe\<close>.
  \<^item> \<open>Selftest\<close>: the three self-tests that \<open>main\<close> has calls of in comments.
  This theory holds what spans them: from power-on to the verdict, progress, and the invariants of
  every reachable state.

  \<^bold>\<open>Bounds.\<close> No function has fuel except \<open>destroy_pagetable\<close> and \<open>dump_pagetable\<close>, whose argument is the
  number of levels: 3 are enough for an Sv39 table, and the theorem on \<open>destroy_pagetable\<close> says so. \<open>solo\<close>
  counts pieces: a call of \<open>acquire\<close> or \<open>release\<close> has at most five, or waits for the lock. \<open>pieces_left\<close>
  bounds the runs in \<open>Wakeups\<close>. The
  boot needs 146 free pages and the test six more (\<open>NPROC + 82\<close> and \<open>NPROC + 88\<close>); the variant of the
  system gives 1999 steps to the verdict. \<open>main\<close> and each step of the system are total under the
  stated conditions: the theorems say that they return.

  \<^bold>\<open>Not modelled.\<close>
  \<^item> More than one hart outside the spin locks, \<open>sleep\<close> and \<open>wakeup\<close> (\<open>param.h\<close> has \<open>NCPU\<close> 1), and memory that
    is weaker than one access at a time. In \<open>Wakeups\<close> a lock is taken in one piece, once it is free, and the
    sleeper does not run again after it has been woken.
  \<^item> Translation of ordinary accesses: after \<open>kvminithart\<close> has turned paging on, the loads, stores and
    fetches of the C code, of the UART registers and of static data such as \<open>test_data_integrity\<close> still go
    straight to physical memory in the model. Only the interrupt controller and the code of \<open>Trampoline\<close>
    are reached through \<open>satp\<close>. That the page table \<open>main\<close> installs maps the RAM and the UART to
    themselves, so that nothing is missed, is proved by itself (\<open>Kvm\<close>, \<open>Boot\<close>).
    The TLB and \<open>sfence.vma\<close> are not modelled either.
  \<^item> Code addresses in the transition system: which code a process goes on with after a switch is recorded
    beside the state, in a \<open>frame\<close>, and a new process starts in \<open>forkret\<close>; the \<open>ra\<close> that \<open>swtch\<close> loads is
    saved and restored as data but does not choose the code. At most one timer interrupt arrives at each
    poll of the scheduler.
  \<^item> Interrupts within a call while \<open>main\<close> runs (between its calls they are modelled); the contents of the
    stacks and the caller-saved registers; \<open>wfi\<close>, a step that does nothing; the delay loop of the test process.
  \<^item> The linker script, whose addresses are parameters, the loop after \<open>start\<close> in \<open>entry.S\<close>, which is not
    reached, and \<open>mm/spinlock.c\<close> (an unbuilt copy of \<open>spinlock.c\<close>). \<open>defs.h\<close> holds prototypes only.
    \<open>consoleintr\<close> does nothing in the source.
\<close>

text \<open>The state in which \<open>start\<close> hands over to \<open>main\<close>.\<close>

lemma fresh_boot_start:
  assumes "fresh_boot e s" and "start s = Ok r s'"
  shows "fresh_boot True s'" and "k_link s' = k_link s"
proof -
  let ?c = "start_csrs (l_main (k_link s)) (k_csr s)" and ?l = "\<lparr>lk_locked = 0, lk_name = Some ''time'', lk_cpu = None\<rparr>"
  have s': "s' = s\<lparr>k_csr := ?c, k_locks := (k_locks s)(TicksLock := ?l)\<rparr>" using assms(2) start_run [of s] by simp
  have "intr_get ?c" "c_tp ?c = c_tp (k_csr s)"
    by (simp_all add: start_csrs_def mret_def Let_def intr_get_bit start_mstatus_def bit_simps bit_SIE bit_MPP)
  then have "hart {} True None (s\<lparr>k_csr := ?c\<rparr>)"
    using hart_csr [of "{}" e None s ?c] assms(1) by (simp add: fresh_boot_def)
  then have "hart {} True None (s\<lparr>k_csr := ?c, k_locks := (k_locks s)(TicksLock := ?l)\<rparr>)"
    by (auto simp: hart_def cpu_wf_def one_cpu_def cpu0_def lock_free_def)
  then show "fresh_boot True s'" "k_link s' = k_link s" using assms(1) by (auto simp: fresh_boot_def s')
qed

text \<open>C1. From power-on to the verdict: \<open>start\<close> enters \<open>main\<close> in supervisor mode, \<open>main\<close> reaches the
  scheduler, and from there, whatever timer interrupts arrive, every run comes within two thousand
  steps to the point where the test process has reaped its child with status 88 and prints that the
  test has passed. There is such a run.\<close>

theorem boot_test_passes:
  assumes "fresh_boot e s" and "task_addrs (k_link s)" and "NPROC + 88 \<le> length (boot_pages (k_link s))"
  shows "\<exists>s1 s2. start s = Ok (1, l_main (k_link s)) s1 \<and> main s1 = Ok () s2
     \<and> (\<exists>run. run 0 = (AtPoll, \<lambda>_. Fresh, s2) \<and> (\<forall>n. sys_step (run n) (run (Suc n))))
     \<and> (\<forall>run. run 0 = (AtPoll, \<lambda>_. Fresh, s2) \<longrightarrow> (\<forall>n. sys_step (run n) (run (Suc n))) \<longrightarrow>
         (\<exists>n < 2000. fst (run n) = Running 1 (TaskWaited 3 3 88) \<and> fst (run (Suc n)) = Running 1 Beating
           \<and> k_uart (snd (snd (run (Suc n)))) = send (passed_text 3) (k_uart (snd (snd (run n))))))"
proof -
  obtain s1 where s1: "start s = Ok (1, l_main (k_link s)) s1" by (simp add: start_run)
  note b = fresh_boot_start [OF assms(1) s1]
  obtain s2 st ys where s2: "main s1 = Ok () s2" "ready_to_run True st ys s2" "length (boot_pages (k_link s)) \<le> length ys + NPROC + 82" "k_link s2 = k_link s"
    by (rule wpE [OF wp_main [OF b(1), where Q = "\<lambda>_ s'. \<exists>st ys. ready_to_run True st ys s' \<and> length (boot_pages (k_link s)) \<le> length ys + NPROC + 82 \<and> k_link s' = k_link s"]])
       (use assms(3) b(2) in auto)
  have inv: "sys_inv (process_pool st s2) (AtPoll, \<lambda>_. Fresh, s2)"
    by (rule initial_inv [OF s2(2)]) (use s2(3,4) assms(2,3) in auto)
  have "\<exists>n < 2000. fst (run n) = Running 1 (TaskWaited 3 3 88) \<and> fst (run (Suc n)) = Running 1 Beating
      \<and> k_uart (snd (snd (run (Suc n)))) = send (passed_text 3) (k_uart (snd (snd (run n))))"
    if r: "run 0 = (AtPoll, \<lambda>_. Fresh, s2)" "\<forall>n. sys_step (run n) (run (Suc n))" for run
  proof -
    have i: "sys_inv (process_pool st s2) (run 0)" "\<not> sys_goal (run 0)" "sys_variant (run 0) < 2000" using inv r(1) by (simp_all add: sys_goal_def)
    obtain n where n: "n < sys_variant (run 0)" "\<not> sys_goal (run n)" "sys_goal (run (Suc n))"
      using kernel.run_enters [where run = run] i r(2) by blast
    have "sys_inv (process_pool st s2) (run n)" using kernel.run_inv [where run = run and n = n] i(1) r(2) by blast
    then show ?thesis using enters_goal [where x = "run n" and x' = "run (Suc n)"] r(2) n i(3) by (intro exI [of _ n]) (simp add: sys_goal_def)
  qed
  then show ?thesis using s1 s2(1) kernel.run_exists [OF inv] by blast
qed

lemma task_addrs_pool: "task_addrs pool_link"
  by (simp add: task_addrs_def pool_link_def demo_link_def)

theorem boot_test_passes_witness:
  "\<exists>s1 s2. start (boot_state pool_link) = Ok (1, 0x80000100) s1 \<and> main s1 = Ok () s2
     \<and> (\<exists>run. run 0 = (AtPoll, \<lambda>_. Fresh, s2) \<and> (\<forall>n. sys_step (run n) (run (Suc n)))
         \<and> (\<exists>n < 2000. fst (run n) = Running 1 (TaskWaited 3 3 88) \<and> fst (run (Suc n)) = Running 1 Beating))"
proof -
  have "l_main pool_link = 0x80000100" by (simp add: pool_link_def demo_link_def)
  then show ?thesis
    using boot_test_passes [OF fresh_boot_pool(1)] task_addrs_pool fresh_boot_pool(2) by (simp add: NPROC_def) blast
qed

definition booted :: kstate where
  "booted = (case main (boot_state pool_link) of Ok _ s \<Rightarrow> s | Err _ s \<Rightarrow> s)"

lemma booted_ready:
  obtains st ys where "ready_to_run False st ys booted" "6 \<le> length ys" "task_addrs (k_link booted)"
proof -
  obtain s st ys where s: "main (boot_state pool_link) = Ok () s" "ready_to_run False st ys s" "256 \<le> length ys + NPROC + 82" "k_link s = pool_link"
    by (rule wpE [OF wp_main [OF fresh_boot_pool(1), where Q = "\<lambda>_ s'. \<exists>st ys. ready_to_run False st ys s' \<and> 256 \<le> length ys + NPROC + 82 \<and> k_link s' = pool_link"]])
       (use fresh_boot_pool(2) in \<open>auto simp: NPROC_def\<close>)
  then have "booted = s" by (simp add: booted_def)
  then show ?thesis using that s task_addrs_pool by (simp add: NPROC_def)
qed

text \<open>C2. Nothing that can be reached is stuck: whatever runs next, with or without a pending timer
  interrupt, returns; no panic, no fault, and no lock that is waited for in vain.\<close>

theorem kernel_never_stuck:
  assumes "ready_to_run e st ys s" and "6 \<le> length ys" and "task_addrs (k_link s)"
    and "sys_step\<^sup>*\<^sup>* (AtPoll, \<lambda>_. Fresh, s) (c, fr, s')"
  shows "\<exists>r s''. turn tick pc regs c fr s' = Ok r s''"
  using turn_good [OF kernel.reachable_inv [OF assms(4) initial_inv [OF assms(1-3)]], of tick pc regs] by (auto simp: wp_def)

theorem kernel_never_stuck_witness:
  "\<exists>r s'. turn True 0x80001234 zero_context AtPoll (\<lambda>_. Fresh) booted = Ok r s'"
  by (rule booted_ready) (rule kernel_never_stuck, assumption+, simp)

text \<open>C4. A process runs alone and undisturbed: it is the hart's current process, the only one in
  state \<open>RUNNING\<close>, and interrupts are off, so that no timer interrupt ever preempts it.\<close>

theorem running_undisturbed:
  assumes "ready_to_run e st ys s" and "6 \<le> length ys" and "task_addrs (k_link s)"
    and "sys_step\<^sup>*\<^sup>* (AtPoll, \<lambda>_. Fresh, s) (Running p f, fr, s')"
  shows "cpu_proc (cpu0 s') = Some p \<and> p_state (k_procs s' ! p) = RUNNING \<and> \<not> intr_get (k_csr s')
     \<and> (\<forall>q < NPROC. p_state (k_procs s' ! q) = RUNNING \<longrightarrow> q = p)"
proof -
  have inv: "sys_inv (process_pool st s) (Running p f, fr, s')" by (rule kernel.reachable_inv [OF assms(4) initial_inv [OF assms(1-3)]])
  then have h: "hart (if resuming f then {ProcLock p} else {}) False (Some p) s'" by simp
  obtain ph s0 s1 s2 where t: "table_at (process_pool st s) ph s0 s1 s2 fr s'" and
    p: "p = 0 \<and> s0 = RUNNING \<and> s1 \<noteq> RUNNING \<and> s2 \<noteq> RUNNING \<or> p = 1 \<and> s0 \<noteq> RUNNING \<and> s1 = RUNNING \<and> s2 \<noteq> RUNNING \<or> p = 2 \<and> s0 \<noteq> RUNNING \<and> s1 \<noteq> RUNNING \<and> s2 = RUNNING"
    using inv by (auto simp: child_state_def)
  note st = table_at_states [OF t]
  have "q = p" if "q < NPROC" "p_state (k_procs s' ! q) = RUNNING" for q
    using that(2) st(1-4) p by (cases rule: three_slots [OF that(1)]) (use that(1) in auto)
  moreover have "p_state (k_procs s' ! p) = RUNNING" using st p by auto
  ultimately show ?thesis using h hart_intr_off [OF h] by (simp add: hart_def)
qed

text \<open>The state of \<open>booted\<close> in which the child has been reaped.\<close>

lemma booted_reaped:
  obtains fr s' where "sys_step\<^sup>*\<^sup>* (AtPoll, \<lambda>_. Fresh, booted) (Running 1 (TaskWaited 3 3 88), fr, s')"
proof -
  obtain st ys where r: "ready_to_run False st ys booted" "6 \<le> length ys" "task_addrs (k_link booted)" by (rule booted_ready)
  note inv = initial_inv [OF r]
  obtain run where run: "run 0 = (AtPoll, \<lambda>_. Fresh, booted)" "\<And>n. sys_step (run n) (run (Suc n))"
    using kernel.run_exists [OF inv] by blast
  have i: "sys_inv (process_pool st booted) (run 0)" "\<not> sys_goal (run 0)" using inv run(1) by (simp_all add: sys_goal_def)
  obtain n where n: "\<not> sys_goal (run n)" "sys_goal (run (Suc n))" using kernel.run_enters [where run = run] i run(2) by blast
  have "fst (run n) = Running 1 (TaskWaited 3 3 88)"
    using enters_goal [where x = "run n" and x' = "run (Suc n)"] kernel.run_inv [where run = run and n = n] i(1) run(2) n by blast
  moreover have "sys_step\<^sup>*\<^sup>* (run 0) (run n)" by (induction n) (auto intro: rtranclp.rtrancl_into_rtrancl run(2))
  ultimately show ?thesis using that run(1) by (cases "run n") auto
qed

theorem running_undisturbed_witness:
  "\<exists>fr s'. sys_step\<^sup>*\<^sup>* (AtPoll, \<lambda>_. Fresh, booted) (Running 1 (TaskWaited 3 3 88), fr, s')
     \<and> cpu_proc (cpu0 s') = Some 1 \<and> p_state (k_procs s' ! 1) = RUNNING \<and> \<not> intr_get (k_csr s') \<and> p_state (k_procs s' ! 0) \<noteq> RUNNING"
proof -
  obtain st ys where r: "ready_to_run False st ys booted" "6 \<le> length ys" "task_addrs (k_link booted)" by (rule booted_ready)
  obtain fr s' where s': "sys_step\<^sup>*\<^sup>* (AtPoll, \<lambda>_. Fresh, booted) (Running 1 (TaskWaited 3 3 88), fr, s')" by (rule booted_reaped)
  have "0 < NPROC" by (simp add: NPROC_def)
  then show ?thesis using running_undisturbed [OF r s'] s' by (intro exI [of _ fr] exI [of _ s']) auto
qed

text \<open>C3. No page is lost or shared while the system runs: of the pages that \<open>main\<close> leaves (those between
  \<open>end\<close> and \<open>PHYSTOP\<close> that hold neither a table of the kernel nor a stack) each is, between two steps,
  either on the free list or belongs to exactly one process, as its trapframe or a table of its address
  space, and there are no others. The only lock that is held is the lock of the current process.\<close>

theorem reachable_resources:
  assumes "ready_to_run e st ys s" and "6 \<le> length ys" and "task_addrs (k_link s)"
    and "sys_step\<^sup>*\<^sup>* (AtPoll, \<lambda>_. Fresh, s) (c, fr, s')"
  shows "(\<exists>zs. free_pages s' zs \<and> set zs \<union> owned s' = set (boot_pages (k_link s)) - (tables s (k_pagetable s) \<union> set st)
        \<and> (\<forall>p \<in> set (boot_pages (k_link s)) - (tables s (k_pagetable s) \<union> set st).
            if p \<in> set zs then \<forall>i < NPROC. p \<notin> proc_pages s' (k_procs s' ! i)
            else \<exists>!i. i < NPROC \<and> p \<in> proc_pages s' (k_procs s' ! i)))
     \<and> (\<forall>lk. lock_held s' lk \<longrightarrow> (\<exists>p. lk = ProcLock p \<and> cpu_proc (cpu0 s') = Some p))"
proof -
  have inv: "sys_inv (process_pool st s) (c, fr, s')" by (rule kernel.reachable_inv [OF assms(4) initial_inv [OF assms(1-3)]])
  obtain ph s0 s1 s2 where t: "table_at (process_pool st s) ph s0 s1 s2 fr s'" using inv by (cases c) auto
  obtain zs where zs: "ptable (process_pool st s) s' zs" using t by (rule table_atD)
  obtain H e' q where h: "hart H e' q s'" and H: "H \<subseteq> {lk. \<exists>p. lk = ProcLock p \<and> q = Some p}"
    using inv by (cases c) (auto split: if_splits; blast)+
  have "lk \<in> H" if "lock_held s' lk" for lk using h that by (auto simp: hart_def lock_held_def lock_free_def split: if_splits)
  moreover have "cpu_proc (cpu0 s') = q" using h by (simp add: hart_def)
  ultimately have locks: "\<forall>lk. lock_held s' lk \<longrightarrow> (\<exists>p. lk = ProcLock p \<and> cpu_proc (cpu0 s') = Some p)" using H by blast
  have "free_pages s' zs" "set zs \<union> owned s' = process_pool st s" using zs by (simp_all add: ptable_def)
  then show ?thesis unfolding process_pool_def [symmetric] using ptable_accounts [OF zs] locks by blast
qed

theorem reachable_resources_witness:
  "\<exists>fr s' zs. sys_step\<^sup>*\<^sup>* (AtPoll, \<lambda>_. Fresh, booted) (Running 1 (TaskWaited 3 3 88), fr, s') \<and> free_pages s' zs \<and> \<not> lock_held s' WaitLock"
proof -
  obtain st ys where r: "ready_to_run False st ys booted" "6 \<le> length ys" "task_addrs (k_link booted)" by (rule booted_ready)
  obtain fr s' where s': "sys_step\<^sup>*\<^sup>* (AtPoll, \<lambda>_. Fresh, booted) (Running 1 (TaskWaited 3 3 88), fr, s')" by (rule booted_reaped)
  show ?thesis using reachable_resources [OF r s'] s' by blast
qed

end
